(* ===== verification/Prelude.thy ===== *)
theory Prelude
  imports Complex_Main "HOL-Library.Word" "HOL-Library.Char_ord" "HOL-Library.List_Lexorder"
begin

text \<open>
  Shared vocabulary of the development: the model's type names, the arithmetic of Go's
  64-bit integers, the outcomes of Go code (panics), the byte-string operations of the
  standard library packages \<open>strings\<close> and \<open>bytes\<close> the sources call, and generic list
  lemmas used by several components.

  Conventions used by every theory: an instant or a duration is an \<open>int\<close> number of
  nanoseconds; a Go map that is only ranged over is an association list, read as one
  possible iteration order; a Go string or byte slice is a \<open>string\<close>, whose characters
  are bytes.
\<close>

section \<open>Names\<close>

type_synonym time = int
type_synonym duration = int
type_synonym bytes = string
type_synonym u64 = "64 word"

definition second_ns :: duration where "second_ns = 1000000000"
definition minute_ns :: duration where "minute_ns = 60 * second_ns"

lemma second_ns_pos [simp]: "0 < second_ns" by (simp add: second_ns_def)
lemma minute_ns_pos [simp]: "0 < minute_ns" by (simp add: minute_ns_def)

datatype go_panic = DivideByZero | IndexOutOfRange | NilDeref | NilMapWrite

named_theorems pool_simps \<open>facts about selection of a pool member\<close>
named_theorems gate_inv \<open>invariant preservation of the admission gates\<close>

section \<open>Go's 64-bit integers\<close>

text \<open>Two's complement wrap-around of the mathematical result to \<open>int64\<close>.\<close>

definition wrap64 :: "int \<Rightarrow> int" where
  "wrap64 x = (x + 2 ^ 63) mod 2 ^ 64 - 2 ^ 63"

lemma wrap64_id: "- (2 ^ 63) \<le> x \<Longrightarrow> x < 2 ^ 63 \<Longrightarrow> wrap64 x = x"
  by (simp add: wrap64_def)

lemma wrap64_range: "- (2 ^ 63) \<le> wrap64 x" "wrap64 x < 2 ^ 63"
  by (simp_all add: wrap64_def)

lemma wrap64_double:
  assumes "0 \<le> x" "x < 2 ^ 63" "2 ^ 63 \<le> 2 * x"
  shows "wrap64 (2 * x) = 2 * x - 2 ^ 64"
proof -
  have "(2 * x + 2 ^ 63) mod 2 ^ 64 = (2 * x + 2 ^ 63 - 2 ^ 64) mod 2 ^ 64"
    by (metis mod_add_self2 diff_add_cancel)
  also have "\<dots> = 2 * x + 2 ^ 63 - 2 ^ 64"
    using assms by (intro mod_pos_pos_trivial) auto
  finally show ?thesis by (simp add: wrap64_def)
qed

text \<open>Go's integer division truncates towards zero.\<close>

definition go_div :: "int \<Rightarrow> int \<Rightarrow> int" where
  "go_div a b = sgn a * sgn b * (\<bar>a\<bar> div \<bar>b\<bar>)"

lemma go_div_nonneg [simp]: "0 \<le> a \<Longrightarrow> 0 < b \<Longrightarrow> go_div a b = a div b"
  by (cases "a = 0") (simp_all add: go_div_def)

section \<open>Byte strings\<close>

definition has_prefix :: "'a list \<Rightarrow> 'a list \<Rightarrow> bool" where
  "has_prefix s p \<longleftrightarrow> take (length p) s = p"

definition has_suffix :: "'a list \<Rightarrow> 'a list \<Rightarrow> bool" where
  "has_suffix s p \<longleftrightarrow> length p \<le> length s \<and> drop (length s - length p) s = p"

definition trim_suffix :: "'a list \<Rightarrow> 'a list \<Rightarrow> 'a list" where
  "trim_suffix s p = (if has_suffix s p then take (length s - length p) s else s)"

lemma has_prefix_append [simp]: "has_prefix (p @ s) p"
  by (simp add: has_prefix_def)

lemma has_prefixE: "has_prefix s p \<Longrightarrow> \<exists>r. s = p @ r"
  by (metis append_take_drop_id has_prefix_def)

lemma has_prefix_iff: "has_prefix s p \<longleftrightarrow> (\<exists>r. s = p @ r)"
  using has_prefixE by auto

lemma has_suffix_iff: "has_suffix s p \<longleftrightarrow> (\<exists>r. s = r @ p)"
proof
  assume "has_suffix s p"
  then have "s = take (length s - length p) s @ p"
    by (metis append_take_drop_id has_suffix_def)
  then show "\<exists>r. s = r @ p" by blast
qed (auto simp: has_suffix_def)

lemma trim_suffix_append [simp]: "trim_suffix (r @ p) p = r"
  by (simp add: trim_suffix_def has_suffix_def)

text \<open>\<open>bytes.Index\<close>: offset of the first occurrence.\<close>

fun str_index :: "'a list \<Rightarrow> 'a list \<Rightarrow> nat option" where
  "str_index [] pat = (if pat = [] then Some 0 else None)"
| "str_index (c # s) pat =
     (if has_prefix (c # s) pat then Some 0 else map_option Suc (str_index s pat))"

definition str_contains :: "'a list \<Rightarrow> 'a list \<Rightarrow> bool" where
  "str_contains s pat \<longleftrightarrow> str_index s pat \<noteq> None"

text \<open>\<open>bytes.LastIndex\<close>: offset of the last occurrence.\<close>

fun str_last_index :: "'a list \<Rightarrow> 'a list \<Rightarrow> nat option" where
  "str_last_index [] pat = (if pat = [] then Some 0 else None)"
| "str_last_index (c # s) pat =
     (case str_last_index s pat of
        Some i \<Rightarrow> Some (Suc i)
      | None \<Rightarrow> if has_prefix (c # s) pat then Some 0 else None)"

lemma str_index_Some:
  "str_index s pat = Some i \<Longrightarrow> i \<le> length s \<and> has_prefix (drop i s) pat"
  by (induction s arbitrary: i)
     (auto simp: has_prefix_def split: if_splits)

lemma str_index_least:
  "str_index s pat = Some i \<Longrightarrow> j < i \<Longrightarrow> \<not> has_prefix (drop j s) pat"
proof (induction s arbitrary: i j)
  case (Cons c s)
  then show ?case by (cases j) (auto split: if_splits)
qed (auto split: if_splits)

lemma str_index_None: "str_index s pat = None \<Longrightarrow> \<not> has_prefix (drop j s) pat"
proof (induction s arbitrary: j)
  case Nil
  then show ?case by (auto simp: has_prefix_def split: if_splits)
next
  case (Cons c s)
  then show ?case by (cases j) (auto split: if_splits)
qed

lemma str_contains_iff: "str_contains s pat \<longleftrightarrow> (\<exists>a b. s = a @ pat @ b)"
proof
  assume "str_contains s pat"
  then obtain i where "str_index s pat = Some i"
    by (auto simp: str_contains_def)
  then obtain b where "drop i s = pat @ b"
    using str_index_Some has_prefix_iff by blast
  then have "s = take i s @ pat @ b" by (metis append_take_drop_id)
  then show "\<exists>a b. s = a @ pat @ b" by blast
next
  assume "\<exists>a b. s = a @ pat @ b"
  then obtain a b where s: "s = a @ pat @ b" by blast
  then have "has_prefix (drop (length a) s) pat" by simp
  then show "str_contains s pat"
    using str_index_None [of s pat "length a"] by (auto simp: str_contains_def)
qed

lemma str_last_index_Some:
  "str_last_index s pat = Some i \<Longrightarrow> i \<le> length s \<and> has_prefix (drop i s) pat"
  by (induction s arbitrary: i)
     (auto simp: has_prefix_def split: if_splits option.splits)

text \<open>\<open>strings.TrimSpace\<close>, \<open>strings.ToLower\<close> (on ASCII) and \<open>strings.Split\<close> at one byte.\<close>

definition is_space :: "char \<Rightarrow> bool" where
  "is_space c \<longleftrightarrow> c \<in> {CHR '' '', CHR 0x09, CHR 0x0A, CHR 0x0B, CHR 0x0C, CHR 0x0D}"

definition trim_space :: "string \<Rightarrow> string" where
  "trim_space s = rev (dropWhile is_space (rev (dropWhile is_space s)))"

definition lower_char :: "char \<Rightarrow> char" where
  "lower_char c = (if CHR ''A'' \<le> c \<and> c \<le> CHR ''Z'' then char_of (of_char c + 32 :: nat) else c)"

definition to_lower :: "string \<Rightarrow> string" where
  "to_lower = map lower_char"

fun split_char :: "'a \<Rightarrow> 'a list \<Rightarrow> 'a list list" where
  "split_char d [] = [[]]"
| "split_char d (c # s) =
     (if c = d then [] # split_char d s
      else case split_char d s of [] \<Rightarrow> [[c]] | p # ps \<Rightarrow> (c # p) # ps)"

lemma split_char_ne [simp]: "split_char d s \<noteq> []"
  by (cases s) (auto split: list.splits)

text \<open>\<open>strconv.Itoa\<close>.\<close>

fun nat_digits :: "nat \<Rightarrow> string" where
  "nat_digits n =
     (if n < 10 then [char_of (48 + n)]
      else nat_digits (n div 10) @ [char_of (48 + n mod 10)])"

declare nat_digits.simps [simp del]

definition itoa :: "int \<Rightarrow> string" where
  "itoa i = (if i < 0 then CHR ''-'' # nat_digits (nat (- i)) else nat_digits (nat i))"

section \<open>Lists\<close>

lemma find_Some_split:
  "find P xs = Some x \<Longrightarrow> \<exists>ys zs. xs = ys @ x # zs \<and> P x \<and> (\<forall>y \<in> set ys. \<not> P y)"
proof (induction xs)
  case (Cons a xs)
  show ?case
  proof (cases "P a")
    case True
    with Cons.prems show ?thesis by (intro exI [of _ "[]"] exI [of _ xs]) auto
  next
    case False
    with Cons obtain ys zs where "xs = ys @ x # zs" "P x" "\<forall>y \<in> set ys. \<not> P y" by auto
    with False show ?thesis by (intro exI [of _ "a # ys"] exI [of _ zs]) auto
  qed
qed simp

lemma filter_upt_eq_Nil: "filter P [0..<n] = [] \<longleftrightarrow> (\<forall>i<n. \<not> P i)"
  by (auto simp: filter_empty_conv)

lemma sum_list_pos_int:
  assumes "xs \<noteq> []" "\<forall>x \<in> set xs. (0::int) < x"
  shows "0 < sum_list xs"
  using assms by (induction xs rule: list_nonempty_induct) auto

end
