(* ===== verification/Glob.thy ===== *)
theory Glob
  imports Prelude
begin

text \<open>
  Model-name globs. The router matches model names with \<open>path.Match\<close> of the Go standard
  library; this theory writes out its algorithm (\<open>scanChunk\<close>, \<open>matchChunk\<close>, \<open>getEsc\<close>
  and the main loop with its backtracking over one star) on strings whose runes are
  single bytes, and \<open>matchesAnyPattern\<close> of \<open>pkg/handler/system-lift.go\<close> on top of it.

  \<open>None\<close> stands for \<open>ErrBadPattern\<close>. The lemmas show that whether a pattern is
  malformed does not depend on the name it is matched against, which is what lets
  \<open>Config.Validate\<close> check a pattern against the empty name, and characterise the two
  shapes of pattern a configuration uses: a literal name and a literal prefix before a
  star.
\<close>

section \<open>The matcher\<close>

definition backslash :: char where "backslash = CHR 0x5C"

text \<open>\<open>getEsc\<close>: one possibly escaped character of a class; it must not be the last one.\<close>

definition get_esc :: "string \<Rightarrow> (char \<times> string) option" where
  "get_esc chunk =
     (if chunk = [] \<or> hd chunk = CHR ''-'' \<or> hd chunk = CHR '']'' then None
      else
        (let chunk' = (if hd chunk = backslash then tl chunk else chunk)
         in if chunk' = [] then None
            else if tl chunk' = [] then None
            else Some (hd chunk', tl chunk')))"

lemma get_esc_Some:
  "get_esc chunk = Some (r, rest) \<Longrightarrow> length rest < length chunk \<and> rest \<noteq> []"
  by (cases chunk) (auto simp: get_esc_def Let_def split: if_splits)

text \<open>The loop of \<open>matchChunk\<close> over the ranges of a character class.\<close>

function match_ranges :: "char \<Rightarrow> nat \<Rightarrow> bool \<Rightarrow> string \<Rightarrow> (bool \<times> string) option" where
  "match_ranges r nrange m chunk =
     (if chunk \<noteq> [] \<and> hd chunk = CHR '']'' \<and> 0 < nrange then Some (m, tl chunk)
      else case get_esc chunk of
        None \<Rightarrow> None
      | Some (lo, chunk1) \<Rightarrow>
          (if hd chunk1 = CHR ''-'' then
             (case get_esc (tl chunk1) of
                None \<Rightarrow> None
              | Some (hi, chunk2) \<Rightarrow>
                  match_ranges r (Suc nrange) (m \<or> lo \<le> r \<and> r \<le> hi) chunk2)
           else match_ranges r (Suc nrange) (m \<or> lo = r) chunk1))"
  by pat_completeness auto
termination
  by (relation "measure (\<lambda>(r, nrange, m, chunk). length chunk)")
     (force dest: get_esc_Some)+

declare match_ranges.simps [simp del]

lemma match_ranges_length:
  "match_ranges r n m chunk = Some (m', rest) \<Longrightarrow> length rest < length chunk"
proof (induction r n m chunk rule: match_ranges.induct)
  case (1 r n m chunk)
  show ?case
  proof (cases "chunk \<noteq> [] \<and> hd chunk = CHR '']'' \<and> 0 < n")
    case True
    with "1.prems" show ?thesis by (auto simp: match_ranges.simps [of r n m chunk])
  next
    case False
    with "1.prems" obtain lo chunk1 where g: "get_esc chunk = Some (lo, chunk1)"
      by (auto simp: match_ranges.simps [of r n m chunk] split: option.splits)
    have l1: "length chunk1 < length chunk" using get_esc_Some [OF g] by simp
    show ?thesis
    proof (cases "hd chunk1 = CHR ''-''")
      case True
      with "1.prems" False g obtain hi chunk2 where g2: "get_esc (tl chunk1) = Some (hi, chunk2)"
        by (auto simp: match_ranges.simps [of r n m chunk] split: option.splits)
      with "1.prems" False g True
      have "match_ranges r (Suc n) (m \<or> lo \<le> r \<and> r \<le> hi) chunk2 = Some (m', rest)"
        by (auto simp: match_ranges.simps [of r n m chunk])
      then have "length rest < length chunk2" using False g True g2 by (intro "1.IH"(1)) auto
      then show ?thesis using l1 get_esc_Some [OF g2] by auto
    next
      case nd: False
      with "1.prems" False g
      have "match_ranges r (Suc n) (m \<or> lo = r) chunk1 = Some (m', rest)"
        by (auto simp: match_ranges.simps [of r n m chunk])
      then have "length rest < length chunk1" using False g nd by (intro "1.IH"(2)) auto
      then show ?thesis using l1 by simp
    qed
  qed
qed

text \<open>
  \<open>matchChunk\<close>: \<open>None\<close> is \<open>ErrBadPattern\<close>, \<open>Some None\<close> no match, \<open>Some (Some t)\<close> a
  match that leaves \<open>t\<close>. The flag \<open>failed\<close> keeps checking the chunk's syntax after
  the match has failed.
\<close>

function match_chunk_loop :: "bool \<Rightarrow> string \<Rightarrow> string \<Rightarrow> string option option" where
  "match_chunk_loop failed chunk s =
     (case chunk of
        [] \<Rightarrow> Some (if failed then None else Some s)
      | c # chunk1 \<Rightarrow>
          (let failed1 = (failed \<or> s = [])
           in if c = CHR ''['' then
                (let r = (if failed1 then CHR 0x00 else hd s);
                     s1 = (if failed1 then s else tl s);
                     negated = (chunk1 \<noteq> [] \<and> hd chunk1 = CHR ''^'');
                     chunk2 = (if negated then tl chunk1 else chunk1)
                 in case match_ranges r 0 False chunk2 of
                      None \<Rightarrow> None
                    | Some (m, chunk3) \<Rightarrow>
                        match_chunk_loop (failed1 \<or> m = negated) chunk3 s1)
              else if c = CHR ''?'' then
                match_chunk_loop (failed1 \<or> hd s = CHR ''/'') chunk1
                  (if failed1 then s else tl s)
              else if c = backslash then
                (case chunk1 of
                   [] \<Rightarrow> None
                 | d # chunk2 \<Rightarrow>
                     match_chunk_loop (failed1 \<or> d \<noteq> hd s) chunk2
                       (if failed1 then s else tl s))
              else
                match_chunk_loop (failed1 \<or> c \<noteq> hd s) chunk1
                  (if failed1 then s else tl s)))"
  by pat_completeness auto
termination
proof (relation "measure (\<lambda>(failed, chunk, s). length chunk)", goal_cases)
  case (2 failed chunk s c chunk1 failed1 r s1 negated chunk2 p m chunk3)
  then have "length chunk3 < length chunk2" by (auto dest: match_ranges_length)
  moreover have "length chunk2 \<le> length chunk1" using 2 by auto
  ultimately show ?case using 2 by simp
qed auto

declare match_chunk_loop.simps [simp del]

text \<open>The equations of the loop by the first character of the chunk.\<close>

lemma match_chunk_loop_Nil: "match_chunk_loop f [] s = Some (if f then None else Some s)"
  by (simp add: match_chunk_loop.simps [of f "[]"])

lemma match_chunk_loop_any:
  "match_chunk_loop f (CHR ''?'' # chunk) s =
     match_chunk_loop (f \<or> s = [] \<or> hd s = CHR ''/'') chunk (if f \<or> s = [] then s else tl s)"
  by (subst match_chunk_loop.simps) (simp add: Let_def)

lemma match_chunk_loop_esc:
  "match_chunk_loop f (backslash # chunk) s =
     (case chunk of [] \<Rightarrow> None
      | d # chunk2 \<Rightarrow>
          match_chunk_loop (f \<or> s = [] \<or> d \<noteq> hd s) chunk2 (if f \<or> s = [] then s else tl s))"
  by (subst match_chunk_loop.simps) (simp add: backslash_def Let_def split: list.split)

lemma match_chunk_loop_char:
  "c \<noteq> CHR ''['' \<Longrightarrow> c \<noteq> CHR ''?'' \<Longrightarrow> c \<noteq> backslash \<Longrightarrow>
   match_chunk_loop f (c # chunk) s =
     match_chunk_loop (f \<or> s = [] \<or> c \<noteq> hd s) chunk (if f \<or> s = [] then s else tl s)"
  by (subst match_chunk_loop.simps) (simp add: Let_def)

lemma match_chunk_loop_class:
  "match_chunk_loop f (CHR ''['' # chunk1) s =
     (let failed1 = (f \<or> s = []);
          r = (if failed1 then CHR 0x00 else hd s);
          s1 = (if failed1 then s else tl s);
          negated = (chunk1 \<noteq> [] \<and> hd chunk1 = CHR ''^'');
          chunk2 = (if negated then tl chunk1 else chunk1)
      in case match_ranges r 0 False chunk2 of
           None \<Rightarrow> None
         | Some (m, chunk3) \<Rightarrow> match_chunk_loop (failed1 \<or> m = negated) chunk3 s1)"
  by (subst match_chunk_loop.simps) (simp add: Let_def)

lemmas match_chunk_loop_eqs =
  match_chunk_loop_Nil match_chunk_loop_any match_chunk_loop_esc match_chunk_loop_char

definition match_chunk :: "string \<Rightarrow> string \<Rightarrow> string option option" where
  "match_chunk chunk s = match_chunk_loop False chunk s"

text \<open>\<open>scanChunk\<close>: leading stars, then the text up to the next star outside a class.\<close>

fun scan_body :: "bool \<Rightarrow> string \<Rightarrow> string \<times> string" where
  "scan_body inrange [] = ([], [])"
| "scan_body inrange (c # p) =
     (if c = backslash then
        (case p of
           [] \<Rightarrow> ([c], [])
         | d # q \<Rightarrow> (let (a, b) = scan_body inrange q in (c # d # a, b)))
      else if c = CHR ''*'' \<and> \<not> inrange then ([], c # p)
      else
        (let (a, b) = scan_body (if c = CHR ''['' then True
                                 else if c = CHR '']'' then False else inrange) p
         in (c # a, b)))"

definition scan_chunk :: "string \<Rightarrow> bool \<times> string \<times> string" where
  "scan_chunk pattern =
     (let p = dropWhile (\<lambda>c. c = CHR ''*'') pattern;
          (chunk, rest) = scan_body False p
      in (p \<noteq> pattern, chunk, rest))"

lemma scan_body_append: "fst (scan_body inr p) @ snd (scan_body inr p) = p"
  by (induction inr p rule: scan_body.induct)
     (auto simp: case_prod_unfold Let_def split: list.splits)

lemma scan_body_nonempty:
  "p \<noteq> [] \<Longrightarrow> hd p \<noteq> CHR ''*'' \<Longrightarrow> fst (scan_body False p) \<noteq> []"
  by (cases p) (auto simp: case_prod_unfold Let_def split: list.splits)

lemma scan_chunk_shorter:
  assumes "pattern \<noteq> []"
  shows "length (snd (snd (scan_chunk pattern))) < length pattern"
proof -
  define p where "p = dropWhile (\<lambda>c. c = CHR ''*'') pattern"
  have le: "length p \<le> length pattern" by (simp add: p_def length_dropWhile_le)
  have split: "length (fst (scan_body False p)) + length (snd (scan_body False p)) = length p"
    by (metis scan_body_append length_append)
  show ?thesis
  proof (cases "p = []")
    case True
    then show ?thesis
      using assms by (simp add: scan_chunk_def p_def [symmetric] Let_def case_prod_unfold)
  next
    case False
    then have "hd p \<noteq> CHR ''*''"
      unfolding p_def by (rule hd_dropWhile)
    with False have "fst (scan_body False p) \<noteq> []" by (rule scan_body_nonempty)
    then have "0 < length (fst (scan_body False p))" by simp
    with split le have "length (snd (scan_body False p)) < length pattern" by linarith
    then show ?thesis
      by (simp add: scan_chunk_def p_def [symmetric] Let_def case_prod_unfold)
  qed
qed

text \<open>The search of the main loop for a position after a star; a slash stops it.\<close>

fun star_skip :: "string \<Rightarrow> bool \<Rightarrow> string \<Rightarrow> string option option" where
  "star_skip chunk is_last [] = Some None"
| "star_skip chunk is_last (c # name) =
     (if c = CHR ''/'' then Some None
      else case match_chunk chunk name of
        None \<Rightarrow> None
      | Some None \<Rightarrow> star_skip chunk is_last name
      | Some (Some t) \<Rightarrow>
          (if is_last \<and> t \<noteq> [] then star_skip chunk is_last name else Some (Some t)))"

text \<open>The syntax check of the remaining chunks before a mismatch is reported.\<close>

function rest_ok :: "string \<Rightarrow> bool" where
  "rest_ok pattern =
     (if pattern = [] then True
      else match_chunk (fst (snd (scan_chunk pattern))) [] \<noteq> None
           \<and> rest_ok (snd (snd (scan_chunk pattern))))"
  by pat_completeness auto
termination
  by (relation "measure length") (simp_all add: scan_chunk_shorter)

declare rest_ok.simps [simp del]

function path_match :: "string \<Rightarrow> string \<Rightarrow> bool option" where
  "path_match pattern name =
     (if pattern = [] then Some (name = [])
      else
        (let (star, chunk, rest) = scan_chunk pattern
         in if star \<and> chunk = [] then Some (CHR ''/'' \<notin> set name)
            else
              (case match_chunk chunk name of
                 None \<Rightarrow> None
               | Some mt \<Rightarrow>
                   (case (case mt of
                            Some t \<Rightarrow> (if t = [] \<or> rest \<noteq> [] then Some (Some t)
                                       else if star then star_skip chunk (rest = []) name
                                       else Some None)
                          | None \<Rightarrow> (if star then star_skip chunk (rest = []) name else Some None)) of
                      None \<Rightarrow> None
                    | Some (Some t) \<Rightarrow> path_match rest t
                    | Some None \<Rightarrow> (if rest_ok rest then Some False else None)))))"
  by pat_completeness auto
termination
proof (relation "measure (\<lambda>(pattern, name). length pattern)", goal_cases)
  case (2 pattern name x star y chunk rest mt st t)
  then have "snd (snd (scan_chunk pattern)) = rest" by (metis snd_conv)
  with 2 show ?case using scan_chunk_shorter [of pattern] by auto
qed simp

declare path_match.simps [simp del]

text \<open>\<open>matchesAnyPattern\<close> ignores the error of a malformed pattern.\<close>

fun matchesAnyPattern :: "string list \<Rightarrow> string \<Rightarrow> bool" where
  "matchesAnyPattern [] model = False"
| "matchesAnyPattern (pattern # patterns) model =
     (if path_match pattern model = Some True then True
      else matchesAnyPattern patterns model)"

section \<open>Malformed patterns\<close>

text \<open>A class consumes the same text of the pattern whatever character it is tested on.\<close>

lemma match_ranges_rest:
  "map_option snd (match_ranges r n m chunk) = map_option snd (match_ranges r' n m' chunk)"
proof (induction r n m chunk arbitrary: m' rule: match_ranges.induct)
  case (1 r n m chunk)
  note unf = match_ranges.simps [of r n m chunk] match_ranges.simps [of r' n m' chunk]
  show ?case
  proof (cases "chunk \<noteq> [] \<and> hd chunk = CHR '']'' \<and> 0 < n")
    case True
    then show ?thesis by (simp add: unf)
  next
    case nd: False
    show ?thesis
    proof (cases "get_esc chunk")
      case None
      with nd show ?thesis by (auto simp: unf)
    next
      case (Some p)
      obtain lo chunk1 where p: "p = (lo, chunk1)" by (cases p)
      note g = Some [unfolded p]
      show ?thesis
      proof (cases "hd chunk1 = CHR ''-''")
        case True
        then show ?thesis
          using nd g "1.IH"(1) [OF nd g refl True]
          by (cases "get_esc (tl chunk1)") (auto simp: unf)
      next
        case False
        have "map_option snd (match_ranges r (Suc n) (m \<or> lo = r) chunk1) =
              map_option snd (match_ranges r' (Suc n) (m' \<or> lo = r') chunk1)"
          by (rule "1.IH"(2) [OF nd g refl False])
        then show ?thesis using nd g False by (simp only: unf) auto
      qed
    qed
  qed
qed

lemma match_ranges_None_cong:
  "match_ranges r n m chunk = None \<longleftrightarrow> match_ranges r' n m' chunk = None"
  using match_ranges_rest [of r n m chunk r' m'] by (metis map_option_is_None)

lemma match_ranges_Some_cong:
  assumes "match_ranges r n m chunk = Some (b, rest)"
  shows "\<exists>b'. match_ranges r' n m' chunk = Some (b', rest)"
proof -
  have "map_option snd (match_ranges r' n m' chunk) = Some rest"
    by (subst match_ranges_rest [of r' n m' chunk r m]) (simp add: assms)
  then show ?thesis by (metis map_option_eq_Some prod.collapse)
qed

text \<open>
  One iteration of \<open>matchChunk\<close> either finds the pattern malformed for every input, or
  goes on with a part of the chunk that does not depend on the input.
\<close>

lemma match_chunk_loop_class_shape:
  "(\<forall>f s. match_chunk_loop f (CHR ''['' # chunk) s = None) \<or>
   (\<exists>rest. length rest \<le> length chunk \<and>
      (\<forall>f s. \<exists>f1 s1. match_chunk_loop f (CHR ''['' # chunk) s = match_chunk_loop f1 rest s1))"
proof -
  define neg where "neg = (chunk \<noteq> [] \<and> hd chunk = CHR ''^'')"
  define chunk2 where "chunk2 = (if neg then tl chunk else chunk)"
  have le2: "length chunk2 \<le> length chunk" by (simp add: chunk2_def)
  have unf: "match_chunk_loop f (CHR ''['' # chunk) s =
     (case match_ranges (if f \<or> s = [] then CHR 0x00 else hd s) 0 False chunk2 of
        None \<Rightarrow> None
      | Some (m, chunk3) \<Rightarrow>
          match_chunk_loop ((f \<or> s = []) \<or> m = neg) chunk3 (if f \<or> s = [] then s else tl s))"
    for f s
    by (simp only: match_chunk_loop_class Let_def neg_def chunk2_def)
  show ?thesis
  proof (cases "match_ranges (CHR 0x00) 0 False chunk2")
    case None
    then have "match_ranges r 0 False chunk2 = None" for r
      using match_ranges_None_cong by blast
    then have "\<forall>f s. match_chunk_loop f (CHR ''['' # chunk) s = None" by (simp add: unf)
    then show ?thesis by blast
  next
    case (Some mr)
    obtain b rest where mr: "mr = (b, rest)" by (cases mr)
    have ex: "\<exists>b'. match_ranges r 0 False chunk2 = Some (b', rest)" for r
      using match_ranges_Some_cong Some mr by blast
    have "length rest \<le> length chunk"
      using match_ranges_length [of "CHR 0x00" 0 False chunk2 b rest] Some mr le2 by simp
    moreover have "\<exists>f1 s1. match_chunk_loop f (CHR ''['' # chunk) s = match_chunk_loop f1 rest s1"
      for f s
      using ex [of "if f \<or> s = [] then CHR 0x00 else hd s"] unf [of f s] by fastforce
    ultimately show ?thesis by blast
  qed
qed

lemma match_chunk_loop_shape:
  "(\<forall>f s. match_chunk_loop f (c # chunk) s = None) \<or>
   (\<exists>rest. length rest \<le> length chunk \<and>
      (\<forall>f s. \<exists>f1 s1. match_chunk_loop f (c # chunk) s = match_chunk_loop f1 rest s1))"
proof -
  consider "c = CHR ''[''" | "c = CHR ''?''" | "c = backslash"
    | "c \<noteq> CHR ''['' \<and> c \<noteq> CHR ''?'' \<and> c \<noteq> backslash" by blast
  then show ?thesis
  proof cases
    case 1
    then show ?thesis using match_chunk_loop_class_shape by simp
  next
    case 2
    then show ?thesis by (metis match_chunk_loop_any order_refl)
  next
    case 3
    then show ?thesis
    proof (cases chunk)
      case (Cons d chunk2)
      then have "\<exists>f1 s1. match_chunk_loop f (c # chunk) s = match_chunk_loop f1 chunk2 s1" for f s
        using 3 by (simp only: match_chunk_loop_esc list.case) blast
      moreover have "length chunk2 \<le> length chunk" using Cons by simp
      ultimately show ?thesis by blast
    qed (simp add: match_chunk_loop_esc)
  next
    case 4
    then show ?thesis by (metis match_chunk_loop_char order_refl)
  qed
qed

lemma match_chunk_loop_None_cong:
  "match_chunk_loop f chunk s = None \<longleftrightarrow> match_chunk_loop f' chunk s' = None"
proof (induction chunk arbitrary: f s f' s' rule: length_induct)
  case (1 chunk)
  show ?case
  proof (cases chunk)
    case Nil
    then show ?thesis by (simp add: match_chunk_loop_Nil)
  next
    case (Cons c chunk1)
    from match_chunk_loop_shape [of c chunk1] show ?thesis
    proof
      assume "\<forall>f s. match_chunk_loop f (c # chunk1) s = None"
      then show ?thesis using Cons by simp
    next
      assume "\<exists>rest. length rest \<le> length chunk1 \<and>
        (\<forall>f s. \<exists>f1 s1. match_chunk_loop f (c # chunk1) s = match_chunk_loop f1 rest s1)"
      then obtain rest where le: "length rest \<le> length chunk1"
        and ex: "\<And>f s. \<exists>f1 s1. match_chunk_loop f chunk s = match_chunk_loop f1 rest s1"
        using Cons by blast
      have "length rest < length chunk" using le Cons by simp
      with 1 have "\<And>f s f' s'. match_chunk_loop f rest s = None \<longleftrightarrow> match_chunk_loop f' rest s' = None"
        by blast
      then show ?thesis using ex [of f s] ex [of f' s'] by metis
    qed
  qed
qed

lemma match_chunk_None_cong: "match_chunk chunk s = None \<longleftrightarrow> match_chunk chunk s' = None"
  unfolding match_chunk_def by (rule match_chunk_loop_None_cong)

lemma star_skip_not_None:
  "match_chunk chunk s \<noteq> None \<Longrightarrow> star_skip chunk is_last name \<noteq> None"
proof (induction name)
  case (Cons c name)
  have "match_chunk chunk name \<noteq> None"
    using Cons.prems match_chunk_None_cong [of chunk name s] by simp
  with Cons show ?case by (auto split: option.split)
qed simp

text \<open>
  Whether \<open>path.Match\<close> reports a malformed pattern is a property of the pattern alone.
\<close>

lemma path_match_None_iff: "path_match pattern name = None \<longleftrightarrow> \<not> rest_ok pattern"
proof (induction pattern name rule: path_match.induct)
  case (1 pattern name)
  obtain star chunk rest where sc: "scan_chunk pattern = (star, chunk, rest)"
    by (cases "scan_chunk pattern") auto
  show ?case
  proof (cases "pattern = []")
    case True
    then show ?thesis by (simp add: path_match.simps rest_ok.simps)
  next
    case ne: False
    show ?thesis
    proof (cases "star \<and> chunk = []")
      case True
      have "rest = []"
      proof (rule ccontr)
        assume "rest \<noteq> []"
        define p where "p = dropWhile (\<lambda>c. c = CHR ''*'') pattern"
        have sb: "scan_body False p = ([], rest)"
          using sc True by (auto simp: scan_chunk_def p_def [symmetric] Let_def split: prod.splits)
        then have "p = rest" using scan_body_append [of False p] by simp
        with \<open>rest \<noteq> []\<close> have "p \<noteq> []" by simp
        moreover from this have "hd p \<noteq> CHR ''*''" unfolding p_def by (rule hd_dropWhile)
        ultimately show False using scan_body_nonempty [of p] sb by simp
      qed
      then show ?thesis
        using ne sc True
        by (simp add: path_match.simps [of pattern] rest_ok.simps [of pattern]
            rest_ok.simps [of "[]"] match_chunk_def match_chunk_loop_eqs)
    next
      case nstar: False
      show ?thesis
      proof (cases "match_chunk chunk name")
        case None
        then have "match_chunk chunk [] = None" using match_chunk_None_cong by blast
        then show ?thesis
          using None ne sc nstar
          by (simp add: path_match.simps [of pattern] rest_ok.simps [of pattern])
      next
        case (Some mt)
        then have ok: "match_chunk chunk [] \<noteq> None"
          using match_chunk_None_cong [of chunk name "[]"] by simp
        let ?st = "case mt of
                     Some t \<Rightarrow> (if t = [] \<or> rest \<noteq> [] then Some (Some t)
                                else if star then star_skip chunk (rest = []) name
                                else Some None)
                   | None \<Rightarrow> (if star then star_skip chunk (rest = []) name else Some None)"
        have "?st \<noteq> None"
          using star_skip_not_None [OF ok] by (auto split: option.splits)
        then obtain st where st: "?st = Some st" by blast
        have rec: "rest_ok pattern \<longleftrightarrow> rest_ok rest"
          using ne sc ok by (simp add: rest_ok.simps [of pattern])
        have unf: "path_match pattern name =
            (case st of Some t \<Rightarrow> path_match rest t
             | None \<Rightarrow> if rest_ok rest then Some False else None)"
          using ne sc nstar Some st
          by (simp add: path_match.simps [of pattern] split: option.split) blast
        show ?thesis
        proof (cases st)
          case None
          then show ?thesis using unf rec by simp
        next
          case (Some t)
          have "path_match rest t = None \<longleftrightarrow> \<not> rest_ok rest"
            using "1.IH" [OF ne sc [symmetric] refl refl nstar \<open>match_chunk chunk name = Some mt\<close>]
              st Some by blast
          then show ?thesis using unf rec Some by simp
        qed
      qed
    qed
  qed
qed

section \<open>Literal names and prefixes\<close>

definition glob_meta :: "char set" where
  "glob_meta = {CHR ''*'', CHR ''?'', CHR ''['', CHR '']'', backslash}"

abbreviation literal :: "string \<Rightarrow> bool" where
  "literal p \<equiv> set p \<inter> glob_meta = {}"

lemma scan_body_literal:
  "literal p \<Longrightarrow> scan_body False (p @ CHR ''*'' # q) = (p, CHR ''*'' # q)"
  by (induction p) (auto simp: glob_meta_def backslash_def)

lemma scan_body_literal_end: "literal p \<Longrightarrow> scan_body False p = (p, [])"
  by (induction p) (auto simp: glob_meta_def backslash_def)

lemma match_chunk_loop_failed_literal:
  "literal p \<Longrightarrow> match_chunk_loop True p s = Some None"
  by (induction p arbitrary: s)
     (auto simp: match_chunk_loop_eqs glob_meta_def)

lemma match_chunk_literal:
  "literal p \<Longrightarrow>
   match_chunk p s = Some (if has_prefix s p then Some (drop (length p) s) else None)"
proof (induction p arbitrary: s)
  case Nil
  then show ?case by (simp add: match_chunk_def match_chunk_loop_eqs has_prefix_def)
next
  case (Cons c p)
  have c: "c \<notin> glob_meta" and p: "literal p" using Cons.prems by auto
  have step: "match_chunk_loop False (c # p) s =
      match_chunk_loop (s = [] \<or> c \<noteq> hd s) p (if s = [] then s else tl s)"
    using c by (auto simp: match_chunk_loop_eqs glob_meta_def)
  show ?case
  proof (cases "s \<noteq> [] \<and> hd s = c")
    case True
    then have "match_chunk (c # p) s = match_chunk p (tl s)"
      using step by (auto simp: match_chunk_def)
    then show ?thesis
      using Cons.IH [OF p, of "tl s"] True by (cases s) (auto simp: has_prefix_def)
  next
    case False
    then have "match_chunk (c # p) s = Some None"
      using step match_chunk_loop_failed_literal [OF p] by (auto simp: match_chunk_def)
    then show ?thesis using False by (cases s) (auto simp: has_prefix_def)
  qed
qed

lemma literal_hd: "literal p \<Longrightarrow> p \<noteq> [] \<Longrightarrow> hd p \<noteq> CHR ''*''"
  by (cases p) (auto simp: glob_meta_def)

lemma scan_chunk_literal: "literal p \<Longrightarrow> scan_chunk p = (False, p, [])"
  by (cases p) (auto simp: scan_chunk_def scan_body_literal_end glob_meta_def backslash_def Let_def)

lemma path_match_literal: "literal p \<Longrightarrow> path_match p name = Some (name = p)"
  by (auto simp: path_match.simps [of p] path_match.simps [of "[]"] scan_chunk_literal
        match_chunk_literal rest_ok.simps has_prefix_iff)

lemma path_match_star: "path_match ''*'' name = Some (CHR ''/'' \<notin> set name)"
  by (simp add: path_match.simps [of "''*''"] scan_chunk_def)

lemma path_match_prefix:
  assumes "literal p"
  shows "path_match (p @ ''*'') name =
         Some (\<exists>r. name = p @ r \<and> CHR ''/'' \<notin> set r)"
proof (cases "p = []")
  case True
  then show ?thesis by (simp add: path_match_star)
next
  case False
  then have "dropWhile (\<lambda>c. c = CHR ''*'') (p @ ''*'') = p @ ''*''"
    using literal_hd [OF assms] by (cases p) auto
  then have sc: "scan_chunk (p @ ''*'') = (False, p, ''*'')"
    using scan_body_literal [OF assms, of "[]"] by (simp add: scan_chunk_def)
  have "rest_ok ''*''"
    using path_match_None_iff [of "''*''" "[]"] by (simp add: path_match_star)
  then show ?thesis
    using sc match_chunk_literal [OF assms, of name] path_match_star
    by (auto simp: path_match.simps [of "p @ ''*''"] has_prefix_iff)
qed

lemma matchesAnyPattern_iff:
  "matchesAnyPattern patterns model \<longleftrightarrow> (\<exists>p \<in> set patterns. path_match p model = Some True)"
  by (induction patterns) auto

end
