(* ===== verification/Config.thy ===== *)
theory Config
  imports Glob
begin

text \<open>
  The configuration of \<open>pkg/config.go\<close>: its data, \<open>UnmarshalYAML\<close>'s record of the
  declaration order, \<open>Days.UnmarshalText\<close>, the eligibility predicates of windows and
  weekday sets, \<open>normalizeUpstreams\<close>, \<open>Validate\<close> and its parts,
  \<open>AllowedApiKeySet\<close>, \<open>UpstreamList\<close> and \<open>UpstreamHostKey\<close>.

  A Go map is an association list whose order is the iteration order of that run; the
  source ranges over these maps, so every function below is defined for every order.
  The flag \<open>cancelled\<close> of a function is whether its context is cancelled while it runs.

  \<open>libtime.TimeOfDay\<close>, \<open>libtime.Weekdays\<close> and the time zone database are not part of
  the repository: their operations are the fields of the parameter record \<open>time_api\<close>,
  polymorphic in the type of a time of day.
\<close>

section \<open>Data\<close>

datatype weekday = Sunday | Monday | Tuesday | Wednesday | Thursday | Friday | Saturday

record 't time_api =
  tod_Equal :: "'t \<Rightarrow> 't \<Rightarrow> bool"
  tod_Before :: "'t \<Rightarrow> 't \<Rightarrow> bool"
  tod_After :: "'t \<Rightarrow> 't \<Rightarrow> bool"
  tod_Location :: "'t \<Rightarrow> string option"
  tod_zero :: 't
  tod_In :: "string \<Rightarrow> time \<Rightarrow> 't"
  weekday_In :: "string \<Rightarrow> time \<Rightarrow> weekday"
  weekdays_Contains :: "weekday list \<Rightarrow> weekday \<Rightarrow> bool"

record 't window =
  win_From :: 't
  win_Until :: 't

record days =
  days_Weekdays :: "weekday list"
  days_Location :: "string option"

record 't upstream =
  up_Upstream :: string
  up_Token :: string
  up_Weight :: int
  up_MaxConcurrentRequests :: int
  up_MaxConcurrentWaitSeconds :: int
  up_Window :: "'t window option"
  up_Days :: "days option"

record host_limit =
  hl_MaxConcurrentRequests :: int
  hl_MaxConcurrentWaitSeconds :: int

record 't provider =
  prov_Upstream :: string
  prov_Token :: string
  prov_Models :: "string list"
  prov_RequiresLeadingSystem :: "string list"
  prov_AllowedApiKeys :: "string list"
  prov_MaxConcurrentRequests :: int
  prov_MaxConcurrentWaitSeconds :: int
  prov_Upstreams :: "'t upstream list"
  prov_Window :: "'t window option"
  prov_Days :: "days option"
  prov_Throttle429Threshold :: int
  prov_ThrottleMaxDelaySeconds :: int
  prov_ColdPrefillBudgetTokens :: int
  prov_ColdSessionWindowSeconds :: int
  prov_NewSessionRatePerMinute :: int
  prov_TtftBackpressureThresholdSeconds :: int
  prov_BreakerFailureThreshold :: int

record model_pool_member =
  mpm_Provider :: string
  mpm_Model :: string
  mpm_Weight :: int
  mpm_Overflow :: bool

record 't config =
  cfg_DefaultProvider :: string
  cfg_Providers :: "(string \<times> 't provider) list"
  cfg_DefaultToken :: string
  cfg_Aliases :: "(string \<times> string) list"
  cfg_ModelPools :: "(string \<times> model_pool_member list) list"
  cfg_Trace :: bool
  cfg_Auth :: "string option"
  cfg_AllowedApiKeys :: "string list"
  cfg_UpstreamHostLimits :: "(string \<times> host_limit) list"
  cfg_ProviderOrder :: "string list"

datatype config_error =
    ContextDone
  | BothUpstreamForms string
  | WindowWithUpstreams string
  | DaysWithUpstreams string
  | LegacyAuth
  | NoProviders
  | DefaultProviderRequired
  | DefaultProviderNotFound string
  | UpstreamRequired string
  | NegativeUpstreamWeight string int
  | WindowFromRequired string
  | WindowUntilRequired string
  | DaysWithoutLocation string
  | InvalidModelGlob string string
  | InvalidLeadingSystemGlob string string
  | KeyClaimedTwice string string string
  | EmptyModelPool string
  | PoolUnknownProvider string string
  | NegativePoolWeight string int
  | PoolDuplicateMember string string string
  | AliasCollides string
  | DaysEmptyValue
  | DaysEmptyName
  | DaysUnknownName string

section \<open>Decoding\<close>

text \<open>
  The declaration order of the providers, read off the decoded YAML node tree
  (\<open>UnmarshalYAML\<close>; \<open>yaml.Node\<close> with the fields the source reads).
\<close>

datatype yaml_kind = DocumentNode | MappingNode | OtherNode
datatype yaml_node = YamlNode (yKind: yaml_kind) (yValue: string) (yContent: "yaml_node list")

fun mapping_keys :: "yaml_node list \<Rightarrow> string list" where
  "mapping_keys (k # v # rest) = yValue k # mapping_keys rest"
| "mapping_keys _ = []"

fun order_in :: "yaml_node list \<Rightarrow> string list" where
  "order_in (k # v # rest) =
     (if yValue k \<noteq> ''providers'' then order_in rest
      else if yKind v \<noteq> MappingNode then order_in rest
      else mapping_keys (yContent v))"
| "order_in _ = []"

definition UnmarshalYAML_order :: "yaml_node \<Rightarrow> string list" where
  "UnmarshalYAML_order value =
     (let doc = (if yKind value = DocumentNode \<and> yContent value \<noteq> []
                 then hd (yContent value) else value)
      in if yKind doc \<noteq> MappingNode then [] else order_in (yContent doc))"

definition weekdayNames :: "(string \<times> weekday) list" where
  "weekdayNames =
     [(''sunday'', Sunday), (''monday'', Monday), (''tuesday'', Tuesday),
      (''wednesday'', Wednesday), (''thursday'', Thursday), (''friday'', Friday),
      (''saturday'', Saturday)]"

text \<open>\<open>strings.LastIndexAny(value, " \t")\<close>, as the text before and after that byte.\<close>

fun split_last_blank :: "string \<Rightarrow> (string \<times> string) option" where
  "split_last_blank [] = None"
| "split_last_blank (c # s) =
     (case split_last_blank s of
        Some (a, b) \<Rightarrow> Some (c # a, b)
      | None \<Rightarrow> if c = CHR '' '' \<or> c = CHR 0x09 then Some ([], s) else None)"

fun parse_weekdays :: "string list \<Rightarrow> config_error + weekday list" where
  "parse_weekdays [] = Inr []"
| "parse_weekdays (part # parts) =
     (let name = trim_space part
      in if name = [] then Inl DaysEmptyName
         else case map_of weekdayNames name of
           None \<Rightarrow> Inl (DaysUnknownName name)
         | Some wd \<Rightarrow>
             (case parse_weekdays parts of Inl e \<Rightarrow> Inl e | Inr wds \<Rightarrow> Inr (wd # wds)))"

definition Days_UnmarshalText :: "(string \<Rightarrow> string option) \<Rightarrow> string \<Rightarrow> config_error + days" where
  "Days_UnmarshalText load_location text =
     (let value = trim_space text
      in if value = [] then Inl DaysEmptyValue
         else
           (let (names, loc) =
                  (case split_last_blank value of
                     None \<Rightarrow> (value, None)
                   | Some (before, after) \<Rightarrow>
                       (case load_location (trim_space after) of
                          None \<Rightarrow> (value, None)
                        | Some l \<Rightarrow> (trim_space before, Some l)))
            in case parse_weekdays (split_char (CHR '','') names) of
                 Inl e \<Rightarrow> Inl e
               | Inr wds \<Rightarrow> Inr \<lparr>days_Weekdays = wds, days_Location = loc\<rparr>))"

section \<open>Eligibility of windows and weekday sets\<close>

definition utc :: string where "utc = ''UTC''"

definition or_else :: "'a option \<Rightarrow> 'a option \<Rightarrow> 'a option" where
  "or_else a b = (case a of Some x \<Rightarrow> Some x | None \<Rightarrow> b)"

definition Window_Contains :: "'t time_api \<Rightarrow> 't window \<Rightarrow> time \<Rightarrow> bool" where
  "Window_Contains api w now =
     (let loc = (case or_else (tod_Location api (win_From w)) (tod_Location api (win_Until w)) of
                   Some l \<Rightarrow> l | None \<Rightarrow> utc);
          tod = tod_In api loc now
      in if tod_Equal api (win_From w) (win_Until w) then False
         else if tod_Before api (win_From w) (win_Until w) then
           (tod_Equal api tod (win_From w) \<or> tod_After api tod (win_From w))
             \<and> tod_Before api tod (win_Until w)
         else
           tod_Equal api tod (win_From w) \<or> tod_After api tod (win_From w)
             \<or> tod_Before api tod (win_Until w))"

definition Days_Contains :: "'t time_api \<Rightarrow> days \<Rightarrow> time \<Rightarrow> 't window option \<Rightarrow> bool" where
  "Days_Contains api d now window =
     (let loc0 = days_Location d;
          loc1 = (case window of None \<Rightarrow> loc0
                  | Some w \<Rightarrow> or_else loc0 (tod_Location api (win_From w)));
          loc2 = (case window of None \<Rightarrow> loc1
                  | Some w \<Rightarrow> or_else loc1 (tod_Location api (win_Until w)));
          loc = (case loc2 of Some l \<Rightarrow> l | None \<Rightarrow> utc)
      in weekdays_Contains api (days_Weekdays d) (weekday_In api loc now))"

section \<open>Upstreams\<close>

record url =
  url_Scheme :: string
  url_Hostname :: string
  url_Port :: string

definition JoinHostPort :: "string \<Rightarrow> string \<Rightarrow> string" where
  "JoinHostPort host port =
     (if CHR '':'' \<in> set host then ''['' @ host @ '']:'' @ port else host @ '':'' @ port)"

definition UpstreamHostKey :: "url \<Rightarrow> string" where
  "UpstreamHostKey u =
     (let host = to_lower (url_Hostname u); port = url_Port u
      in if port = [] then host
         else if port = ''80'' \<and> url_Scheme u = ''http'' then host
         else if port = ''443'' \<and> url_Scheme u = ''https'' then host
         else JoinHostPort host port)"

definition synthesized_upstream :: "'t provider \<Rightarrow> 't upstream" where
  "synthesized_upstream p =
     \<lparr>up_Upstream = prov_Upstream p, up_Token = prov_Token p, up_Weight = 1,
      up_MaxConcurrentRequests = prov_MaxConcurrentRequests p,
      up_MaxConcurrentWaitSeconds = prov_MaxConcurrentWaitSeconds p,
      up_Window = prov_Window p, up_Days = prov_Days p\<rparr>"

definition UpstreamList :: "'t provider \<Rightarrow> 't upstream list" where
  "UpstreamList p = (if prov_Upstreams p \<noteq> [] then prov_Upstreams p else [synthesized_upstream p])"

definition default_weight :: "'t upstream \<Rightarrow> 't upstream" where
  "default_weight up = (if up_Weight up = 0 then up\<lparr>up_Weight := 1\<rparr> else up)"

definition normalize_provider :: "string \<Rightarrow> 't provider \<Rightarrow> config_error + 't provider" where
  "normalize_provider name prov =
     (if prov_Upstream prov \<noteq> [] \<and> prov_Upstreams prov \<noteq> [] then Inl (BothUpstreamForms name)
      else if prov_Window prov \<noteq> None \<and> prov_Upstreams prov \<noteq> [] then Inl (WindowWithUpstreams name)
      else if prov_Days prov \<noteq> None \<and> prov_Upstreams prov \<noteq> [] then Inl (DaysWithUpstreams name)
      else
        (let ups = (if prov_Upstreams prov = [] then [synthesized_upstream prov]
                    else prov_Upstreams prov)
         in Inr (prov\<lparr>prov_Upstreams := map default_weight ups\<rparr>)))"

fun normalizeUpstreams ::
  "bool \<Rightarrow> (string \<times> 't provider) list \<Rightarrow> config_error + (string \<times> 't provider) list" where
  "normalizeUpstreams cancelled [] = Inr []"
| "normalizeUpstreams cancelled ((name, prov) # rest) =
     (if cancelled then Inl ContextDone
      else case normalize_provider name prov of
        Inl e \<Rightarrow> Inl e
      | Inr prov' \<Rightarrow>
          (case normalizeUpstreams cancelled rest of
             Inl e \<Rightarrow> Inl e
           | Inr rest' \<Rightarrow> Inr ((name, prov') # rest')))"

section \<open>Validation\<close>

definition validate_upstream :: "'t time_api \<Rightarrow> string \<Rightarrow> 't upstream \<Rightarrow> config_error option" where
  "validate_upstream api name up =
     (if up_Upstream up = [] then Some (UpstreamRequired name)
      else if up_Weight up < 0 then Some (NegativeUpstreamWeight name (up_Weight up))
      else if (case up_Window up of None \<Rightarrow> False | Some w \<Rightarrow> win_From w = tod_zero api)
        then Some (WindowFromRequired name)
      else if (case up_Window up of None \<Rightarrow> False | Some w \<Rightarrow> win_Until w = tod_zero api)
        then Some (WindowUntilRequired name)
      else if (case up_Days up of None \<Rightarrow> False | Some d \<Rightarrow> days_Location d = None)
              \<and> up_Window up = None
        then Some (DaysWithoutLocation name)
      else None)"

text \<open>A loop that polls the context and stops at the first element in error.\<close>

fun first_error :: "bool \<Rightarrow> ('a \<Rightarrow> config_error option) \<Rightarrow> 'a list \<Rightarrow> config_error option" where
  "first_error cancelled chk [] = None"
| "first_error cancelled chk (x # xs) =
     (if cancelled then Some ContextDone
      else case chk x of Some e \<Rightarrow> Some e | None \<Rightarrow> first_error cancelled chk xs)"

definition bad_glob :: "string \<Rightarrow> bool" where
  "bad_glob pattern \<longleftrightarrow> path_match pattern [] = None"

definition validate_provider ::
  "'t time_api \<Rightarrow> bool \<Rightarrow> string \<times> 't provider \<Rightarrow> config_error option" where
  "validate_provider api cancelled np =
     (let (name, prov) = np
      in case first_error cancelled (validate_upstream api name) (prov_Upstreams prov) of
           Some e \<Rightarrow> Some e
         | None \<Rightarrow>
             (case first_error cancelled
                     (\<lambda>p. if bad_glob p then Some (InvalidModelGlob name p) else None)
                     (prov_Models prov) of
                Some e \<Rightarrow> Some e
              | None \<Rightarrow>
                  first_error cancelled
                    (\<lambda>p. if bad_glob p then Some (InvalidLeadingSystemGlob name p) else None)
                    (prov_RequiresLeadingSystem prov)))"

fun claim_keys :: "bool \<Rightarrow> string \<Rightarrow> string list \<Rightarrow> (string \<rightharpoonup> string) \<Rightarrow>
    config_error + (string \<rightharpoonup> string)" where
  "claim_keys cancelled name [] claims = Inr claims"
| "claim_keys cancelled name (key # keys) claims =
     (if cancelled then Inl ContextDone
      else case claims key of
        Some first \<Rightarrow>
          (if first \<noteq> name then Inl (KeyClaimedTwice key first name)
           else claim_keys cancelled name keys (claims(key \<mapsto> name)))
      | None \<Rightarrow> claim_keys cancelled name keys (claims(key \<mapsto> name)))"

fun claims_loop :: "bool \<Rightarrow> (string \<times> 't provider) list \<Rightarrow> (string \<rightharpoonup> string) \<Rightarrow>
    config_error + (string \<rightharpoonup> string)" where
  "claims_loop cancelled [] claims = Inr claims"
| "claims_loop cancelled ((name, prov) # rest) claims =
     (if cancelled then Inl ContextDone
      else case claim_keys cancelled name (prov_AllowedApiKeys prov) claims of
        Inl e \<Rightarrow> Inl e
      | Inr claims' \<Rightarrow> claims_loop cancelled rest claims')"

definition validateAllowedApiKeyClaims ::
  "bool \<Rightarrow> (string \<times> 't provider) list \<Rightarrow> config_error option" where
  "validateAllowedApiKeyClaims cancelled provs =
     (case claims_loop cancelled provs Map.empty of Inl e \<Rightarrow> Some e | Inr _ \<Rightarrow> None)"

fun validate_members :: "bool \<Rightarrow> string list \<Rightarrow> string \<Rightarrow> (string \<times> string) set \<Rightarrow>
    model_pool_member list \<Rightarrow> config_error + model_pool_member list" where
  "validate_members cancelled provs name seen [] = Inr []"
| "validate_members cancelled provs name seen (m # ms) =
     (if cancelled then Inl ContextDone
      else if mpm_Provider m \<notin> set provs then Inl (PoolUnknownProvider name (mpm_Provider m))
      else if mpm_Weight m < 0 then Inl (NegativePoolWeight name (mpm_Weight m))
      else
        (let m' = (if mpm_Weight m = 0 then m\<lparr>mpm_Weight := 1\<rparr> else m);
             pair = (mpm_Provider m', mpm_Model m')
         in if pair \<in> seen then Inl (PoolDuplicateMember name (mpm_Provider m') (mpm_Model m'))
            else case validate_members cancelled provs name (insert pair seen) ms of
              Inl e \<Rightarrow> Inl e
            | Inr ms' \<Rightarrow> Inr (m' # ms')))"

fun validateModelPools :: "bool \<Rightarrow> string list \<Rightarrow> (string \<times> model_pool_member list) list \<Rightarrow>
    config_error + (string \<times> model_pool_member list) list" where
  "validateModelPools cancelled provs [] = Inr []"
| "validateModelPools cancelled provs ((name, ms) # rest) =
     (if cancelled then Inl ContextDone
      else if ms = [] then Inl (EmptyModelPool name)
      else case validate_members cancelled provs name {} ms of
        Inl e \<Rightarrow> Inl e
      | Inr ms' \<Rightarrow>
          (case validateModelPools cancelled provs rest of
             Inl e \<Rightarrow> Inl e
           | Inr rest' \<Rightarrow> Inr ((name, ms') # rest')))"

text \<open>
  \<open>validateAliases\<close>: a collision with a provider name is an error; a target no glob
  matches is only logged, and the logged pairs are the result.
\<close>

definition alias_matched :: "(string \<times> 't provider) list \<Rightarrow> string \<Rightarrow> bool" where
  "alias_matched provs target \<longleftrightarrow>
     (\<exists>np \<in> set provs. matchesAnyPattern (prov_Models (snd np)) target)"

definition validateAliases :: "bool \<Rightarrow> (string \<times> 't provider) list \<Rightarrow> (string \<times> string) list \<Rightarrow>
    config_error + (string \<times> string) list" where
  "validateAliases cancelled provs aliases =
     (case first_error cancelled
             (\<lambda>kt. if map_of provs (fst kt) \<noteq> None then Some (AliasCollides (fst kt)) else None)
             aliases of
        Some e \<Rightarrow> Inl e
      | None \<Rightarrow> Inr (filter (\<lambda>kt. \<not> alias_matched provs (snd kt)) aliases))"

definition Validate :: "'t time_api \<Rightarrow> bool \<Rightarrow> 't config \<Rightarrow>
    config_error + 't config \<times> (string \<times> string) list" where
  "Validate api cancelled c =
     (case normalizeUpstreams cancelled (cfg_Providers c) of
        Inl e \<Rightarrow> Inl e
      | Inr provs \<Rightarrow>
          if cfg_Auth c \<noteq> None then Inl LegacyAuth
          else if provs = [] then Inl NoProviders
          else if cfg_DefaultProvider c = [] then Inl DefaultProviderRequired
          else if map_of provs (cfg_DefaultProvider c) = None
            then Inl (DefaultProviderNotFound (cfg_DefaultProvider c))
          else case first_error cancelled (validate_provider api cancelled) provs of
            Some e \<Rightarrow> Inl e
          | None \<Rightarrow>
            (case validateAllowedApiKeyClaims cancelled provs of
               Some e \<Rightarrow> Inl e
             | None \<Rightarrow>
               (case validateModelPools cancelled (map fst provs) (cfg_ModelPools c) of
                  Inl e \<Rightarrow> Inl e
                | Inr pools \<Rightarrow>
                  (case validateAliases cancelled provs (cfg_Aliases c) of
                     Inl e \<Rightarrow> Inl e
                   | Inr warned \<Rightarrow>
                       Inr (c\<lparr>cfg_Providers := provs, cfg_ModelPools := pools\<rparr>, warned)))))"

section \<open>Inbound keys\<close>

definition AllowedApiKeySet :: "'t config \<Rightarrow> string set" where
  "AllowedApiKeySet c =
     (if cfg_AllowedApiKeys c \<noteq> [] then set (cfg_AllowedApiKeys c)
      else (\<Union>np \<in> set (cfg_Providers c). set (prov_AllowedApiKeys (snd np))))"

section \<open>What validation establishes\<close>

definition wf_window :: "'t time_api \<Rightarrow> 't upstream \<Rightarrow> bool" where
  "wf_window api up \<longleftrightarrow>
     (case up_Window up of None \<Rightarrow> True
      | Some w \<Rightarrow> win_From w \<noteq> tod_zero api \<and> win_Until w \<noteq> tod_zero api) \<and>
     (up_Window up = None \<longrightarrow>
      (case up_Days up of None \<Rightarrow> True | Some d \<Rightarrow> days_Location d \<noteq> None))"

definition wf_provider :: "'t time_api \<Rightarrow> 't provider \<Rightarrow> bool" where
  "wf_provider api prov \<longleftrightarrow>
     prov_Upstreams prov \<noteq> [] \<and>
     (\<forall>up \<in> set (prov_Upstreams prov). up_Upstream up \<noteq> [] \<and> 1 \<le> up_Weight up \<and> wf_window api up) \<and>
     (\<forall>p \<in> set (prov_Models prov) \<union> set (prov_RequiresLeadingSystem prov). \<not> bad_glob p)"

definition wf_claims :: "(string \<times> 't provider) list \<Rightarrow> bool" where
  "wf_claims provs \<longleftrightarrow>
     (\<forall>np \<in> set provs. \<forall>nq \<in> set provs. \<forall>k \<in> set (prov_AllowedApiKeys (snd np)).
        k \<in> set (prov_AllowedApiKeys (snd nq)) \<longrightarrow> fst np = fst nq)"

definition wf_pool :: "string set \<Rightarrow> model_pool_member list \<Rightarrow> bool" where
  "wf_pool provs ms \<longleftrightarrow>
     ms \<noteq> [] \<and> (\<forall>m \<in> set ms. mpm_Provider m \<in> provs \<and> 1 \<le> mpm_Weight m) \<and>
     distinct (map (\<lambda>m. (mpm_Provider m, mpm_Model m)) ms)"

definition wf_config :: "'t time_api \<Rightarrow> 't config \<Rightarrow> bool" where
  "wf_config api c \<longleftrightarrow>
     cfg_Auth c = None \<and>
     cfg_DefaultProvider c \<in> fst ` set (cfg_Providers c) \<and>
     (\<forall>np \<in> set (cfg_Providers c). wf_provider api (snd np)) \<and>
     wf_claims (cfg_Providers c) \<and>
     (\<forall>pool \<in> set (cfg_ModelPools c). wf_pool (fst ` set (cfg_Providers c)) (snd pool)) \<and>
     (\<forall>kt \<in> set (cfg_Aliases c). fst kt \<notin> fst ` set (cfg_Providers c))"

lemma first_error_None_iff:
  "first_error cancelled chk xs = None \<longleftrightarrow> (xs = [] \<or> \<not> cancelled) \<and> (\<forall>x \<in> set xs. chk x = None)"
  by (induction xs) (auto split: option.splits)

lemma normalize_provider_Inr:
  assumes "normalize_provider name prov = Inr prov'"
  shows "prov_Upstreams prov' \<noteq> [] \<and> (\<forall>up \<in> set (prov_Upstreams prov'). up_Weight up \<noteq> 0) \<and>
         prov_AllowedApiKeys prov' = prov_AllowedApiKeys prov \<and>
         prov_Models prov' = prov_Models prov \<and>
         UpstreamList prov' = map default_weight (UpstreamList prov)"
  using assms
  by (auto simp: normalize_provider_def Let_def default_weight_def UpstreamList_def
      synthesized_upstream_def split: if_splits)

lemma normalizeUpstreams_Inr:
  "normalizeUpstreams cancelled provs = Inr provs' \<Longrightarrow>
   list_all2 (\<lambda>np np'. fst np' = fst np \<and> normalize_provider (fst np) (snd np) = Inr (snd np'))
     provs provs'"
  by (induction cancelled provs arbitrary: provs' rule: normalizeUpstreams.induct)
     (auto split: if_splits sum.splits)

lemma normalizeUpstreams_keys:
  "normalizeUpstreams cancelled provs = Inr provs' \<Longrightarrow> map fst provs' = map fst provs"
  by (induction cancelled provs arbitrary: provs' rule: normalizeUpstreams.induct)
     (auto split: if_splits sum.splits)

lemma normalizeUpstreams_wf:
  "normalizeUpstreams cancelled provs = Inr provs' \<Longrightarrow> np' \<in> set provs' \<Longrightarrow>
   prov_Upstreams (snd np') \<noteq> [] \<and> (\<forall>up \<in> set (prov_Upstreams (snd np')). up_Weight up \<noteq> 0)"
proof (induction cancelled provs arbitrary: provs' rule: normalizeUpstreams.induct)
  case (2 cancelled name prov rest)
  then obtain prov' rest' where g: "\<not> cancelled" "normalize_provider name prov = Inr prov'"
    "normalizeUpstreams cancelled rest = Inr rest'" and "provs' = (name, prov') # rest'"
    by (auto split: if_splits sum.splits)
  then consider "np' = (name, prov')" | "np' \<in> set rest'" using "2.prems"(2) by auto
  then show ?case
    using normalize_provider_Inr [OF g(2)] "2.IH" [OF g] by cases auto
qed simp

lemma validate_provider_None:
  assumes "validate_provider api cancelled np = None"
    and "prov_Upstreams (snd np) \<noteq> []"
    and "\<forall>up \<in> set (prov_Upstreams (snd np)). up_Weight up \<noteq> 0"
  shows "wf_provider api (snd np)"
proof -
  obtain name prov where np: "np = (name, prov)" by (cases np)
  have ups: "\<forall>up \<in> set (prov_Upstreams prov). validate_upstream api name up = None"
    and globs: "\<forall>p \<in> set (prov_Models prov) \<union> set (prov_RequiresLeadingSystem prov). \<not> bad_glob p"
    using assms(1) np
    by (auto simp: validate_provider_def first_error_None_iff split: option.splits if_splits)
  have "up_Upstream up \<noteq> [] \<and> 1 \<le> up_Weight up \<and> wf_window api up"
    if "up \<in> set (prov_Upstreams prov)" for up
  proof -
    have "validate_upstream api name up = None" "up_Weight up \<noteq> 0"
      using ups assms(3) that np by auto
    then show ?thesis
      by (auto simp: validate_upstream_def wf_window_def split: if_splits option.splits)
  qed
  with globs assms(2) np show ?thesis by (simp add: wf_provider_def)
qed

text \<open>The claims map: a key points to a provider that lists it.\<close>

lemma claim_keys_Inr:
  "claim_keys False name keys claims = Inr claims' \<Longrightarrow>
   (\<forall>k \<in> set keys. claims k = None \<or> claims k = Some name) \<and>
   claims' = (\<lambda>k. if k \<in> set keys then Some name else claims k)"
proof (induction keys arbitrary: claims)
  case (Cons k keys)
  then have "claims k = None \<or> claims k = Some name"
    and "claim_keys False name keys (claims(k \<mapsto> name)) = Inr claims'"
    by (auto split: option.splits if_splits)
  from this(1) Cons.IH [OF this(2)] show ?case
    by (auto simp: fun_eq_iff split: if_splits)
qed auto

lemma claim_keys_ok:
  "\<forall>k \<in> set keys. claims k = None \<or> claims k = Some name \<Longrightarrow>
   \<exists>claims'. claim_keys False name keys claims = Inr claims'"
  by (induction keys arbitrary: claims) (auto split: option.splits)

lemma wf_claims_Cons:
  "wf_claims (np # provs) \<longleftrightarrow>
     wf_claims provs \<and>
     (\<forall>nq \<in> set provs. \<forall>k \<in> set (prov_AllowedApiKeys (snd nq)).
        k \<in> set (prov_AllowedApiKeys (snd np)) \<longrightarrow> fst nq = fst np)"
proof -
  let ?R = "\<lambda>a b. \<forall>k \<in> set (prov_AllowedApiKeys (snd a)).
      k \<in> set (prov_AllowedApiKeys (snd b)) \<longrightarrow> fst a = fst b"
  have sym: "?R a b \<longleftrightarrow> ?R b a" for a b :: "string \<times> 'a provider"
    by fastforce
  have "wf_claims (np # provs) \<longleftrightarrow> wf_claims provs \<and> (\<forall>nq \<in> set provs. ?R np nq \<and> ?R nq np)"
    unfolding wf_claims_def list.set ball_simps(7) by blast
  then show ?thesis by (simp only: sym [of np] simp_thms)
qed

lemma claims_loop_iff:
  "(\<exists>claims'. claims_loop False provs claims = Inr claims') \<longleftrightarrow>
     wf_claims provs \<and>
     (\<forall>np \<in> set provs. \<forall>k \<in> set (prov_AllowedApiKeys (snd np)).
        claims k = None \<or> claims k = Some (fst np))"
proof (induction provs arbitrary: claims)
  case Nil
  then show ?case by (simp add: wf_claims_def)
next
  case (Cons np provs)
  obtain name prov where np: "np = (name, prov)" by (cases np)
  let ?keys = "prov_AllowedApiKeys prov"
  let ?claims = "\<lambda>k. if k \<in> set ?keys then Some name else claims k"
  have head: "(\<exists>claims'. claims_loop False (np # provs) claims = Inr claims') \<longleftrightarrow>
      (\<forall>k \<in> set ?keys. claims k = None \<or> claims k = Some name) \<and>
      (\<exists>claims'. claims_loop False provs ?claims = Inr claims')"
    using claim_keys_ok [of ?keys claims name] claim_keys_Inr [of name ?keys claims] np
    by (auto split: sum.splits)
  have inv: "(?claims k = None \<or> ?claims k = Some n) \<longleftrightarrow>
      (k \<in> set ?keys \<longrightarrow> n = name) \<and> (k \<notin> set ?keys \<longrightarrow> claims k = None \<or> claims k = Some n)" for k n
    by auto
  show ?case
    unfolding head Cons.IH [of ?claims] inv by (auto simp: np wf_claims_Cons)
qed

lemma validate_members_Inr:
  "validate_members cancelled provs name seen ms = Inr ms' \<Longrightarrow>
   (\<forall>m \<in> set ms'. mpm_Provider m \<in> set provs \<and> 1 \<le> mpm_Weight m) \<and>
   distinct (map (\<lambda>m. (mpm_Provider m, mpm_Model m)) ms') \<and>
   seen \<inter> set (map (\<lambda>m. (mpm_Provider m, mpm_Model m)) ms') = {} \<and>
   length ms' = length ms"
proof (induction cancelled provs name seen ms arbitrary: ms' rule: validate_members.induct)
  case (2 cancelled provs name seen m ms)
  let ?m = "if mpm_Weight m = 0 then m\<lparr>mpm_Weight := 1\<rparr> else m"
  let ?pair = "(mpm_Provider ?m, mpm_Model ?m)"
  from "2.prems" have g: "\<not> cancelled" "mpm_Provider m \<in> set provs" "\<not> mpm_Weight m < 0" "?pair \<notin> seen"
    by (auto simp: Let_def split: if_splits)
  with "2.prems" obtain ms0 where
    rec: "validate_members cancelled provs name (insert ?pair seen) ms = Inr ms0" and ms': "ms' = ?m # ms0"
    by (auto simp: Let_def split: if_splits sum.splits)
  have IH: "(\<forall>m \<in> set ms0. mpm_Provider m \<in> set provs \<and> 1 \<le> mpm_Weight m) \<and>
      distinct (map (\<lambda>m. (mpm_Provider m, mpm_Model m)) ms0) \<and>
      insert ?pair seen \<inter> set (map (\<lambda>m. (mpm_Provider m, mpm_Model m)) ms0) = {} \<and>
      length ms0 = length ms"
    using g rec by (intro "2.IH"[of ?m ?pair]) auto
  have "mpm_Provider ?m \<in> set provs" "1 \<le> mpm_Weight ?m" using g by auto
  with IH g ms' show ?case by auto
qed auto

lemma validateModelPools_Inr:
  "validateModelPools cancelled provs pools = Inr pools' \<Longrightarrow>
   pool \<in> set pools' \<Longrightarrow> wf_pool (set provs) (snd pool)"
proof (induction cancelled provs pools arbitrary: pools' rule: validateModelPools.induct)
  case (2 cancelled provs name ms rest)
  then obtain ms' rest' where g: "\<not> cancelled" "ms \<noteq> []"
    and v: "validate_members cancelled provs name {} ms = Inr ms'"
    and r: "validateModelPools cancelled provs rest = Inr rest'" and "pools' = (name, ms') # rest'"
    by (auto split: if_splits sum.splits)
  then consider "pool = (name, ms')" | "pool \<in> set rest'" using "2.prems"(2) by auto
  then show ?case
  proof cases
    case 1
    then show ?thesis using validate_members_Inr [OF v] g by (auto simp: wf_pool_def)
  next
    case 2
    then show ?thesis using "2.IH" g v r by blast
  qed
qed auto

lemma validateAliases_Inr:
  "validateAliases cancelled provs aliases = Inr warned \<Longrightarrow> kt \<in> set aliases \<Longrightarrow>
   fst kt \<notin> fst ` set provs"
  by (auto simp: validateAliases_def first_error_None_iff map_of_eq_None_iff
      split: option.splits if_splits)

section \<open>Example configuration\<close>

text \<open>A concrete time library and configuration at which the properties are instantiated.\<close>

type_synonym ex_tod = "int \<times> string option"

definition ex_api :: "ex_tod time_api" where
  "ex_api =
     \<lparr>tod_Equal = (\<lambda>a b. fst a = fst b), tod_Before = (\<lambda>a b. fst a < fst b),
      tod_After = (\<lambda>a b. fst b < fst a), tod_Location = snd, tod_zero = (0, None),
      tod_In = (\<lambda>loc now. (now mod (24 * 3600 * second_ns), Some loc)),
      weekday_In = (\<lambda>loc now. if (now div (24 * 3600 * second_ns)) mod 7 \<in> {2, 3}
                                then Saturday else Monday),
      weekdays_Contains = (\<lambda>wds wd. wd \<in> set wds)\<rparr>"

definition ex_hour :: "int \<Rightarrow> ex_tod" where
  "ex_hour h = (h * 3600 * second_ns, Some utc)"

definition ex_night :: "ex_tod window" where
  "ex_night = \<lparr>win_From = ex_hour 22, win_Until = ex_hour 6\<rparr>"

definition ex_provider :: "string \<Rightarrow> string list \<Rightarrow> ex_tod provider" where
  "ex_provider upstream models =
     \<lparr>prov_Upstream = upstream, prov_Token = [], prov_Models = models,
      prov_RequiresLeadingSystem = [], prov_AllowedApiKeys = [],
      prov_MaxConcurrentRequests = 0, prov_MaxConcurrentWaitSeconds = 0, prov_Upstreams = [],
      prov_Window = None, prov_Days = None, prov_Throttle429Threshold = 0,
      prov_ThrottleMaxDelaySeconds = 0, prov_ColdPrefillBudgetTokens = 0,
      prov_ColdSessionWindowSeconds = 0, prov_NewSessionRatePerMinute = 0,
      prov_TtftBackpressureThresholdSeconds = 0, prov_BreakerFailureThreshold = 0\<rparr>"

definition ex_config :: "ex_tod config" where
  "ex_config =
     \<lparr>cfg_DefaultProvider = ''a'',
      cfg_Providers =
        [(''a'', (ex_provider ''u'' [''c*''])\<lparr>prov_AllowedApiKeys := [''k1''], prov_Window := Some ex_night\<rparr>),
         (''b'', (ex_provider ''v'' [''q''])\<lparr>prov_AllowedApiKeys := [''k2'']\<rparr>)],
      cfg_DefaultToken = [], cfg_Aliases = [(''o'', ''c4'')],
      cfg_ModelPools = [(''p'', [\<lparr>mpm_Provider = ''b'', mpm_Model = ''q'', mpm_Weight = 0,
                                  mpm_Overflow = False\<rparr>])],
      cfg_Trace = False, cfg_Auth = None, cfg_AllowedApiKeys = [''k1''],
      cfg_UpstreamHostLimits = [], cfg_ProviderOrder = [''a'', ''b'']\<rparr>"

lemma ex_globs: "path_match ''c*'' name = Some (\<exists>r. name = ''c'' @ r \<and> CHR ''/'' \<notin> set r)"
  "path_match ''q'' name = Some (name = ''q'')"
  using path_match_prefix [of "''c''" name] path_match_literal [of "''q''" name]
  by (simp_all add: glob_meta_def backslash_def)

lemmas ex_config_eval =
  ex_config_def ex_provider_def ex_night_def ex_hour_def ex_api_def utc_def second_ns_def
  Validate_def normalize_provider_def synthesized_upstream_def default_weight_def
  validate_provider_def validate_upstream_def bad_glob_def validateAllowedApiKeyClaims_def
  validateAliases_def ex_globs alias_matched_def

definition ex_validated :: "ex_tod config" where
  "ex_validated = ex_config\<lparr>
     cfg_Providers :=
        [(''a'', (ex_provider ''u'' [''c*''])\<lparr>prov_AllowedApiKeys := [''k1''],
             prov_Window := Some ex_night,
             prov_Upstreams := [synthesized_upstream ((ex_provider ''u'' [])\<lparr>prov_Window := Some ex_night\<rparr>)]\<rparr>),
         (''b'', (ex_provider ''v'' [''q''])\<lparr>prov_AllowedApiKeys := [''k2''],
             prov_Upstreams := [synthesized_upstream (ex_provider ''v'' [])]\<rparr>)],
     cfg_ModelPools := [(''p'', [\<lparr>mpm_Provider = ''b'', mpm_Model = ''q'', mpm_Weight = 1,
                                  mpm_Overflow = False\<rparr>])]\<rparr>"

lemma ex_config_valid: "Validate ex_api False ex_config = Inr (ex_validated, [])"
  by (simp add: ex_config_eval ex_validated_def)

lemma Validate_Inr:
  assumes "Validate api False c = Inr (c', warned)"
  shows "wf_config api c' \<and> map fst (cfg_Providers c') = map fst (cfg_Providers c) \<and>
    cfg_ProviderOrder c' = cfg_ProviderOrder c \<and> cfg_Aliases c' = cfg_Aliases c"
proof -
  from assms obtain provs pools where
    n: "normalizeUpstreams False (cfg_Providers c) = Inr provs" and
    auth: "cfg_Auth c = None" and
    d: "map_of provs (cfg_DefaultProvider c) \<noteq> None" and
    v: "first_error False (validate_provider api False) provs = None" and
    k: "validateAllowedApiKeyClaims False provs = None" and
    m: "validateModelPools False (map fst provs) (cfg_ModelPools c) = Inr pools" and
    a: "validateAliases False provs (cfg_Aliases c) = Inr warned" and
    c': "c' = c\<lparr>cfg_Providers := provs, cfg_ModelPools := pools\<rparr>"
    by (auto simp: Validate_def split: sum.splits if_splits option.splits)
  have "cfg_DefaultProvider c \<in> fst ` set provs"
    using d map_of_eq_None_iff by metis
  moreover have "wf_provider api (snd np)" if "np \<in> set provs" for np
    using v that normalizeUpstreams_wf [OF n that]
    by (intro validate_provider_None [of api False np]) (auto simp: first_error_None_iff)
  moreover have "wf_claims provs"
    using k claims_loop_iff [of provs Map.empty]
    by (auto simp: validateAllowedApiKeyClaims_def split: sum.splits)
  moreover have "wf_pool (fst ` set provs) (snd pool)" if "pool \<in> set pools" for pool
    using validateModelPools_Inr [OF m that] by simp
  ultimately show ?thesis
    using auth c' validateAliases_Inr [OF a] normalizeUpstreams_keys [OF n] by (auto simp: wf_config_def)
qed

section \<open>Properties\<close>

text \<open>
  C20. A configuration that \<open>Config.Validate\<close> accepts is well formed: the default provider
  exists, every provider has at least one upstream, each with a URL, a positive weight
  and a complete window, every glob is well formed, no API key is claimed by two
  providers, every model pool is non-empty with existing providers, positive weights and
  distinct members, no alias is a provider name, and the legacy auth block is absent.
\<close>

theorem Validate_wf:
  assumes "Validate api False c = Inr (c', warned)"
  shows "wf_config api c'"
  using Validate_Inr [OF assms] by simp

theorem Validate_wf_witness: "wf_config ex_api ex_validated"
  using Validate_wf [OF ex_config_valid] .

text \<open>
  A glob that passed validation never makes \<open>path.Match\<close> report \<open>ErrBadPattern\<close> at
  routing time, for any model name: checking the pattern against the empty name at load
  is enough for the router to ignore that error.
\<close>

theorem validated_globs_never_fail:
  assumes "Validate api False c = Inr (c', warned)"
    and "np \<in> set (cfg_Providers c')"
    and "p \<in> set (prov_Models (snd np)) \<union> set (prov_RequiresLeadingSystem (snd np))"
  shows "path_match p model \<noteq> None"
proof -
  have n: "normalizeUpstreams False (cfg_Providers c) = Inr (cfg_Providers c')"
    and v: "first_error False (validate_provider api False) (cfg_Providers c') = None"
    using assms(1) by (auto simp: Validate_def split: sum.splits if_splits option.splits)
  have "wf_provider api (snd np)"
    using v assms(2) normalizeUpstreams_wf [OF n assms(2)]
    by (intro validate_provider_None [of api False np]) (auto simp: first_error_None_iff)
  then have "\<not> bad_glob p" using assms(3) by (auto simp: wf_provider_def)
  then show ?thesis using path_match_None_iff by (auto simp: bad_glob_def)
qed

theorem validated_globs_never_fail_witness: "path_match ''c*'' ''claude'' \<noteq> None"
  by (rule validated_globs_never_fail
      [OF ex_config_valid, of "hd (cfg_Providers ex_validated)"])
     (simp_all add: ex_validated_def ex_provider_def)

text \<open>
  The check for API keys claimed by two providers accepts exactly the configurations
  in which providers sharing a key are the same provider. The right-hand side does not
  depend on the iteration order of the provider map, so neither does the verdict, and a
  provider listing its own key twice is accepted.
\<close>

theorem key_claims_exact:
  "validateAllowedApiKeyClaims False provs = None \<longleftrightarrow> wf_claims provs"
  using claims_loop_iff [of provs Map.empty]
  by (auto simp: validateAllowedApiKeyClaims_def split: sum.splits)

text \<open>The laws of \<open>libtime.TimeOfDay\<close>'s comparisons: an order by the time of day.\<close>

definition tod_laws :: "'t time_api \<Rightarrow> ('t \<Rightarrow> int) \<Rightarrow> bool" where
  "tod_laws api key \<longleftrightarrow>
     (\<forall>a b. tod_Equal api a b = (key a = key b)) \<and>
     (\<forall>a b. tod_Before api a b = (key a < key b)) \<and>
     (\<forall>a b. tod_After api a b = (key b < key a))"

lemma Window_Contains_iff:
  assumes "tod_laws api key"
  shows "Window_Contains api w now =
    (let tod = key (tod_In api (case or_else (tod_Location api (win_From w))
                                  (tod_Location api (win_Until w)) of Some l \<Rightarrow> l | None \<Rightarrow> utc) now);
         f = key (win_From w); u = key (win_Until w)
     in if f < u then f \<le> tod \<and> tod < u else f \<noteq> u \<and> (f \<le> tod \<or> tod < u))"
  using assms by (auto simp: Window_Contains_def tod_laws_def Let_def)

text \<open>
  Windows are half-open and wrap at midnight: of a window from \<open>a\<close> until \<open>b\<close> and the
  reversed window from \<open>b\<close> until \<open>a\<close> (in the same location, with distinct bounds)
  exactly one contains any instant, so a day pool and a night pool sharing a boundary
  neither overlap nor leave a gap.
\<close>

theorem window_complement:
  assumes "tod_laws api key"
    and "tod_Location api a = tod_Location api b"
    and "key a \<noteq> key b"
  shows "Window_Contains api \<lparr>win_From = a, win_Until = b\<rparr> now =
         (\<not> Window_Contains api \<lparr>win_From = b, win_Until = a\<rparr> now)"
  using assms(2,3) unfolding Window_Contains_iff [OF assms(1)]
  by (auto simp: Let_def or_else_def)

theorem window_complement_witness:
  "Window_Contains ex_api \<lparr>win_From = ex_hour 22, win_Until = ex_hour 6\<rparr> (2 * 3600 * second_ns) =
   (\<not> Window_Contains ex_api \<lparr>win_From = ex_hour 6, win_Until = ex_hour 22\<rparr> (2 * 3600 * second_ns))"
  by (rule window_complement [of _ fst])
     (simp_all add: tod_laws_def ex_api_def ex_hour_def second_ns_def)

text \<open>
  When the top-level registry is non-empty, it alone authenticates: a key that only a
  provider's list carries is not accepted, although the comment on the registry field
  says a key in any provider's list authenticates the caller.
\<close>

theorem registry_replaces_provider_keys:
  assumes "cfg_AllowedApiKeys c \<noteq> []" and "key \<notin> set (cfg_AllowedApiKeys c)"
  shows "key \<notin> AllowedApiKeySet c"
  using assms by (simp add: AllowedApiKeySet_def)

theorem registry_replaces_provider_keys_witness:
  "''k2'' \<in> set (prov_AllowedApiKeys (snd (cfg_Providers ex_config ! 1))) \<and>
   ''k2'' \<notin> AllowedApiKeySet ex_config"
  using registry_replaces_provider_keys [of ex_config "''k2''"] by (simp add: ex_config_def)

text \<open>The port that distinguishes two upstreams of a host: the default port is dropped.\<close>

definition effective_port :: "url \<Rightarrow> string" where
  "effective_port u =
     (if url_Port u = ''80'' \<and> url_Scheme u = ''http'' \<or>
         url_Port u = ''443'' \<and> url_Scheme u = ''https'' then [] else url_Port u)"

lemma UpstreamHostKey_eq:
  "CHR '':'' \<notin> set (to_lower (url_Hostname u)) \<Longrightarrow>
   UpstreamHostKey u = to_lower (url_Hostname u) @
     (if effective_port u = [] then [] else CHR '':'' # effective_port u)"
  by (auto simp: UpstreamHostKey_def effective_port_def JoinHostPort_def Let_def)

lemma append_colon_inject:
  assumes "CHR '':'' \<notin> set h" "CHR '':'' \<notin> set h'"
    and "h @ (if p = [] then [] else CHR '':'' # p) = h' @ (if p' = [] then [] else CHR '':'' # p')"
  shows "h = h' \<and> p = p'"
proof -
  have tw: "takeWhile (\<lambda>c. c \<noteq> CHR '':'') (g @ (if q = [] then [] else CHR '':'' # q)) = g"
    if "CHR '':'' \<notin> set g" for g q
  proof -
    have "\<forall>c \<in> set g. c \<noteq> CHR '':''" using that by blast
    then show ?thesis by (cases "q = []") (simp_all add: takeWhile_append2 takeWhile_eq_all_conv)
  qed
  have "h = h'" using tw [OF assms(1), of p] tw [OF assms(2), of p'] assms(3) by (metis)
  with assms(3) have "(if p = [] then [] else CHR '':'' # p) = (if p' = [] then [] else CHR '':'' # p')"
    by (simp only: same_append_eq)
  with \<open>h = h'\<close> show ?thesis by (cases "p = []"; cases "p' = []") simp_all
qed

text \<open>
  Two upstream URLs (with a host name or an IPv4 address) share a host budget exactly
  when their host names agree up to letter case and their ports agree once the scheme's
  default port is dropped; the path plays no role.
\<close>

theorem UpstreamHostKey_exact:
  assumes "CHR '':'' \<notin> set (to_lower (url_Hostname u))"
    and "CHR '':'' \<notin> set (to_lower (url_Hostname v))"
  shows "UpstreamHostKey u = UpstreamHostKey v \<longleftrightarrow>
         to_lower (url_Hostname u) = to_lower (url_Hostname v) \<and>
         effective_port u = effective_port v"
  unfolding UpstreamHostKey_eq [OF assms(1)] UpstreamHostKey_eq [OF assms(2)]
proof
  assume "to_lower (url_Hostname u) = to_lower (url_Hostname v) \<and> effective_port u = effective_port v"
  then show "to_lower (url_Hostname u) @ (if effective_port u = [] then [] else CHR '':'' # effective_port u) =
    to_lower (url_Hostname v) @ (if effective_port v = [] then [] else CHR '':'' # effective_port v)"
    by simp
qed (rule append_colon_inject [OF assms])

theorem UpstreamHostKey_exact_witness:
  "UpstreamHostKey \<lparr>url_Scheme = ''https'', url_Hostname = ''Ab'', url_Port = ''443''\<rparr> =
   UpstreamHostKey \<lparr>url_Scheme = ''https'', url_Hostname = ''aB'', url_Port = []\<rparr>"
  by (subst UpstreamHostKey_exact)
     code_simp+

end
