(* ===== verification/Ring.thy ===== *)
theory Ring
  imports Prelude
begin

unbundle bit_operations_syntax

text \<open>
  Selection shared by the two pools (\<open>upstream-pool-handler.go\<close> and \<open>model-pool.go\<close>
  carry the same code twice): the FNV-1a hash of \<open>hash/fnv\<close>, the weighted ring of
  \<open>pinSlot\<close> with Go's 64-bit arithmetic, the round-robin choice among ties, and the
  reference ring in which every member owns as many slots as its weight. The locale
  \<open>session_ring\<close> is the contract a pool offers its clients; each pool interprets it.
\<close>

section \<open>The code\<close>

definition fnv_offset64 :: u64 where "fnv_offset64 = 14695981039346656037"
definition fnv_prime64 :: u64 where "fnv_prime64 = 1099511628211"

definition fnv1a64 :: "string \<Rightarrow> u64" where
  "fnv1a64 s = foldl (\<lambda>h c. (h XOR of_char c) * fnv_prime64) fnv_offset64 s"

text \<open>Running totals, in \<open>int\<close> arithmetic.\<close>

fun cumulate :: "int \<Rightarrow> int list \<Rightarrow> int list" where
  "cumulate tot [] = []"
| "cumulate tot (w # ws) = wrap64 (tot + w) # cumulate (wrap64 (tot + w)) ws"

text \<open>The first entry whose cumulative weight, converted to \<open>uint64\<close>, exceeds the slot.\<close>

fun ring_scan :: "u64 \<Rightarrow> (int \<times> nat) list \<Rightarrow> nat option" where
  "ring_scan slot [] = None"
| "ring_scan slot ((c, i) # rest) = (if slot < word_of_int c then Some i else ring_scan slot rest)"

text \<open>
  The body of \<open>pinSlot\<close> on the eligible indices, all in one place: \<open>seen_done\<close> is whether
  the scan observes that the request context is done, and an empty list yields member 0.
\<close>

definition ring_pin :: "bool \<Rightarrow> nat list \<Rightarrow> (nat \<Rightarrow> int) \<Rightarrow> string \<Rightarrow> go_panic + nat" where
  "ring_pin seen_done idx weight sessionID =
     (if idx = [] then Inr 0
      else
        (let cumulative = cumulate 0 (map weight idx);
             tot = (word_of_int (last cumulative) :: u64)
         in if tot = 0 then Inl DivideByZero
            else if seen_done then Inr 0
            else
              (let slot = fnv1a64 sessionID mod tot
               in case ring_scan slot (zip cumulative idx) of
                    Some i \<Rightarrow> Inr i
                  | None \<Rightarrow> Inr (last idx))))"

text \<open>The final step of \<open>leastLoaded\<close>: \<open>ties[(rr-1) % uint64(len(ties))]\<close> after \<open>rr\<close> grew by 1.\<close>

definition rr_pick :: "nat list \<Rightarrow> u64 \<Rightarrow> go_panic + nat" where
  "rr_pick ties rr =
     (if (of_nat (length ties) :: u64) = 0 then Inl DivideByZero
      else Inr (ties ! unat ((rr - 1) mod of_nat (length ties))))"

section \<open>The reference ring\<close>

text \<open>Every member occupies as many consecutive slots as its weight.\<close>

definition ring_slots :: "nat list \<Rightarrow> (nat \<Rightarrow> int) \<Rightarrow> nat list" where
  "ring_slots idx weight = concat (map (\<lambda>i. replicate (nat (weight i)) i) idx)"

definition ring_ref :: "nat list \<Rightarrow> (nat \<Rightarrow> int) \<Rightarrow> string \<Rightarrow> nat" where
  "ring_ref idx weight s =
     ring_slots idx weight ! (unat (fnv1a64 s) mod length (ring_slots idx weight))"

definition weights_ok :: "nat list \<Rightarrow> (nat \<Rightarrow> int) \<Rightarrow> bool" where
  "weights_ok idx weight \<longleftrightarrow> (\<forall>i \<in> set idx. 0 < weight i) \<and> sum_list (map weight idx) < 2 ^ 63"

lemma length_ring_slots:
  "\<forall>i \<in> set idx. 0 < weight i \<Longrightarrow> int (length (ring_slots idx weight)) = sum_list (map weight idx)"
  by (induction idx) (auto simp: ring_slots_def)

lemma set_ring_slots: "\<forall>i \<in> set idx. 0 < weight i \<Longrightarrow> set (ring_slots idx weight) = set idx"
  by (induction idx) (auto simp: ring_slots_def)

lemma count_ring_slots:
  "distinct idx \<Longrightarrow> i \<in> set idx \<Longrightarrow> count_list (ring_slots idx weight) i = nat (weight i)"
proof (induction idx)
  case (Cons j idx)
  have rep: "count_list (replicate n j) i = (if i = j then n else 0)" for n
    by (induction n) auto
  have no: "count_list (ring_slots idx weight) i = 0" if "i \<notin> set idx"
    using that by (auto simp: count_list_0_iff ring_slots_def)
  show ?case
    using Cons rep no by (auto simp: ring_slots_def)
qed simp

text \<open>Without overflow the running totals are the prefix sums.\<close>

fun sums_from :: "int \<Rightarrow> int list \<Rightarrow> int list" where
  "sums_from acc [] = []"
| "sums_from acc (w # ws) = (acc + w) # sums_from (acc + w) ws"

lemma sum_list_nonneg_map: "\<forall>i \<in> set idx. 0 < (f i :: int) \<Longrightarrow> 0 \<le> sum_list (map f idx)"
  by (induction idx) auto

lemma cumulate_sums:
  "0 \<le> acc \<Longrightarrow> \<forall>i \<in> set idx. 0 < weight i \<Longrightarrow> acc + sum_list (map weight idx) < 2 ^ 63 \<Longrightarrow>
   cumulate acc (map weight idx) = sums_from acc (map weight idx)"
proof (induction idx arbitrary: acc)
  case (Cons i idx)
  have "0 \<le> sum_list (map weight idx)" using Cons.prems by (simp add: sum_list_nonneg_map)
  then have "wrap64 (acc + weight i) = acc + weight i"
    using Cons.prems by (intro wrap64_id) auto
  with Cons show ?case by simp
qed simp

lemma sums_from_Nil_iff [simp]: "sums_from acc ws = [] \<longleftrightarrow> ws = []"
  by (cases ws) auto

lemma last_sums_from: "ws \<noteq> [] \<Longrightarrow> last (sums_from acc ws) = acc + sum_list ws"
proof (induction ws arbitrary: acc)
  case (Cons w ws)
  then show ?case by (cases "ws = []") auto
qed simp

lemma less_word_of_int:
  assumes "0 \<le> c" "c < 2 ^ 64"
  shows "slot < (word_of_int c :: u64) \<longleftrightarrow> int (unat slot) < c"
proof -
  have "uint (word_of_int c :: u64) = c"
    using assms by (simp add: uint_word_of_int)
  then show ?thesis by (simp add: word_less_def)
qed

text \<open>Scanning the cumulative weights reads the reference ring at the slot.\<close>

lemma ring_scan_slots:
  assumes "\<forall>i \<in> set idx. 0 < weight i" "0 \<le> acc" "acc + sum_list (map weight idx) < 2 ^ 63"
    and "acc \<le> int (unat slot)" "int (unat slot) < acc + sum_list (map weight idx)"
  shows "ring_scan slot (zip (sums_from acc (map weight idx)) idx) =
         Some (ring_slots idx weight ! (unat slot - nat acc))"
  using assms
proof (induction idx arbitrary: acc)
  case (Cons i idx)
  have nn: "0 \<le> sum_list (map weight idx)" using Cons.prems by (simp add: sum_list_nonneg_map)
  have lt: "slot < word_of_int (acc + weight i) \<longleftrightarrow> int (unat slot) < acc + weight i"
    using Cons.prems nn by (intro less_word_of_int) auto
  show ?case
  proof (cases "int (unat slot) < acc + weight i")
    case True
    then have "unat slot - nat acc < nat (weight i)"
      using Cons.prems by linarith
    with True lt show ?thesis by (simp add: ring_slots_def nth_append)
  next
    case False
    have "ring_scan slot (zip (sums_from (acc + weight i) (map weight idx)) idx) =
          Some (ring_slots idx weight ! (unat slot - nat (acc + weight i)))"
      using Cons.prems False by (intro Cons.IH) auto
    moreover have "\<not> unat slot - nat acc < nat (weight i)"
      "unat slot - nat (acc + weight i) = unat slot - nat acc - nat (weight i)"
      using False Cons.prems by (linarith, simp add: nat_add_distrib)
    ultimately show ?thesis using False lt by (simp add: ring_slots_def nth_append)
  qed
qed auto

lemma ring_pin_ref:
  assumes "idx \<noteq> []" and "weights_ok idx weight"
  shows "ring_pin False idx weight s = Inr (ring_ref idx weight s)"
proof -
  let ?n = "sum_list (map weight idx)"
  have pos: "\<forall>i \<in> set idx. 0 < weight i" and small: "?n < 2 ^ 63"
    using assms(2) by (simp_all add: weights_ok_def)
  have n: "0 < ?n" using assms(1) pos by (intro sum_list_pos_int) auto
  have cum: "cumulate 0 (map weight idx) = sums_from 0 (map weight idx)"
    using cumulate_sums [OF _ pos, of 0] small by simp
  have tot: "last (cumulate 0 (map weight idx)) = ?n"
    using assms(1) by (simp add: cum last_sums_from)
  define slot where "slot = fnv1a64 s mod word_of_int ?n"
  have un: "uint (word_of_int ?n :: u64) = ?n"
    using n small by (simp add: uint_word_of_int)
  then have unat_n: "unat (word_of_int ?n :: u64) = nat ?n" by (metis unat_eq_nat_uint)
  have "nat ?n = length (ring_slots idx weight)"
    using length_ring_slots [OF pos] by linarith
  then have us: "unat slot = unat (fnv1a64 s) mod length (ring_slots idx weight)"
    by (simp add: slot_def unat_mod unat_n)
  have bound: "int (unat slot) < ?n"
    using n by (metis us length_ring_slots [OF pos] mod_less_divisor of_nat_0_less_iff of_nat_less_iff)
  have "ring_scan slot (zip (sums_from 0 (map weight idx)) idx) =
        Some (ring_slots idx weight ! (unat slot - nat 0))"
    using pos small bound by (intro ring_scan_slots) auto
  moreover have "(word_of_int ?n :: u64) \<noteq> 0" using un n by auto
  ultimately show ?thesis
    using assms(1) tot cum us by (simp add: ring_pin_def ring_ref_def slot_def Let_def)
qed

lemma ring_pin_done:
  assumes "idx \<noteq> []" and "weights_ok idx weight"
  shows "ring_pin True idx weight s = Inr 0"
  using ring_pin_ref [OF assms, of s] assms(1) by (auto simp: ring_pin_def Let_def split: if_splits)

lemma ring_ref_mem:
  assumes "idx \<noteq> []" and "weights_ok idx weight"
  shows "ring_ref idx weight s \<in> set idx"
proof -
  have pos: "\<forall>i \<in> set idx. 0 < weight i" using assms(2) by (simp add: weights_ok_def)
  then have "0 < sum_list (map weight idx)" using assms(1) by (intro sum_list_pos_int) auto
  then have "0 < length (ring_slots idx weight)" using length_ring_slots [OF pos] by linarith
  then show ?thesis
    unfolding ring_ref_def set_ring_slots [OF pos, symmetric] by (intro nth_mem) simp
qed

section \<open>Round robin\<close>

lemma rr_pick_eq:
  assumes "ties \<noteq> []" "length ties < 2 ^ 64"
  shows "rr_pick ties rr = Inr (ties ! (unat (rr - 1) mod length ties))"
proof -
  have u: "unat (of_nat (length ties) :: u64) = length ties"
    using assms(2) by (simp add: unat_of_nat)
  then have "(of_nat (length ties) :: u64) \<noteq> 0" using assms(1) by auto
  with u show ?thesis by (simp add: rr_pick_def unat_mod)
qed

lemma rr_pick_mem:
  "ties \<noteq> [] \<Longrightarrow> length ties < 2 ^ 64 \<Longrightarrow> \<exists>i \<in> set ties. rr_pick ties rr = Inr i"
  by (simp add: rr_pick_eq)

lemma consecutive_mods_cover:
  assumes "0 < (n :: nat)" "k < n"
  shows "\<exists>j < n. (m + j) mod n = k"
proof -
  let ?j = "(k + (n - m mod n)) mod n"
  have "(m + ?j) mod n = (m mod n + (k + (n - m mod n))) mod n"
    by (simp add: mod_add_left_eq mod_add_right_eq)
  also have "m mod n + (k + (n - m mod n)) = k + n"
    using mod_less_divisor [OF assms(1), of m] by linarith
  finally show ?thesis using assms by (intro exI [of _ ?j]) auto
qed

text \<open>
  As many consecutive counter values as there are ties serve every tied member, as long
  as the counter does not wrap within the round.
\<close>

lemma rr_round:
  assumes "ties \<noteq> []" "length ties < 2 ^ 64" "i \<in> set ties" "unat rr + length ties < 2 ^ 64"
  shows "\<exists>j < length ties. rr_pick ties (rr + of_nat j + 1) = Inr i"
proof -
  obtain k where k: "k < length ties" "ties ! k = i" using assms(3) by (auto simp: in_set_conv_nth)
  obtain j where j: "j < length ties" "(unat rr + j) mod length ties = k"
    using consecutive_mods_cover [OF _ k(1)] assms(1) by blast
  have "unat (rr + of_nat j :: u64) = unat rr + j"
    using j(1) assms(4) by (simp add: unat_word_ariths unat_of_nat)
  then have "rr_pick ties (rr + of_nat j + 1) = Inr i"
    using assms(1,2) k(2) j(2) by (simp add: rr_pick_eq)
  with j(1) show ?thesis by blast
qed

section \<open>The contract of a pool\<close>

text \<open>
  A pool \<open>p\<close> seen by one request in a world \<open>w\<close> (clock readings, load readings, whether
  the context is done): its eligible members, their weights and the member a session id
  is pinned to. \<open>ok\<close> is the pool's well-formedness, \<open>calm\<close> says that the request is not
  cancelled while it is selected.
\<close>

locale session_ring =
  fixes ok :: "'p \<Rightarrow> bool"
    and calm :: "'w \<Rightarrow> bool"
    and elig :: "'p \<Rightarrow> 'w \<Rightarrow> nat list"
    and weight :: "'p \<Rightarrow> nat \<Rightarrow> int"
    and pin :: "'p \<Rightarrow> 'w \<Rightarrow> string \<Rightarrow> go_panic + nat"
  assumes elig_weights: "ok p \<Longrightarrow> weights_ok (elig p w) (weight p)"
    and elig_distinct: "distinct (elig p w)"
    and pin_ring: "pin p w s = ring_pin (\<not> calm w) (elig p w) (weight p) s"
begin

lemma pin_ref:
  "ok p \<Longrightarrow> calm w \<Longrightarrow> elig p w \<noteq> [] \<Longrightarrow> pin p w s = Inr (ring_ref (elig p w) (weight p) s)"
  by (simp add: pin_ring ring_pin_ref elig_weights)

lemma pin_eligible:
  "ok p \<Longrightarrow> calm w \<Longrightarrow> elig p w \<noteq> [] \<Longrightarrow> \<exists>i \<in> set (elig p w). pin p w s = Inr i"
  using ring_ref_mem elig_weights pin_ref by metis

text \<open>A session stays on its member while the same members are eligible.\<close>

lemma pin_stable:
  "calm w \<Longrightarrow> calm w' \<Longrightarrow> elig p w = elig p w' \<Longrightarrow> pin p w s = pin p w' s"
  by (simp add: pin_ring)

text \<open>Each eligible member owns exactly as many slots of the ring as its weight.\<close>

lemma pin_share:
  assumes "ok p" "i \<in> set (elig p w)"
  shows "count_list (ring_slots (elig p w) (weight p)) i = nat (weight p i)"
    and "int (length (ring_slots (elig p w) (weight p))) = sum_list (map (weight p) (elig p w))"
  using assms elig_distinct elig_weights [of p w]
  by (simp_all add: count_ring_slots length_ring_slots weights_ok_def)

end

end
