(* ===== verification/UpstreamPool.thy ===== *)
theory UpstreamPool
  imports Config Ring
begin

text \<open>
  The upstream pool of a provider (\<open>upstream-pool-handler.go\<close>, \<open>upstream-index.go\<close>,
  \<open>reselect.go\<close>) and the exported capacity of a provider (\<open>ProviderLimit\<close>). A member's
  handler is not part of the selection; what it does with a request is the outcome of an
  attempt. Clock and load readings are functions of the member read, so that two readings
  may differ.
\<close>

section \<open>Members and eligibility\<close>

record 't upstream_member =
  um_Upstream :: string
  um_Weight :: int
  um_HasInFlight :: bool
  um_Window :: "'t window option"
  um_Days :: "days option"

record 't upstream_pool =
  pool_members :: "'t upstream_member list"
  pool_windowed :: bool
  pool_rr :: u64

text \<open>
  What the construction reads: \<open>visited\<close> members are looked at before the scan observes a
  done context (all of them when it never does).
\<close>

definition has_window :: "'t upstream_member \<Rightarrow> bool" where
  "has_window m \<longleftrightarrow> um_Window m \<noteq> None \<or> um_Days m \<noteq> None"

definition NewUpstreamPoolHandler :: "nat \<Rightarrow> 't upstream_member list \<Rightarrow> 't upstream_pool" where
  "NewUpstreamPoolHandler visited members =
     \<lparr>pool_members = members, pool_windowed = list_ex has_window (take visited members),
      pool_rr = 0\<rparr>"

text \<open>The clock is read once for the window and once for the weekday set.\<close>

definition Eligible :: "'t time_api \<Rightarrow> time \<times> time \<Rightarrow> 't upstream_member \<Rightarrow> bool" where
  "Eligible api now m =
     (if um_Window m = None \<and> um_Days m = None then True
      else if (case um_Window m of Some w \<Rightarrow> \<not> Window_Contains api w (fst now) | None \<Rightarrow> False)
        then False
      else if (case um_Days m of
                 Some d \<Rightarrow> \<not> Days_Contains api d (snd now) (um_Window m) | None \<Rightarrow> False)
        then False
      else True)"

text \<open>
  One selection's readings: the clock per member, whether the eligibility scan or the
  selection scan observes a done context, and the load per member.
\<close>

record pool_world =
  pw_clock :: "nat \<Rightarrow> time \<times> time"
  pw_elig_done :: bool
  pw_scan_done :: bool
  pw_load :: "nat \<Rightarrow> int"

definition pool_eligibleIndices ::
  "'t time_api \<Rightarrow> 't upstream_pool \<Rightarrow> pool_world \<Rightarrow> nat list" where
  "pool_eligibleIndices api p w =
     (if pw_elig_done w then []
      else filter (\<lambda>i. Eligible api (pw_clock w i) (pool_members p ! i))
             [0 ..< length (pool_members p)])"

definition HasEligibleMember :: "'t time_api \<Rightarrow> 't upstream_pool \<Rightarrow> pool_world \<Rightarrow> bool" where
  "HasEligibleMember api p w \<longleftrightarrow> 0 < length (pool_eligibleIndices api p w)"

section \<open>Selection\<close>

definition pool_pinSlot ::
  "'t time_api \<Rightarrow> 't upstream_pool \<Rightarrow> pool_world \<Rightarrow> string \<Rightarrow> go_panic + nat" where
  "pool_pinSlot api p w sessionID =
     ring_pin (pw_scan_done w) (pool_eligibleIndices api p w)
       (\<lambda>i. um_Weight (pool_members p ! i)) sessionID"

definition pool_inFlight :: "'t upstream_pool \<Rightarrow> pool_world \<Rightarrow> nat \<Rightarrow> int" where
  "pool_inFlight p w i = (if um_HasInFlight (pool_members p ! i) then pw_load w i else 0)"

definition minimum :: "int list \<Rightarrow> int" where
  "minimum loads = foldl (\<lambda>m load. if load < m then load else m) (hd loads) (tl loads)"

definition pool_leastLoaded ::
  "'t time_api \<Rightarrow> 't upstream_pool \<Rightarrow> pool_world \<Rightarrow> 't upstream_pool \<times> (go_panic + nat)" where
  "pool_leastLoaded api p w =
     (let idx = pool_eligibleIndices api p w
      in if idx = [] then (p, Inr 0)
         else if pw_scan_done w then (p, Inr 0)
         else
           (let loads = map (pool_inFlight p w) idx;
                ties = map snd (filter (\<lambda>(load, i). load = minimum loads) (zip loads idx));
                rr = pool_rr p + 1
            in (p\<lparr>pool_rr := rr\<rparr>, rr_pick ties rr)))"

definition selectMember ::
  "'t time_api \<Rightarrow> 't upstream_pool \<Rightarrow> pool_world \<Rightarrow> string \<Rightarrow> 't upstream_pool \<times> (go_panic + nat)"
where
  "selectMember api p w sessionID =
     (if sessionID \<noteq> [] then (p, pool_pinSlot api p w sessionID) else pool_leastLoaded api p w)"

section \<open>Dispatch\<close>

record upstream_index_slot =
  slot_index :: nat
  slot_selected :: bool

definition memberLabel :: "upstream_index_slot \<Rightarrow> string" where
  "memberLabel s = (if \<not> slot_selected s then ''-'' else itoa (int (slot_index s)))"

text \<open>
  The environment of one turn of the loop: whether the client is gone, the readings of the
  first eligibility scan and of the selection, and the readings of each staleness check
  the member's limiter makes while the request waits for its slot. The limiter hands the
  request back as soon as a check is stale.
\<close>

record attempt =
  at_gone :: bool
  at_before :: pool_world
  at_select :: pool_world
  at_rechecks :: "pool_world list"

datatype pool_outcome = ClientGone | ServedBy nat | PoolPanic go_panic | StillTrying

definition stale :: "'t time_api \<Rightarrow> 't upstream_pool \<Rightarrow> nat list \<Rightarrow> pool_world \<Rightarrow> bool" where
  "stale api p eligible w \<longleftrightarrow> pool_eligibleIndices api p w \<noteq> eligible"

definition bounced :: "'t time_api \<Rightarrow> 't upstream_pool \<Rightarrow> attempt \<Rightarrow> bool" where
  "bounced api p a \<longleftrightarrow>
     pool_windowed p \<and> list_ex (stale api p (pool_eligibleIndices api p (at_before a))) (at_rechecks a)"

fun pool_ServeHTTP :: "'t time_api \<Rightarrow> 't upstream_pool \<Rightarrow> string \<Rightarrow> upstream_index_slot \<Rightarrow>
    attempt list \<Rightarrow> 't upstream_pool \<times> upstream_index_slot \<times> pool_outcome" where
  "pool_ServeHTTP api p sessionID slot [] = (p, slot, StillTrying)"
| "pool_ServeHTTP api p sessionID slot (a # as) =
     (if at_gone a then (p, slot, ClientGone)
      else case selectMember api p (at_select a) sessionID of
        (p', Inl e) \<Rightarrow> (p', slot, PoolPanic e)
      | (p', Inr i) \<Rightarrow>
          (let slot' = \<lparr>slot_index = i, slot_selected = True\<rparr>
           in if \<not> i < length (pool_members p') then (p', slot', PoolPanic IndexOutOfRange)
              else if bounced api p' a then pool_ServeHTTP api p' sessionID slot' as
              else (p', slot', ServedBy i)))"

section \<open>The exported capacity\<close>

text \<open>\<open>None\<close> is positive infinity.\<close>

fun limit_scan :: "(bool \<times> int option) list \<Rightarrow> nat \<Rightarrow> int \<Rightarrow> (nat \<times> int) option" where
  "limit_scan [] eligible limit = Some (eligible, limit)"
| "limit_scan ((elig, cap) # rest) eligible limit =
     (if \<not> elig then limit_scan rest eligible limit
      else case cap of
        None \<Rightarrow> None
      | Some c \<Rightarrow> if c \<le> 0 then None else limit_scan rest (eligible + 1) (limit + c))"

definition ProviderLimit ::
  "'t time_api \<Rightarrow> (nat \<Rightarrow> time \<times> time) \<Rightarrow> 't upstream_member list \<Rightarrow> int list \<Rightarrow> int option" where
  "ProviderLimit api clock members caps =
     (case limit_scan
             (map (\<lambda>i. (Eligible api (clock i) (members ! i),
                        if i < length caps then Some (caps ! i) else None))
                  [0 ..< length members]) 0 0 of
        None \<Rightarrow> None
      | Some (eligible, limit) \<Rightarrow>
          if eligible = 0 \<and> members \<noteq> [] then
            (if caps = [] \<or> hd caps \<le> 0 then None else Some (hd caps))
          else Some limit)"

section \<open>The pool as a session ring\<close>

definition wf_upstream_pool :: "'t upstream_pool \<Rightarrow> bool" where
  "wf_upstream_pool p \<longleftrightarrow>
     pool_members p \<noteq> [] \<and> length (pool_members p) < 2 ^ 64 \<and>
     (\<forall>m \<in> set (pool_members p). 0 < um_Weight m) \<and>
     sum_list (map um_Weight (pool_members p)) < 2 ^ 63"

definition pool_calm :: "pool_world \<Rightarrow> bool" where
  "pool_calm w \<longleftrightarrow> \<not> pw_scan_done w"

lemma sum_list_filter_le:
  "\<forall>i \<in> set xs. 0 < (f i :: int) \<Longrightarrow> sum_list (map f (filter P xs)) \<le> sum_list (map f xs)"
  by (induction xs) auto

lemma weights_ok_filter:
  assumes "\<forall>m \<in> set ms. 0 < f m" "sum_list (map f ms) < 2 ^ 63"
  shows "weights_ok (filter P [0 ..< length ms]) (\<lambda>i. f (ms ! i))"
proof -
  have eq: "map (\<lambda>i. f (ms ! i)) [0 ..< length ms] = map f ms"
    by (rule nth_equalityI) auto
  have "\<forall>i \<in> set [0 ..< length ms]. 0 < f (ms ! i)" using assms(1) by simp
  then have "sum_list (map (\<lambda>i. f (ms ! i)) (filter P [0 ..< length ms])) < 2 ^ 63"
    using sum_list_filter_le [of "[0 ..< length ms]" "\<lambda>i. f (ms ! i)" P] assms(2)
    by (simp add: eq)
  then show ?thesis using assms(1) by (simp add: weights_ok_def)
qed

lemma pool_weights_ok:
  assumes "wf_upstream_pool p"
  shows "weights_ok (pool_eligibleIndices api p w) (\<lambda>i. um_Weight (pool_members p ! i))"
proof (cases "pw_elig_done w")
  case True
  then show ?thesis by (simp add: pool_eligibleIndices_def weights_ok_def)
next
  case False
  have "\<forall>m \<in> set (pool_members p). 0 < um_Weight m"
    "sum_list (map um_Weight (pool_members p)) < 2 ^ 63"
    using assms unfolding wf_upstream_pool_def by blast+
  with False show ?thesis
    unfolding pool_eligibleIndices_def by (simp only: if_False weights_ok_filter)
qed

interpretation upool: session_ring wf_upstream_pool pool_calm "pool_eligibleIndices api"
  "\<lambda>p i. um_Weight (pool_members p ! i)" "pool_pinSlot api" for api
  by unfold_locales
     (erule pool_weights_ok, simp add: pool_eligibleIndices_def,
      simp add: pool_pinSlot_def pool_calm_def)

section \<open>Least-loaded selection\<close>

lemma minimum_fold:
  "(foldl (\<lambda>m l. if l < m then l else m) x xs :: int) \<in> set (x # xs) \<and>
   (\<forall>y \<in> set (x # xs). foldl (\<lambda>m l. if l < m then l else m) x xs \<le> y)"
proof (induction xs arbitrary: x)
  case (Cons a xs)
  show ?case using Cons.IH [of "if a < x then a else x"] by (auto split: if_splits)
qed simp

lemma minimum_mem: "loads \<noteq> [] \<Longrightarrow> minimum loads \<in> set loads"
  using minimum_fold [of "hd loads" "tl loads"] by (simp add: minimum_def)

lemma minimum_le: "y \<in> set loads \<Longrightarrow> minimum loads \<le> y"
  using minimum_fold [of "hd loads" "tl loads"] by (cases loads) (auto simp: minimum_def)

text \<open>The tied members: the eligible ones with minimal load, in declaration order.\<close>

definition pool_ties :: "'t time_api \<Rightarrow> 't upstream_pool \<Rightarrow> pool_world \<Rightarrow> nat list" where
  "pool_ties api p w =
     (let idx = pool_eligibleIndices api p w
      in filter (\<lambda>i. \<forall>j \<in> set idx. pool_inFlight p w i \<le> pool_inFlight p w j) idx)"

lemma ties_snapshot:
  "map snd (filter (\<lambda>(load, i). load = m) (zip (map f idx) idx)) = filter (\<lambda>i. f i = m) idx"
  by (induction idx) auto

lemma minimum_eq_iff:
  "i \<in> set idx \<Longrightarrow> f i = minimum (map f idx) \<longleftrightarrow> (\<forall>j \<in> set idx. f i \<le> f j)"
proof
  assume i: "i \<in> set idx" and le: "\<forall>j \<in> set idx. f i \<le> f j"
  then obtain j where "j \<in> set idx" "minimum (map f idx) = f j"
    using minimum_mem [of "map f idx"] by (cases "idx = []") auto
  moreover have "minimum (map f idx) \<le> f i" using i by (intro minimum_le) auto
  ultimately show "f i = minimum (map f idx)" using le by (metis antisym)
qed (auto intro!: minimum_le)

lemma pool_leastLoaded_ties:
  assumes "\<not> pw_scan_done w" "pool_eligibleIndices api p w \<noteq> []"
  shows "pool_leastLoaded api p w =
    (p\<lparr>pool_rr := pool_rr p + 1\<rparr>, rr_pick (pool_ties api p w) (pool_rr p + 1))"
proof -
  have "filter (\<lambda>i. f i = minimum (map f idx)) idx = filter (\<lambda>i. \<forall>j \<in> set idx. f i \<le> f j) idx"
    for f :: "nat \<Rightarrow> int" and idx
    by (rule filter_cong [OF refl minimum_eq_iff])
  then show ?thesis
    using assms by (simp add: pool_leastLoaded_def pool_ties_def ties_snapshot Let_def)
qed

lemma pool_ties_ne:
  assumes "pool_eligibleIndices api p w \<noteq> []"
  shows "pool_ties api p w \<noteq> []"
proof -
  let ?idx = "pool_eligibleIndices api p w"
  obtain i where "i \<in> set ?idx" "pool_inFlight p w i = minimum (map (pool_inFlight p w) ?idx)"
    using minimum_mem [of "map (pool_inFlight p w) ?idx"] assms by (auto simp: image_iff)
  then have "i \<in> set (pool_ties api p w)"
    using minimum_eq_iff [of i ?idx "pool_inFlight p w"] by (simp add: pool_ties_def Let_def)
  then show ?thesis by auto
qed

lemma elig_subset: "set (pool_eligibleIndices api p w) \<subseteq> {i. i < length (pool_members p)}"
  by (auto simp: pool_eligibleIndices_def)

lemma pool_ties_subset: "set (pool_ties api p w) \<subseteq> set (pool_eligibleIndices api p w)"
  by (auto simp: pool_ties_def Let_def)

lemma pool_ties_length: "length (pool_ties api p w) \<le> length (pool_members p)"
proof -
  have "length (pool_eligibleIndices api p w) \<le> length (pool_members p)"
    by (auto simp: pool_eligibleIndices_def intro: order.trans [OF length_filter_le])
  then show ?thesis
    by (auto simp: pool_ties_def Let_def intro: order.trans [OF length_filter_le])
qed

lemma rr_irrelevant [simp]:
  "pool_eligibleIndices api (p\<lparr>pool_rr := r\<rparr>) w = pool_eligibleIndices api p w"
  "pool_inFlight (p\<lparr>pool_rr := r\<rparr>) w = pool_inFlight p w"
  "pool_ties api (p\<lparr>pool_rr := r\<rparr>) w = pool_ties api p w"
  "bounced api (p\<lparr>pool_rr := r\<rparr>) a = bounced api p a"
  "wf_upstream_pool (p\<lparr>pool_rr := r\<rparr>) = wf_upstream_pool p"
proof -
  show e: "pool_eligibleIndices api (p\<lparr>pool_rr := r\<rparr>) w = pool_eligibleIndices api p w" for w
    by (simp add: pool_eligibleIndices_def)
  show f: "pool_inFlight (p\<lparr>pool_rr := r\<rparr>) w = pool_inFlight p w"
    by (simp add: pool_inFlight_def fun_eq_iff)
  show "pool_ties api (p\<lparr>pool_rr := r\<rparr>) w = pool_ties api p w"
    by (simp add: pool_ties_def e f)
  show "bounced api (p\<lparr>pool_rr := r\<rparr>) a = bounced api p a"
    by (simp add: bounced_def stale_def [abs_def] e)
  show "wf_upstream_pool (p\<lparr>pool_rr := r\<rparr>) = wf_upstream_pool p"
    by (simp add: wf_upstream_pool_def)
qed

lemma wf_pool_length: "wf_upstream_pool p \<Longrightarrow> length (pool_members p) < 2 ^ 64"
  unfolding wf_upstream_pool_def by blast

lemma ties_length_bound: "wf_upstream_pool p \<Longrightarrow> length (pool_ties api p w) < 2 ^ 64"
  using wf_pool_length pool_ties_length [of api p w] by (rule le_less_trans [rotated])

lemma leastLoaded_tied:
  assumes "wf_upstream_pool p" "pool_calm w" "pool_eligibleIndices api p w \<noteq> []"
  shows "\<exists>i \<in> set (pool_ties api p w).
    pool_leastLoaded api p w = (p\<lparr>pool_rr := pool_rr p + 1\<rparr>, Inr i)"
  using assms pool_leastLoaded_ties [of w api p] rr_pick_mem [OF pool_ties_ne ties_length_bound]
  by (auto simp: pool_calm_def)

lemma selectMember_eligible:
  assumes "wf_upstream_pool p" "pool_calm w" "pool_eligibleIndices api p w \<noteq> []"
  obtains r i where "selectMember api p w s = (p\<lparr>pool_rr := r\<rparr>, Inr i)"
    "i \<in> set (pool_eligibleIndices api p w)"
proof (cases "s = []")
  case True
  with leastLoaded_tied [OF assms] pool_ties_subset [of api p w] that show thesis
    by (auto simp: selectMember_def)
next
  case False
  moreover obtain i where "i \<in> set (pool_eligibleIndices api p w)" "pool_pinSlot api p w s = Inr i"
    using upool.pin_eligible [OF assms] by blast
  ultimately show thesis using that [of "pool_rr p" i] by (simp add: selectMember_def)
qed

text \<open>
  Selection in every world: with nothing eligible, or when the scan finds the context done, it falls
  back to member 0.
\<close>

lemma selectMember_total:
  assumes "wf_upstream_pool p"
  obtains r i where "selectMember api p w s = (p\<lparr>pool_rr := r\<rparr>, Inr i)"
    "if pool_eligibleIndices api p w = [] \<or> pw_scan_done w then i = 0
     else i \<in> set (pool_eligibleIndices api p w)"
proof (cases "pool_eligibleIndices api p w = [] \<or> pw_scan_done w")
  case True
  have "pool_pinSlot api p w s = Inr 0"
    using True ring_pin_done [OF _ pool_weights_ok [OF assms, of api w], of s]
    by (cases "pool_eligibleIndices api p w = []") (auto simp: pool_pinSlot_def ring_pin_def)
  then have "selectMember api p w s = (p\<lparr>pool_rr := pool_rr p\<rparr>, Inr 0)"
    using True by (auto simp: selectMember_def pool_leastLoaded_def Let_def)
  with True show thesis by (intro that [of "pool_rr p" 0]) simp_all
next
  case False
  then have "pool_calm w" by (simp add: pool_calm_def)
  from selectMember_eligible [OF assms this] False that show thesis by (metis (full_types))
qed

section \<open>Examples\<close>

definition ex_member :: "int \<Rightarrow> ex_tod upstream_member" where
  "ex_member weight = \<lparr>um_Upstream = ''u'', um_Weight = weight, um_HasInFlight = True,
     um_Window = None, um_Days = None\<rparr>"

text \<open>A day and a night member beside one that is always eligible.\<close>

definition ex_pool :: "ex_tod upstream_pool" where
  "ex_pool = NewUpstreamPoolHandler 3
     [ex_member 3, (ex_member 1)\<lparr>um_Window := Some ex_night\<rparr>, ex_member 2]"

definition ex_noon :: time where "ex_noon = 12 * 3600 * second_ns"

definition ex_world :: pool_world where
  "ex_world = \<lparr>pw_clock = (\<lambda>i. (ex_noon, ex_noon)), pw_elig_done = False, pw_scan_done = False,
     pw_load = (\<lambda>i. if i = 0 then 4 else 1)\<rparr>"

lemma ex_pool_noon: "pool_eligibleIndices ex_api ex_pool ex_world = [0, 2]"
  by (simp add: pool_eligibleIndices_def ex_pool_def NewUpstreamPoolHandler_def ex_world_def
        Eligible_def ex_member_def Window_Contains_def ex_night_def ex_hour_def ex_api_def
        ex_noon_def or_else_def utc_def second_ns_def numeral_3_eq_3 has_window_def)

lemma ex_pool_wf: "wf_upstream_pool ex_pool" "pool_calm ex_world"
  by (simp_all add: wf_upstream_pool_def ex_pool_def NewUpstreamPoolHandler_def ex_member_def
        pool_calm_def ex_world_def)

section \<open>Properties\<close>

text \<open>
  C11. A request with a session id goes to the member that owns its slot on the weighted
  ring of the currently eligible members: the selection is the reference ring at the
  FNV-1a hash of the id, the chosen member is eligible, the pool is unchanged, and each
  eligible member owns exactly as many slots as its weight.
\<close>

theorem pinned_member_is_ring_slot:
  assumes "wf_upstream_pool p" "pool_calm w" "pool_eligibleIndices api p w \<noteq> []" "s \<noteq> []"
  shows "selectMember api p w s =
           (p, Inr (ring_ref (pool_eligibleIndices api p w) (\<lambda>i. um_Weight (pool_members p ! i)) s)) \<and>
         ring_ref (pool_eligibleIndices api p w) (\<lambda>i. um_Weight (pool_members p ! i)) s
           \<in> set (pool_eligibleIndices api p w) \<and>
         (\<forall>i \<in> set (pool_eligibleIndices api p w).
            count_list (ring_slots (pool_eligibleIndices api p w)
              (\<lambda>i. um_Weight (pool_members p ! i))) i = nat (um_Weight (pool_members p ! i)))"
  using assms upool.pin_ref [of p w api s] ring_ref_mem [OF assms(3) pool_weights_ok]
    upool.pin_share(1) [of p _ api w]
  by (simp add: selectMember_def)

theorem pinned_member_is_ring_slot_witness:
  "selectMember ex_api ex_pool ex_world ''s'' =
     (ex_pool, Inr (ring_ref [0, 2] (\<lambda>i. um_Weight (pool_members ex_pool ! i)) ''s''))"
  using pinned_member_is_ring_slot [of ex_pool ex_world ex_api "''s''"] ex_pool_wf ex_pool_noon
  by simp

text \<open>
  C28. Where a request without a session id goes: to an eligible member whose load is minimal among
  the eligible members; only when no member is eligible, or when its context is done, to member 0.
  The pool never panics, and only the round-robin counter changes.
\<close>

theorem keyless_goes_to_least_loaded:
  assumes "wf_upstream_pool p"
  shows "if pool_eligibleIndices api p w = [] \<or> pw_scan_done w then selectMember api p w [] = (p, Inr 0)
    else \<exists>i \<in> set (pool_eligibleIndices api p w).
           selectMember api p w [] = (p\<lparr>pool_rr := pool_rr p + 1\<rparr>, Inr i) \<and>
           (\<forall>j \<in> set (pool_eligibleIndices api p w). pool_inFlight p w i \<le> pool_inFlight p w j)"
proof (cases "pool_eligibleIndices api p w = [] \<or> pw_scan_done w")
  case False
  then have "pool_calm w" "pool_eligibleIndices api p w \<noteq> []" by (simp_all add: pool_calm_def)
  from leastLoaded_tied [OF assms this] False show ?thesis by (auto simp: selectMember_def pool_ties_def Let_def)
qed (auto simp: selectMember_def pool_leastLoaded_def Let_def)

theorem keyless_goes_to_least_loaded_witness:
  "\<exists>i \<in> {0, 2}. selectMember ex_api ex_pool ex_world [] = (ex_pool\<lparr>pool_rr := 1\<rparr>, Inr i) \<and>
     pool_inFlight ex_pool ex_world i \<le> 1"
  using keyless_goes_to_least_loaded [of ex_pool ex_api ex_world] ex_pool_wf
  unfolding ex_pool_noon
  by (auto simp: pool_calm_def ex_pool_def NewUpstreamPoolHandler_def pool_inFlight_def ex_member_def
        ex_world_def numeral_2_eq_2)

text \<open>
  Ties are broken round-robin: as many consecutive requests without a session id as
  there are least-loaded members reach every one of them, as long as the loads stand still
  and the 64-bit counter does not wrap within the round.
\<close>

theorem round_robin_reaches_every_tie:
  assumes "wf_upstream_pool p" "pool_calm w" "i \<in> set (pool_eligibleIndices api p w)"
    and "\<forall>j \<in> set (pool_eligibleIndices api p w). pool_inFlight p w i \<le> pool_inFlight p w j"
    and "unat (pool_rr p) + length (pool_members p) < 2 ^ 64"
  shows "\<exists>k < length (pool_members p).
           snd (selectMember api (p\<lparr>pool_rr := pool_rr p + of_nat k\<rparr>) w []) = Inr i"
proof -
  have ne: "pool_eligibleIndices api p w \<noteq> []" and tied: "i \<in> set (pool_ties api p w)"
    using assms(3,4) by (auto simp: pool_ties_def Let_def)
  have "unat (pool_rr p) + length (pool_ties api p w) < 2 ^ 64"
    using assms(5) pool_ties_length [of api p w] by linarith
  then obtain k where "k < length (pool_ties api p w)"
    "rr_pick (pool_ties api p w) (pool_rr p + of_nat k + 1) = Inr i"
    using rr_round [OF pool_ties_ne [OF ne] ties_length_bound [OF assms(1)] tied] by blast
  then show ?thesis
    using pool_ties_length [of api p w] assms(2) ne
    by (intro exI [of _ k]) (auto simp: selectMember_def pool_leastLoaded_ties pool_calm_def)
qed

theorem round_robin_reaches_every_tie_witness:
  "\<exists>k < 3. snd (selectMember ex_api (ex_pool\<lparr>pool_rr := of_nat k\<rparr>) ex_world []) = Inr 2"
  using round_robin_reaches_every_tie [of ex_pool ex_world 2 ex_api] ex_pool_wf
  unfolding ex_pool_noon
  by (simp add: ex_pool_def NewUpstreamPoolHandler_def pool_inFlight_def ex_member_def
        ex_world_def numeral_3_eq_3)

text \<open>
  C29. A request the pool serves is served by the member the last turn of the loop selected: one that
  was eligible at that selection, or member 0 when none was eligible or the context was done. The turn
  was not handed back, and the index published for the router's log line is that member; a request
  handed back in one turn is selected again from the members eligible in the next.
\<close>

theorem served_member_was_eligible:
  assumes "wf_upstream_pool p"
    and "pool_ServeHTTP api p s slot as = (p', slot', ServedBy i)"
  shows "\<exists>a \<in> set as. \<not> at_gone a \<and> \<not> bounced api p a \<and>
           (if pool_eligibleIndices api p (at_select a) = [] \<or> pw_scan_done (at_select a) then i = 0
            else i \<in> set (pool_eligibleIndices api p (at_select a))) \<and>
           slot' = \<lparr>slot_index = i, slot_selected = True\<rparr> \<and> memberLabel slot' = itoa (int i)"
  using assms
proof (induction as arbitrary: p slot)
  case (Cons a as)
  from Cons.prems(2) have alive: "\<not> at_gone a" by (auto split: if_splits)
  obtain r j where sel: "selectMember api p (at_select a) s = (p\<lparr>pool_rr := r\<rparr>, Inr j)"
    and j: "if pool_eligibleIndices api p (at_select a) = [] \<or> pw_scan_done (at_select a) then j = 0
       else j \<in> set (pool_eligibleIndices api p (at_select a))"
    using selectMember_total [OF Cons.prems(1)] by blast
  have "j < length (pool_members p)"
    using j elig_subset [of api p] Cons.prems(1) by (auto simp: wf_upstream_pool_def split: if_splits)
  note step = Cons.prems(2) [unfolded pool_ServeHTTP.simps sel Let_def] this alive
  show ?case
  proof (cases "bounced api p a")
    case True
    with step have "pool_ServeHTTP api (p\<lparr>pool_rr := r\<rparr>) s \<lparr>slot_index = j, slot_selected = True\<rparr> as
      = (p', slot', ServedBy i)" by simp
    from Cons.IH [OF _ this] Cons.prems(1) show ?thesis by auto
  next
    case False
    with step j show ?thesis by (auto simp: memberLabel_def)
  qed
qed simp

definition ex_attempts :: "attempt list" where
  "ex_attempts =
     [\<lparr>at_gone = False, at_before = ex_world, at_select = ex_world,
       at_rechecks = [ex_world, ex_world\<lparr>pw_clock := (\<lambda>i. (0, 0))\<rparr>]\<rparr>,
      \<lparr>at_gone = False, at_before = ex_world\<lparr>pw_clock := (\<lambda>i. (0, 0))\<rparr>,
       at_select = ex_world\<lparr>pw_clock := (\<lambda>i. (0, 0))\<rparr>, at_rechecks = []\<rparr>]"

lemma ex_pool_midnight:
  "pool_eligibleIndices ex_api ex_pool (ex_world\<lparr>pw_clock := (\<lambda>i. (0, 0))\<rparr>) = [0, 1, 2]"
  by (simp add: pool_eligibleIndices_def ex_pool_def NewUpstreamPoolHandler_def ex_world_def
        Eligible_def ex_member_def Window_Contains_def ex_night_def ex_hour_def ex_api_def
        ex_noon_def or_else_def utc_def second_ns_def numeral_3_eq_3 has_window_def)

lemma ex_bounced:
  "bounced ex_api ex_pool (hd ex_attempts)" "\<not> bounced ex_api ex_pool (ex_attempts ! 1)"
  by (simp_all add: bounced_def stale_def ex_attempts_def ex_pool_noon ex_pool_midnight)
     (simp add: ex_pool_def NewUpstreamPoolHandler_def ex_member_def has_window_def numeral_3_eq_3)

lemma ex_select:
  "selectMember ex_api ex_pool ex_world [] = (ex_pool\<lparr>pool_rr := 1\<rparr>, Inr 2)"
  "selectMember ex_api (ex_pool\<lparr>pool_rr := 1\<rparr>) (ex_world\<lparr>pw_clock := (\<lambda>i. (0, 0))\<rparr>) [] =
     (ex_pool\<lparr>pool_rr := 2\<rparr>, Inr 2)"
proof -
  have load: "pool_inFlight ex_pool ex_world i = (if i = 0 then 4 else 1)" if "i < 3" for i
    using that by (auto simp: pool_inFlight_def ex_pool_def NewUpstreamPoolHandler_def
        ex_member_def ex_world_def less_Suc_eq numeral_3_eq_3)
  have load': "pool_inFlight ex_pool (ex_world\<lparr>pw_clock := c\<rparr>) = pool_inFlight ex_pool ex_world" for c
    by (simp add: pool_inFlight_def fun_eq_iff)
  have c: "\<not> pw_scan_done ex_world" by (simp add: ex_world_def)
  have rr: "pool_rr ex_pool = 0" by (simp add: ex_pool_def NewUpstreamPoolHandler_def)
  have t: "pool_ties ex_api ex_pool ex_world = [2]"
    "pool_ties ex_api ex_pool (ex_world\<lparr>pw_clock := (\<lambda>i. (0, 0))\<rparr>) = [1, 2]"
    by (simp_all add: pool_ties_def ex_pool_noon ex_pool_midnight load load')
  show "selectMember ex_api ex_pool ex_world [] = (ex_pool\<lparr>pool_rr := 1\<rparr>, Inr 2)"
    by (simp add: selectMember_def pool_leastLoaded_ties c ex_pool_noon t rr rr_pick_def)
  show "selectMember ex_api (ex_pool\<lparr>pool_rr := 1\<rparr>) (ex_world\<lparr>pw_clock := (\<lambda>i. (0, 0))\<rparr>) [] =
     (ex_pool\<lparr>pool_rr := 2\<rparr>, Inr 2)"
    by (simp add: selectMember_def pool_leastLoaded_ties c ex_pool_midnight t rr_pick_eq)
qed

lemma ex_pool_serve:
  "pool_ServeHTTP ex_api ex_pool [] slot ex_attempts =
     (ex_pool\<lparr>pool_rr := 2\<rparr>, \<lparr>slot_index = 2, slot_selected = True\<rparr>, ServedBy 2)"
proof -
  have len: "length (pool_members ex_pool) = 3"
    by (simp add: ex_pool_def NewUpstreamPoolHandler_def)
  show ?thesis
    using ex_bounced by (simp add: ex_attempts_def ex_select len)
qed

theorem served_member_was_eligible_witness:
  "\<exists>a \<in> set ex_attempts. \<not> bounced ex_api ex_pool a \<and>
     2 \<in> set (pool_eligibleIndices ex_api ex_pool (at_select a))"
  using served_member_was_eligible [OF ex_pool_wf(1) ex_pool_serve] ex_pool_wf
  by (fastforce simp: ex_attempts_def ex_pool_noon ex_pool_midnight pool_calm_def)

definition uncapped :: "int option \<Rightarrow> bool" where
  "uncapped cap \<longleftrightarrow> (case cap of None \<Rightarrow> True | Some c \<Rightarrow> c \<le> 0)"

lemma limit_scan_sum:
  "limit_scan es n l =
     (if list_ex (\<lambda>e. fst e \<and> uncapped (snd e)) es then None
      else Some (n + length (filter fst es), l + sum_list (map (the \<circ> snd) (filter fst es))))"
proof (induction es arbitrary: n l)
  case (Cons e es)
  obtain elig cap where e: "e = (elig, cap)" by (cases e)
  show ?case
  proof (cases "elig \<and> uncapped cap")
    case True
    then show ?thesis by (cases cap) (simp_all add: e uncapped_def)
  next
    case False
    with Cons.IH [of n l] Cons.IH [of "n + 1" "l + the cap"] show ?thesis
      by (cases elig; cases cap) (simp_all add: e uncapped_def)
  qed
qed simp

text \<open>
  The exported capacity of a provider is computed from the members that selection would
  use: when at least one member is eligible it is the sum of the eligible members' caps,
  and it is infinite exactly when an eligible member has no positive cap.
\<close>

theorem limit_matches_selection:
  assumes "\<not> pw_elig_done w" "pool_eligibleIndices api p w \<noteq> []"
    and "length caps = length (pool_members p)"
  shows "ProviderLimit api (pw_clock w) (pool_members p) caps =
           (if \<exists>i \<in> set (pool_eligibleIndices api p w). caps ! i \<le> 0 then None
            else Some (sum_list (map ((!) caps) (pool_eligibleIndices api p w))))"
proof -
  let ?n = "length (pool_members p)"
  let ?E = "\<lambda>i. Eligible api (pw_clock w i) (pool_members p ! i)"
  let ?f = "\<lambda>i. (?E i, if i < length caps then Some (caps ! i) else None)"
  have idx: "pool_eligibleIndices api p w = filter ?E [0 ..< ?n]"
    using assms(1) by (simp add: pool_eligibleIndices_def)
  have fil: "filter fst (map ?f [0 ..< ?n]) = map ?f (filter ?E [0 ..< ?n])"
    by (simp add: filter_map comp_def)
  have none: "list_ex (\<lambda>e. fst e \<and> uncapped (snd e)) (map ?f [0 ..< ?n])
      \<longleftrightarrow> (\<exists>i \<in> set (filter ?E [0 ..< ?n]). caps ! i \<le> 0)"
    using assms(3) by (auto simp: list_ex_iff uncapped_def)
  have sums: "sum_list (map (the \<circ> snd) (map ?f (filter ?E [0 ..< ?n]))) =
      sum_list (map ((!) caps) (filter ?E [0 ..< ?n]))"
    unfolding map_map using assms(3) by (intro arg_cong [where f = sum_list] map_cong) auto
  have "length (map ?f (filter ?E [0 ..< ?n])) \<noteq> 0"
    using assms(2) unfolding idx by simp
  then show ?thesis
    unfolding ProviderLimit_def limit_scan_sum none fil sums idx by (simp only: split: if_split) simp
qed

theorem limit_matches_selection_witness:
  "ProviderLimit ex_api (pw_clock ex_world) (pool_members ex_pool) [5, 0, 7] = Some 12"
  using limit_matches_selection [of ex_world ex_api ex_pool "[5, 0, 7]"] ex_pool_noon
  by (simp add: ex_world_def) (simp add: ex_pool_def NewUpstreamPoolHandler_def)

section \<open>Weights that overflow\<close>


definition huge_pool :: "ex_tod upstream_pool" where
  "huge_pool = NewUpstreamPoolHandler 3
     [ex_member (2 ^ 63 - 1), ex_member (2 ^ 63 - 1), ex_member 2]"

lemma huge_total: "cumulate 0 [2 ^ 63 - 1, 2 ^ 63 - 1, 2] = [2 ^ 63 - 1, -2, 0]"
  by (simp add: wrap64_def)

text \<open>
  Weights have no upper bound, so their total can wrap to zero: in a pool of three
  always-eligible members with two maximal weights and a weight of 2, every request with a
  session id divides by zero.
\<close>

theorem huge_weights_panic:
  "pool_pinSlot api huge_pool (ex_world\<lparr>pw_clock := clock\<rparr>) s = Inl DivideByZero"
proof -
  have "pool_eligibleIndices api huge_pool (ex_world\<lparr>pw_clock := clock\<rparr>) = [0, 1, 2]"
    by (simp add: pool_eligibleIndices_def huge_pool_def NewUpstreamPoolHandler_def ex_world_def
        Eligible_def ex_member_def numeral_3_eq_3)
  moreover have "map (\<lambda>i. um_Weight (pool_members huge_pool ! i)) [0, 1, 2] =
      [2 ^ 63 - 1, 2 ^ 63 - 1, 2]"
    by (simp add: huge_pool_def NewUpstreamPoolHandler_def ex_member_def numeral_2_eq_2)
  ultimately show ?thesis
    unfolding pool_pinSlot_def ring_pin_def using huge_total by (simp only: Let_def) simp
qed

section \<open>Handlers seen by the window check\<close>

text \<open>
  The dynamic types a provider's handler may have after the factory's wiring. Only the
  pool implements \<open>HasEligibleMember\<close>; the type assertion of \<open>windowEligible\<close> fails on
  every other handler.
\<close>

datatype 't http_handler =
    PoolHandler "'t upstream_pool"
  | ColdStartHandler "'t http_handler"
  | ThrottleHandler "'t http_handler"
  | BreakerHandler "'t http_handler"

definition windowEligible :: "'t time_api \<Rightarrow> pool_world \<Rightarrow> 't http_handler \<Rightarrow> bool" where
  "windowEligible api w h = (case h of PoolHandler p \<Rightarrow> HasEligibleMember api p w | _ \<Rightarrow> True)"

end
