(* ===== verification/ModelPool.thy ===== *)
theory ModelPool
  imports UpstreamPool
begin

text \<open>
  Model pools (\<open>model-pool.go\<close>): a pool name stands for several provider/model pairs; a
  session is pinned to one of them, a request without a session id goes to the least
  loaded one, and a saturated member may overflow to a sibling. A load is a live gauge:
  \<open>leastLoaded\<close> reads it twice, once for the minimum and once for the ties, so the model
  has two readings.
\<close>

section \<open>The code\<close>

record 't model_member =
  mm_Provider :: string
  mm_Model :: string
  mm_Weight :: int
  mm_Overflow :: bool
  mm_Handler :: "'t http_handler"
  mm_HasInFlight :: bool
  mm_HasSaturated :: bool

record 't model_pool =
  mp_members :: "'t model_member list"
  mp_rr :: u64

text \<open>\<open>None\<close> is the nil pool returned when the context is done while the members are visited.\<close>

definition NewModelPool :: "bool \<Rightarrow> 't model_member list \<Rightarrow> 't model_pool option" where
  "NewModelPool seen_done members =
     (if seen_done \<and> members \<noteq> [] then None else Some \<lparr>mp_members = members, mp_rr = 0\<rparr>)"

record model_world =
  mw_handler :: "nat \<Rightarrow> pool_world"
  mw_elig_done :: bool
  mw_scan_done :: bool
  mw_load_min :: "nat \<Rightarrow> int"
  mw_load_tie :: "nat \<Rightarrow> int"

definition mp_memberEligible :: "'t time_api \<Rightarrow> 't model_pool \<Rightarrow> model_world \<Rightarrow> nat \<Rightarrow> bool" where
  "mp_memberEligible api p w i = windowEligible api (mw_handler w i) (mm_Handler (mp_members p ! i))"

definition mp_eligibleIndices :: "'t time_api \<Rightarrow> 't model_pool \<Rightarrow> model_world \<Rightarrow> nat list" where
  "mp_eligibleIndices api p w =
     (if mw_elig_done w then []
      else filter (mp_memberEligible api p w) [0 ..< length (mp_members p)])"

definition mp_pinSlot ::
  "'t time_api \<Rightarrow> 't model_pool \<Rightarrow> model_world \<Rightarrow> string \<Rightarrow> go_panic + nat" where
  "mp_pinSlot api p w sessionID =
     ring_pin (mw_scan_done w) (mp_eligibleIndices api p w)
       (\<lambda>i. mm_Weight (mp_members p ! i)) sessionID"

definition mp_load :: "'t model_pool \<Rightarrow> (nat \<Rightarrow> int) \<Rightarrow> nat \<Rightarrow> int" where
  "mp_load p reading i = (if mm_HasInFlight (mp_members p ! i) then reading i else 0)"

definition mp_leastLoaded ::
  "'t time_api \<Rightarrow> 't model_pool \<Rightarrow> model_world \<Rightarrow> 't model_pool \<times> (go_panic + nat)" where
  "mp_leastLoaded api p w =
     (let idx = mp_eligibleIndices api p w
      in if idx = [] then (p, Inr 0)
         else if mw_scan_done w then (p, Inr 0)
         else
           (let m = minimum (map (mp_load p (mw_load_min w)) idx);
                ties = filter (\<lambda>i. mp_load p (mw_load_tie w) i = m) idx;
                rr = mp_rr p + 1
            in (p\<lparr>mp_rr := rr\<rparr>, rr_pick ties rr)))"

fun overflow_scan :: "(nat \<Rightarrow> int) \<Rightarrow> nat \<Rightarrow> nat \<Rightarrow> int \<Rightarrow> nat list \<Rightarrow> nat" where
  "overflow_scan load excluded minIdx minLoad [] = minIdx"
| "overflow_scan load excluded minIdx minLoad (i # is) =
     (if i = excluded then overflow_scan load excluded minIdx minLoad is
      else if minIdx = excluded \<or> load i < minLoad
        then overflow_scan load excluded i (load i) is
      else overflow_scan load excluded minIdx minLoad is)"

definition overflowTarget :: "'t time_api \<Rightarrow> 't model_pool \<Rightarrow> model_world \<Rightarrow> nat \<Rightarrow> nat" where
  "overflowTarget api p w excluded =
     (let idx = mp_eligibleIndices api p w
      in if mw_scan_done w \<and> idx \<noteq> [] then excluded
         else overflow_scan (mp_load p (mw_load_min w)) excluded excluded 0 idx)"

text \<open>\<open>saturated\<close> is what the pinned member's \<open>Saturated\<close> callback answers.\<close>

definition mp_member :: "'t model_pool \<Rightarrow> nat \<Rightarrow> go_panic + 't model_member" where
  "mp_member p i =
     (if i < length (mp_members p) then Inr (mp_members p ! i) else Inl IndexOutOfRange)"

definition mp_Resolve :: "'t time_api \<Rightarrow> 't model_pool \<Rightarrow> model_world \<Rightarrow> bool \<Rightarrow> model_world \<Rightarrow>
    string \<Rightarrow> 't model_pool \<times> (go_panic + 't model_member)" where
  "mp_Resolve api p w saturated w' sessionID =
     (if sessionID = [] then
        (case mp_leastLoaded api p w of
           (p', Inl e) \<Rightarrow> (p', Inl e)
         | (p', Inr i) \<Rightarrow> (p', mp_member p' i))
      else
        (case mp_pinSlot api p w sessionID of
           Inl e \<Rightarrow> (p, Inl e)
         | Inr pinned \<Rightarrow>
             (case mp_member p pinned of
                Inl e \<Rightarrow> (p, Inl e)
              | Inr member \<Rightarrow>
                  (if mm_Overflow member \<and> mm_HasSaturated member \<and> saturated
                   then (p, mp_member p (overflowTarget api p w' pinned))
                   else (p, Inr member)))))"

section \<open>The pool as a session ring\<close>

definition wf_model_pool :: "'t model_pool \<Rightarrow> bool" where
  "wf_model_pool p \<longleftrightarrow>
     mp_members p \<noteq> [] \<and> length (mp_members p) < 2 ^ 64 \<and>
     (\<forall>m \<in> set (mp_members p). 0 < mm_Weight m) \<and>
     sum_list (map mm_Weight (mp_members p)) < 2 ^ 63"

definition mp_calm :: "model_world \<Rightarrow> bool" where
  "mp_calm w \<longleftrightarrow> \<not> mw_scan_done w"

lemma mp_weights_ok:
  assumes "wf_model_pool p"
  shows "weights_ok (mp_eligibleIndices api p w) (\<lambda>i. mm_Weight (mp_members p ! i))"
proof (cases "mw_elig_done w")
  case True
  then show ?thesis by (simp add: mp_eligibleIndices_def weights_ok_def)
next
  case False
  have "\<forall>m \<in> set (mp_members p). 0 < mm_Weight m"
    "sum_list (map mm_Weight (mp_members p)) < 2 ^ 63"
    using assms unfolding wf_model_pool_def by blast+
  with False show ?thesis
    unfolding mp_eligibleIndices_def by (simp only: if_False weights_ok_filter)
qed

interpretation mpool: session_ring wf_model_pool mp_calm "mp_eligibleIndices api"
  "\<lambda>p i. mm_Weight (mp_members p ! i)" "mp_pinSlot api" for api
  by unfold_locales
     (erule mp_weights_ok, simp add: mp_eligibleIndices_def, simp add: mp_pinSlot_def mp_calm_def)

lemma mp_elig_less: "i \<in> set (mp_eligibleIndices api p w) \<Longrightarrow> i < length (mp_members p)"
  by (auto simp: mp_eligibleIndices_def split: if_splits)

section \<open>Overflow\<close>

text \<open>The first index with the least load: what the scan keeps.\<close>

lemma overflow_scan_fold:
  assumes "excluded \<notin> set is" "m \<noteq> excluded"
  shows "overflow_scan load excluded m (load m) is =
    foldl (\<lambda>b i. if load i < load b then i else b) m is"
  using assms
proof (induction "is" arbitrary: m)
  case (Cons i js)
  then show ?case by (cases "load i < load m") auto
qed simp

lemma foldl_least:
  fixes load :: "nat \<Rightarrow> int"
  shows "foldl (\<lambda>b i. if load i < load b then i else b) m is \<in> set (m # is) \<and>
   (\<forall>j \<in> set (m # is). load (foldl (\<lambda>b i. if load i < load b then i else b) m is) \<le> load j)"
proof (induction "is" arbitrary: m)
  case (Cons i js)
  let ?b = "if load i < load m then i else m"
  let ?r = "foldl (\<lambda>b i. if load i < load b then i else b) ?b js"
  have "?r \<in> set (?b # js)" and le: "\<forall>j \<in> set (?b # js). load ?r \<le> load j"
    using Cons.IH [of ?b] by blast+
  moreover have "load ?r \<le> load i" "load ?r \<le> load m" using le by (auto split: if_splits)
  ultimately show ?case by (auto split: if_splits)
qed simp

lemma overflow_scan_skip:
  "overflow_scan load excluded m l (filter (\<lambda>i. i \<noteq> excluded) is) = overflow_scan load excluded m l is"
  by (induction "is" arbitrary: m l) auto

text \<open>The eligible members other than the excluded one.\<close>

definition mp_siblings :: "'t time_api \<Rightarrow> 't model_pool \<Rightarrow> model_world \<Rightarrow> nat \<Rightarrow> nat list" where
  "mp_siblings api p w x = filter (\<lambda>i. i \<noteq> x) (mp_eligibleIndices api p w)"

lemma overflowTarget_scan:
  "mp_calm w \<Longrightarrow> overflowTarget api p w x =
     overflow_scan (mp_load p (mw_load_min w)) x x 0 (mp_siblings api p w x)"
  by (simp add: overflowTarget_def mp_calm_def mp_siblings_def overflow_scan_skip)

lemma overflowTarget_none:
  "mp_calm w \<Longrightarrow> mp_siblings api p w x = [] \<Longrightarrow> overflowTarget api p w x = x"
  by (simp add: overflowTarget_scan)

lemma overflowTarget_least:
  assumes "mp_calm w" "mp_siblings api p w x \<noteq> []"
  shows "overflowTarget api p w x \<in> set (mp_siblings api p w x) \<and>
    (\<forall>j \<in> set (mp_siblings api p w x).
       mp_load p (mw_load_min w) (overflowTarget api p w x) \<le> mp_load p (mw_load_min w) j)"
proof -
  obtain i js where sib: "mp_siblings api p w x = i # js"
    using assms(2) by (cases "mp_siblings api p w x") auto
  then have "i \<in> set (mp_siblings api p w x)" "set js \<subseteq> set (mp_siblings api p w x)" by auto
  then have ne: "i \<noteq> x" "x \<notin> set js" by (auto simp: mp_siblings_def)
  then have "overflowTarget api p w x =
      foldl (\<lambda>b i. if mp_load p (mw_load_min w) i < mp_load p (mw_load_min w) b then i else b) i js"
    using overflow_scan_fold [of x js i] by (simp add: overflowTarget_scan assms(1) sib)
  then show ?thesis
    using foldl_least [of "mp_load p (mw_load_min w)" i js] by (simp add: sib)
qed

lemma mp_pin_member:
  assumes "wf_model_pool p" "mp_calm w" "mp_eligibleIndices api p w \<noteq> []"
  obtains i where "i \<in> set (mp_eligibleIndices api p w)" "mp_pinSlot api p w s = Inr i"
    "mp_member p i = Inr (mp_members p ! i)"
proof -
  obtain i where i: "i \<in> set (mp_eligibleIndices api p w)" "mp_pinSlot api p w s = Inr i"
    using mpool.pin_eligible [OF assms] by blast
  with that mp_elig_less [OF i(1)] show thesis by (simp add: mp_member_def)
qed

lemma mp_leastLoaded_member:
  assumes "wf_model_pool p" "mp_calm w" "mp_eligibleIndices api p w \<noteq> []"
    and "mw_load_tie w = mw_load_min w"
  obtains i where "i \<in> set (mp_eligibleIndices api p w)"
    "mp_leastLoaded api p w = (p\<lparr>mp_rr := mp_rr p + 1\<rparr>, Inr i)"
    "\<forall>j \<in> set (mp_eligibleIndices api p w). mp_load p (mw_load_min w) i \<le> mp_load p (mw_load_min w) j"
proof -
  let ?idx = "mp_eligibleIndices api p w"
  let ?ld = "mp_load p (mw_load_min w)"
  let ?ties = "filter (\<lambda>i. ?ld i = minimum (map ?ld ?idx)) ?idx"
  have "\<exists>i \<in> set ?idx. ?ld i = minimum (map ?ld ?idx)"
    using minimum_mem [of "map ?ld ?idx"] assms(3) by (auto simp: image_iff)
  then have ne: "?ties \<noteq> []" by (auto simp: filter_empty_conv)
  have "length ?idx \<le> length (mp_members p)"
    by (auto simp: mp_eligibleIndices_def intro: order.trans [OF length_filter_le])
  then have "length ?ties \<le> length (mp_members p)"
    by (rule order.trans [OF length_filter_le])
  moreover have "length (mp_members p) < 2 ^ 64"
    using assms(1) unfolding wf_model_pool_def by blast
  ultimately have "length ?ties < 2 ^ 64" by (rule le_less_trans)
  then obtain i where i: "i \<in> set ?ties" "rr_pick ?ties (mp_rr p + 1) = Inr i"
    using rr_pick_mem [OF ne] by blast
  then have "mp_leastLoaded api p w = (p\<lparr>mp_rr := mp_rr p + 1\<rparr>, Inr i)"
    using assms(2-4) by (simp add: mp_leastLoaded_def mp_calm_def Let_def)
  with that i(1) minimum_eq_iff [of i ?idx ?ld] show thesis by auto
qed

text \<open>Resolution answers with a member, also when none is eligible.\<close>

lemma mp_Resolve_member:
  assumes "wf_model_pool p" "mp_calm w" "mp_calm w'" "mw_load_tie w = mw_load_min w"
  obtains p' m where "mp_Resolve api p w saturated w' s = (p', Inr m)" "m \<in> set (mp_members p)"
    "mp_members p' = mp_members p"
proof (cases "s = []")
  case True
  show thesis
  proof (cases "mp_eligibleIndices api p w = []")
    case True
    have "mp_members p \<noteq> []" using assms(1) by (simp add: wf_model_pool_def)
    with True \<open>s = []\<close> that [of p "mp_members p ! 0"] show thesis
      by (simp add: mp_Resolve_def mp_leastLoaded_def mp_member_def)
  next
    case False
    from mp_leastLoaded_member [OF assms(1,2) this assms(4)] obtain i where
      i: "i \<in> set (mp_eligibleIndices api p w)" "mp_leastLoaded api p w = (p\<lparr>mp_rr := mp_rr p + 1\<rparr>, Inr i)"
      by blast
    with True that [of "p\<lparr>mp_rr := mp_rr p + 1\<rparr>" "mp_members p ! i"] mp_elig_less [OF i(1)] show thesis
      by (simp add: mp_Resolve_def mp_member_def)
  qed
next
  case False
  obtain i where i: "mp_pinSlot api p w s = Inr i" "i < length (mp_members p)"
  proof (cases "mp_eligibleIndices api p w = []")
    case True
    have "mp_members p \<noteq> []" using assms(1) by (simp add: wf_model_pool_def)
    with True that [of 0] show thesis by (simp add: mp_pinSlot_def ring_pin_def)
  next
    case False
    from mpool.pin_eligible [OF assms(1,2) this, of s] that mp_elig_less show thesis by blast
  qed
  let ?t = "overflowTarget api p w' i"
  have "?t < length (mp_members p)"
  proof (cases "mp_siblings api p w' i = []")
    case True
    from overflowTarget_none [OF assms(3) this] show ?thesis using i(2) by simp
  next
    case False
    from overflowTarget_least [OF assms(3) this] show ?thesis
      using mp_elig_less [of ?t api p w'] by (simp add: mp_siblings_def)
  qed
  then have mem: "mp_member p i = Inr (mp_members p ! i)" "mp_member p ?t = Inr (mp_members p ! ?t)"
    "mp_members p ! i \<in> set (mp_members p)" "mp_members p ! ?t \<in> set (mp_members p)"
    using i(2) by (simp_all add: mp_member_def)
  define over where
    "over \<longleftrightarrow> mm_Overflow (mp_members p ! i) \<and> mm_HasSaturated (mp_members p ! i) \<and> saturated"
  have "mp_Resolve api p w saturated w' s = (p, Inr (mp_members p ! (if over then ?t else i)))"
    using False by (simp add: mp_Resolve_def i(1) mem(1,2) over_def)
  moreover have "mp_members p ! (if over then ?t else i) \<in> set (mp_members p)" using mem(3,4) by simp
  ultimately show thesis using that by blast
qed

text \<open>
  Resolution in every world. It answers with a member, also when none is eligible or the context is
  done, with one exception: a request without a session id whose second readings of the loads all
  differ from the minimum of the first.
\<close>

definition loads_moved :: "'t time_api \<Rightarrow> 't model_pool \<Rightarrow> model_world \<Rightarrow> string \<Rightarrow> bool" where
  "loads_moved api p w s \<longleftrightarrow>
     s = [] \<and> \<not> mw_scan_done w \<and> mp_eligibleIndices api p w \<noteq> [] \<and>
     (\<forall>i \<in> set (mp_eligibleIndices api p w).
        mp_load p (mw_load_tie w) i \<noteq> minimum (map (mp_load p (mw_load_min w)) (mp_eligibleIndices api p w)))"

lemma still_loads:
  assumes "mw_load_tie w = mw_load_min w"
  shows "\<not> loads_moved api p w s"
  using minimum_mem [of "map (mp_load p (mw_load_min w)) (mp_eligibleIndices api p w)"] assms
  unfolding loads_moved_def by fastforce

lemma mp_member_ok:
  "i < length (mp_members p) \<Longrightarrow> mp_member p i = Inr (mp_members p ! i) \<and> mp_members p ! i \<in> set (mp_members p)"
  by (simp add: mp_member_def)

lemma overflowTarget_less:
  assumes "x < length (mp_members p)"
  shows "overflowTarget api p w x < length (mp_members p)"
proof (cases "mp_calm w \<and> mp_siblings api p w x \<noteq> []")
  case True
  then show ?thesis
    using overflowTarget_least [of w api p x] mp_elig_less [of _ api p w] by (fastforce simp: mp_siblings_def)
next
  case False
  then have "overflowTarget api p w x = x"
    using overflowTarget_none [of w api p x] by (auto simp: mp_calm_def overflowTarget_def Let_def)
  with assms show ?thesis by simp
qed

lemma mp_pinSlot_less:
  assumes "wf_model_pool p"
  obtains i where "mp_pinSlot api p w s = Inr i" "i < length (mp_members p)"
proof -
  have ne: "0 < length (mp_members p)" using assms by (simp add: wf_model_pool_def)
  consider (none) "mp_eligibleIndices api p w = []" | (gone) "mp_eligibleIndices api p w \<noteq> []" "mw_scan_done w"
    | (scan) "mp_eligibleIndices api p w \<noteq> []" "mp_calm w" by (auto simp: mp_calm_def)
  then show thesis
  proof cases
    case none
    with that ne show thesis by (simp add: mp_pinSlot_def ring_pin_def)
  next
    case gone
    with that ne ring_pin_done [OF gone(1) mp_weights_ok [OF assms]] show thesis by (simp add: mp_pinSlot_def)
  next
    case scan
    with that mpool.pin_eligible [OF assms scan(2,1)] mp_elig_less show thesis by blast
  qed
qed

lemma mp_leastLoaded_cases:
  assumes "wf_model_pool p"
  shows "\<exists>p'. mp_members p' = mp_members p \<and>
    (if loads_moved api p w [] then mp_leastLoaded api p w = (p', Inl DivideByZero)
     else \<exists>i < length (mp_members p). mp_leastLoaded api p w = (p', Inr i))"
proof (cases "mp_eligibleIndices api p w = [] \<or> mw_scan_done w")
  case True
  have "0 < length (mp_members p)" using assms by (simp add: wf_model_pool_def)
  with True show ?thesis by (auto simp: mp_leastLoaded_def loads_moved_def Let_def)
next
  case False
  let ?idx = "mp_eligibleIndices api p w"
  let ?ties = "filter (\<lambda>i. mp_load p (mw_load_tie w) i = minimum (map (mp_load p (mw_load_min w)) ?idx)) ?idx"
  have ll: "mp_leastLoaded api p w = (p\<lparr>mp_rr := mp_rr p + 1\<rparr>, rr_pick ?ties (mp_rr p + 1))"
    using False by (simp add: mp_leastLoaded_def Let_def)
  have moved: "loads_moved api p w [] \<longleftrightarrow> ?ties = []"
    using False by (auto simp: loads_moved_def filter_empty_conv)
  show ?thesis
  proof (cases "?ties = []")
    case True
    with ll moved show ?thesis by (intro exI [of _ "p\<lparr>mp_rr := mp_rr p + 1\<rparr>"]) (simp add: rr_pick_def)
  next
    case False
    have "length ?ties \<le> length (mp_members p)"
      by (auto simp: mp_eligibleIndices_def intro: order.trans [OF length_filter_le])
    moreover have "length (mp_members p) < 2 ^ 64" using assms unfolding wf_model_pool_def by blast
    ultimately have "length ?ties < 2 ^ 64" by (rule le_less_trans)
    then obtain i where "i \<in> set ?ties" "rr_pick ?ties (mp_rr p + 1) = Inr i"
      using rr_pick_mem [OF False] by blast
    then show ?thesis
      using ll moved False mp_elig_less [of i api p w]
      by (intro exI [of _ "p\<lparr>mp_rr := mp_rr p + 1\<rparr>"]) auto
  qed
qed

lemma mp_Resolve_total:
  assumes "wf_model_pool p"
  shows "\<exists>p'. mp_members p' = mp_members p \<and>
    (if loads_moved api p w s then mp_Resolve api p w saturated w' s = (p', Inl DivideByZero)
     else \<exists>m \<in> set (mp_members p). mp_Resolve api p w saturated w' s = (p', Inr m))"
proof (cases "s = []")
  case True
  obtain p' where p': "mp_members p' = mp_members p"
    "if loads_moved api p w [] then mp_leastLoaded api p w = (p', Inl DivideByZero)
     else \<exists>i < length (mp_members p). mp_leastLoaded api p w = (p', Inr i)"
    using mp_leastLoaded_cases [OF assms] by blast
  then show ?thesis
    using True mp_member_ok [of _ p'] by (intro exI [of _ p']) (fastforce simp: mp_Resolve_def split: if_splits)
next
  case False
  obtain i where i: "mp_pinSlot api p w s = Inr i" "i < length (mp_members p)" by (rule mp_pinSlot_less [OF assms])
  then show ?thesis
    using False mp_member_ok [of i p] mp_member_ok [of "overflowTarget api p w' i" p] overflowTarget_less [of i p api w']
    by (intro exI [of _ p]) (auto simp: mp_Resolve_def loads_moved_def)
qed

section \<open>Examples\<close>

definition ex_mm :: "string \<Rightarrow> bool \<Rightarrow> ex_tod model_member" where
  "ex_mm name over = \<lparr>mm_Provider = name, mm_Model = ''m'', mm_Weight = 1, mm_Overflow = over,
     mm_Handler = PoolHandler ex_pool, mm_HasInFlight = True, mm_HasSaturated = True\<rparr>"

definition ex_mp :: "ex_tod model_pool" where
  "ex_mp = \<lparr>mp_members = [ex_mm ''a'' True, ex_mm ''b'' True], mp_rr = 0\<rparr>"

definition ex_mw :: model_world where
  "ex_mw = \<lparr>mw_handler = (\<lambda>i. ex_world), mw_elig_done = False, mw_scan_done = False,
     mw_load_min = (\<lambda>i. int i), mw_load_tie = (\<lambda>i. int i)\<rparr>"

lemma ex_mp_facts: "wf_model_pool ex_mp" "mp_calm ex_mw" "mp_eligibleIndices ex_api ex_mp ex_mw = [0, 1]"
  by (simp_all add: wf_model_pool_def mp_calm_def ex_mp_def ex_mm_def ex_mw_def
        mp_eligibleIndices_def mp_memberEligible_def windowEligible_def HasEligibleMember_def
        ex_pool_noon upt_conv_Cons)

section \<open>Properties\<close>

text \<open>
  C27. A request with a session id is resolved to the pinned member of the weighted ring over
  the eligible members; only when that member declares overflow and its provider is
  saturated does it move, and then to an eligible sibling with the least load, or to
  nowhere when no sibling is eligible.
\<close>

theorem session_pinned_or_overflows:
  assumes "wf_model_pool p" "mp_calm w" "mp_calm w'" "mp_eligibleIndices api p w \<noteq> []" "s \<noteq> []"
  defines "pinned \<equiv> ring_ref (mp_eligibleIndices api p w) (\<lambda>i. mm_Weight (mp_members p ! i)) s"
  shows "\<exists>target. mp_Resolve api p w saturated w' s = (p, Inr (mp_members p ! target)) \<and>
     (if mm_Overflow (mp_members p ! pinned) \<and> mm_HasSaturated (mp_members p ! pinned) \<and> saturated
         \<and> mp_siblings api p w' pinned \<noteq> []
      then target \<in> set (mp_siblings api p w' pinned) \<and>
        (\<forall>j \<in> set (mp_siblings api p w' pinned).
           mp_load p (mw_load_min w') target \<le> mp_load p (mw_load_min w') j)
      else target = pinned)"
proof -
  have pin: "mp_pinSlot api p w s = Inr pinned"
    using mpool.pin_ref [OF assms(1,2,4)] by (simp add: pinned_def)
  then have mem: "mp_member p pinned = Inr (mp_members p ! pinned)"
    using mp_pin_member [OF assms(1,2,4), of s] by auto
  let ?over = "mm_Overflow (mp_members p ! pinned) \<and> mm_HasSaturated (mp_members p ! pinned) \<and> saturated"
  consider (stay) "\<not> ?over" | (alone) ?over "mp_siblings api p w' pinned = []"
    | (move) ?over "mp_siblings api p w' pinned \<noteq> []" by blast
  then show ?thesis
  proof cases
    case stay
    then show ?thesis using assms(5) pin mem by (auto simp: mp_Resolve_def)
  next
    case alone
    then show ?thesis
      using assms(5) pin mem overflowTarget_none [OF assms(3), of api p pinned]
      by (auto simp: mp_Resolve_def)
  next
    case move
    let ?t = "overflowTarget api p w' pinned"
    note t = overflowTarget_least [OF assms(3) move(2)]
    then have "mp_member p ?t = Inr (mp_members p ! ?t)"
      using mp_elig_less [of ?t api p w'] by (simp add: mp_member_def mp_siblings_def)
    then have "mp_Resolve api p w saturated w' s = (p, Inr (mp_members p ! ?t))"
      using assms(5) pin mem move(1) by (simp add: mp_Resolve_def)
    with t move show ?thesis by (intro exI [of _ ?t]) simp
  qed
qed

theorem session_pinned_or_overflows_witness:
  "\<exists>target. mp_Resolve ex_api ex_mp ex_mw False ex_mw ''s'' = (ex_mp, Inr (mp_members ex_mp ! target)) \<and>
     target = ring_ref [0, 1] (\<lambda>i. mm_Weight (mp_members ex_mp ! i)) ''s''"
  using session_pinned_or_overflows [of ex_mp ex_mw ex_mw ex_api "''s''" False] ex_mp_facts by simp

text \<open>
  A request without a session id goes to an eligible member with the least load when
  the loads stand still while they are read.
\<close>

theorem keyless_least_loaded_when_loads_stable:
  assumes "wf_model_pool p" "mp_calm w" "mp_eligibleIndices api p w \<noteq> []"
    and "mw_load_tie w = mw_load_min w"
  shows "\<exists>i \<in> set (mp_eligibleIndices api p w).
     mp_Resolve api p w saturated w' [] = (p\<lparr>mp_rr := mp_rr p + 1\<rparr>, Inr (mp_members p ! i)) \<and>
     (\<forall>j \<in> set (mp_eligibleIndices api p w).
        mp_load p (mw_load_min w) i \<le> mp_load p (mw_load_min w) j)"
proof -
  obtain i where i: "i \<in> set (mp_eligibleIndices api p w)"
      "mp_leastLoaded api p w = (p\<lparr>mp_rr := mp_rr p + 1\<rparr>, Inr i)"
      "\<forall>j \<in> set (mp_eligibleIndices api p w).
         mp_load p (mw_load_min w) i \<le> mp_load p (mw_load_min w) j"
    using mp_leastLoaded_member [OF assms] by blast
  have "mp_member (p\<lparr>mp_rr := mp_rr p + 1\<rparr>) i = Inr (mp_members p ! i)"
    using mp_elig_less [OF i(1)] by (simp add: mp_member_def)
  with i show ?thesis by (intro bexI [of _ i]) (simp_all add: mp_Resolve_def)
qed

theorem keyless_least_loaded_when_loads_stable_witness:
  "\<exists>i \<in> {0, 1}. mp_Resolve ex_api ex_mp ex_mw True ex_mw [] =
     (ex_mp\<lparr>mp_rr := 1\<rparr>, Inr (mp_members ex_mp ! i)) \<and>
     mp_load ex_mp (mw_load_min ex_mw) i \<le> mp_load ex_mp (mw_load_min ex_mw) 0"
proof -
  have "mw_load_tie ex_mw = mw_load_min ex_mw" "mp_rr ex_mp = 0" by (simp_all add: ex_mw_def ex_mp_def)
  then show ?thesis
    using keyless_least_loaded_when_loads_stable [of ex_mp ex_mw ex_api True ex_mw] ex_mp_facts
    by auto
qed

text \<open>
  When every eligible member's load moves between the reading for the minimum and the
  reading for the ties (requests that start in between), no member matches the minimum and
  the request panics with a division by zero, after the counter was advanced.
\<close>

theorem moving_loads_panic:
  assumes "mp_calm w" "mp_eligibleIndices api p w \<noteq> []"
    and "\<forall>i \<in> set (mp_eligibleIndices api p w). mm_HasInFlight (mp_members p ! i)"
    and "\<forall>i \<in> set (mp_eligibleIndices api p w). \<forall>j \<in> set (mp_eligibleIndices api p w).
           mw_load_min w i < mw_load_tie w j"
  shows "mp_Resolve api p w saturated w' [] = (p\<lparr>mp_rr := mp_rr p + 1\<rparr>, Inl DivideByZero)"
proof -
  let ?idx = "mp_eligibleIndices api p w"
  let ?m = "minimum (map (mp_load p (mw_load_min w)) ?idx)"
  have "?m \<in> set (map (mp_load p (mw_load_min w)) ?idx)"
    using assms(2) by (intro minimum_mem) simp
  then obtain i where "i \<in> set ?idx" "?m = mw_load_min w i"
    using assms(3) by (auto simp: mp_load_def)
  then have "mp_load p (mw_load_tie w) j \<noteq> ?m" if "j \<in> set ?idx" for j
    using assms(3,4) that by (force simp: mp_load_def)
  then have "filter (\<lambda>i. mp_load p (mw_load_tie w) i = ?m) ?idx = []"
    by (simp add: filter_empty_conv)
  then show ?thesis
    using assms(1,2) by (simp add: mp_Resolve_def mp_leastLoaded_def mp_calm_def Let_def rr_pick_def)
qed

theorem moving_loads_panic_witness:
  "mp_Resolve ex_api ex_mp (ex_mw\<lparr>mw_load_min := (\<lambda>i. 0), mw_load_tie := (\<lambda>i. 1)\<rparr>) True ex_mw [] =
     (ex_mp\<lparr>mp_rr := 1\<rparr>, Inl DivideByZero)"
proof -
  let ?w = "ex_mw\<lparr>mw_load_min := (\<lambda>i. 0), mw_load_tie := (\<lambda>i. 1)\<rparr>"
  have "mp_memberEligible ex_api ex_mp ?w = mp_memberEligible ex_api ex_mp ex_mw"
    by (simp add: mp_memberEligible_def fun_eq_iff)
  then have "mp_eligibleIndices ex_api ex_mp ?w = [0, 1]" "mp_calm ?w"
    using ex_mp_facts by (simp_all add: mp_eligibleIndices_def mp_calm_def split: if_splits)
  moreover have "mp_rr ex_mp = 0" "mm_HasInFlight (mp_members ex_mp ! 0)" "mm_HasInFlight (mp_members ex_mp ! 1)"
    by (simp_all add: ex_mp_def ex_mm_def)
  ultimately show ?thesis using moving_loads_panic [of ?w ex_api ex_mp True ex_mw] by simp
qed

end
