(* ===== verification/Body.thy ===== *)
theory Body
  imports Glob
begin

text \<open>
  Request bodies as the router reads and rewrites them: \<open>extractModel\<close> and
  \<open>rewriteModelField\<close> (\<open>model-router.go\<close>) and the lifting of misplaced system messages
  (\<open>system-lift.go\<close>). A body is its bytes together with what \<open>encoding/json\<close> parses them
  to; re-marshalling goes through a function \<open>marshal\<close> from values to bytes, which only
  decides the bytes. The members of a decoded struct match their key case-insensitively and
  the last match wins; a decoded map keeps the last of equal keys and is written back with
  its keys sorted.
\<close>

section \<open>JSON\<close>

datatype json =
    JNull
  | JBool bool
  | JNum string
  | JStr string
  | JArr "json list"
  | JObj "(string \<times> json) list"

type_synonym body = "bytes \<times> json option"

text \<open>\<open>map[string]json.RawMessage\<close>: the last value of each key, in the order of marshalling.\<close>

definition json_lookup :: "(string \<times> json) list \<Rightarrow> string \<Rightarrow> json option" where
  "json_lookup kvs k = map_of (rev kvs) k"

definition json_keys :: "(string \<times> json) list \<Rightarrow> string list" where
  "json_keys kvs = sort (remdups (map fst kvs))"

definition json_set :: "string \<Rightarrow> json \<Rightarrow> (string \<times> json) list \<Rightarrow> (string \<times> json) list" where
  "json_set k v kvs = kvs @ [(k, v)]"

definition json_canonical :: "(string \<times> json) list \<Rightarrow> (string \<times> json) list" where
  "json_canonical kvs = map (\<lambda>k. (k, the (json_lookup kvs k))) (json_keys kvs)"

definition remarshal :: "(json \<Rightarrow> bytes) \<Rightarrow> (string \<times> json) list \<Rightarrow> body" where
  "remarshal marshal kvs = (let doc = JObj (json_canonical kvs) in (marshal doc, Some doc))"

section \<open>The model field\<close>

definition model_key :: "string \<Rightarrow> bool" where
  "model_key k \<longleftrightarrow> to_lower k = ''model''"

text \<open>Decoding into the struct field: a mistyped value is an error, \<open>null\<close> leaves it unchanged.\<close>

fun decode_model :: "string \<Rightarrow> (string \<times> json) list \<Rightarrow> string option" where
  "decode_model cur [] = Some cur"
| "decode_model cur ((k, v) # kvs) =
     (if \<not> model_key k then decode_model cur kvs
      else case v of
        JStr s \<Rightarrow> decode_model s kvs
      | JNull \<Rightarrow> decode_model cur kvs
      | _ \<Rightarrow> None)"

definition extractModel :: "body \<Rightarrow> string" where
  "extractModel b =
     (case snd b of
        Some (JObj kvs) \<Rightarrow> (case decode_model [] kvs of Some m \<Rightarrow> m | None \<Rightarrow> [])
      | _ \<Rightarrow> [])"

text \<open>\<open>null\<close> decodes into a nil map, and storing into a nil map panics.\<close>

datatype rewrite_result = Rewritten body | RewriteError | RewritePanic

definition rewriteModelField :: "(json \<Rightarrow> bytes) \<Rightarrow> body \<Rightarrow> string \<Rightarrow> rewrite_result" where
  "rewriteModelField marshal b resolved =
     (case snd b of
        Some (JObj kvs) \<Rightarrow> Rewritten (remarshal marshal (json_set ''model'' (JStr resolved) kvs))
      | Some JNull \<Rightarrow> RewritePanic
      | _ \<Rightarrow> RewriteError)"

section \<open>Lifting system messages\<close>

definition systemTextBlock :: "string \<Rightarrow> json" where
  "systemTextBlock text = JObj [(''type'', JStr ''text''), (''text'', JStr text)]"

definition normalizeToBlocks :: "json option \<Rightarrow> json list option" where
  "normalizeToBlocks raw =
     (case raw of
        None \<Rightarrow> Some []
      | Some JNull \<Rightarrow> Some []
      | Some (JStr text) \<Rightarrow> Some [systemTextBlock text]
      | Some (JArr blocks) \<Rightarrow> Some blocks
      | Some _ \<Rightarrow> None)"

text \<open>\<open>Some None\<close> keeps the entry, \<open>Some (Some blocks)\<close> lifts it, \<open>None\<close> is an error.\<close>

definition liftableBlocks :: "nat \<Rightarrow> json \<Rightarrow> json list option option" where
  "liftableBlocks i raw =
     (case raw of
        JNull \<Rightarrow> Some None
      | JObj message \<Rightarrow>
          (case json_lookup message ''role'' of
             None \<Rightarrow> Some None
           | Some rawRole \<Rightarrow>
               (if i = 0 then Some None
                else case rawRole of
                  JNull \<Rightarrow> Some None
                | JStr role \<Rightarrow>
                    (if role \<noteq> ''system'' then Some None
                     else map_option Some (normalizeToBlocks (json_lookup message ''content'')))
                | _ \<Rightarrow> None))
      | _ \<Rightarrow> None)"

text \<open>The loop from index \<open>i\<close> on: kept entries, lifted blocks, number of entries moved.\<close>

fun lift_loop :: "nat \<Rightarrow> json list \<Rightarrow> (json list \<times> json list \<times> nat) option" where
  "lift_loop i [] = Some ([], [], 0)"
| "lift_loop i (raw # raws) =
     (case liftableBlocks i raw of
        None \<Rightarrow> None
      | Some res \<Rightarrow>
          (case lift_loop (i + 1) raws of
             None \<Rightarrow> None
           | Some (kept, lifted, moved) \<Rightarrow>
               (case res of
                  None \<Rightarrow> Some (raw # kept, lifted, moved)
                | Some blocks \<Rightarrow> Some (kept, blocks @ lifted, moved + 1))))"

datatype lift_result = LiftError | LiftNothing | Lifted body nat

definition lift_messages ::
  "(json \<Rightarrow> bytes) \<Rightarrow> (string \<times> json) list \<Rightarrow> json list \<Rightarrow> lift_result" where
  "lift_messages marshal obj messages =
     (case lift_loop 0 messages of
        None \<Rightarrow> LiftError
      | Some (kept, lifted, moved) \<Rightarrow>
          (if moved = 0 then LiftNothing
           else case normalizeToBlocks (json_lookup obj ''system'') of
             None \<Rightarrow> LiftError
           | Some system \<Rightarrow>
               Lifted (remarshal marshal
                 (json_set ''messages'' (JArr kept) (json_set ''system'' (JArr (system @ lifted)) obj)))
                 moved))"

text \<open>\<open>seen_done\<close> is whether the scan of the entries observes a done context.\<close>

definition liftSystemMessages :: "(json \<Rightarrow> bytes) \<Rightarrow> bool \<Rightarrow> body \<Rightarrow> lift_result" where
  "liftSystemMessages marshal seen_done b =
     (case snd b of
        Some JNull \<Rightarrow> LiftNothing
      | Some (JObj obj) \<Rightarrow>
          (case json_lookup obj ''messages'' of
             None \<Rightarrow> LiftNothing
           | Some JNull \<Rightarrow> LiftNothing
           | Some (JArr messages) \<Rightarrow>
               if seen_done \<and> messages \<noteq> [] then LiftError else lift_messages marshal obj messages
           | Some _ \<Rightarrow> LiftError)
      | _ \<Rightarrow> LiftError)"

section \<open>Maps\<close>

lemma json_lookup_set: "json_lookup (json_set k v kvs) k' = (if k' = k then Some v else json_lookup kvs k')"
  by (simp add: json_lookup_def json_set_def)

lemma set_json_keys: "set (json_keys kvs) = fst ` set kvs"
  by (simp add: json_keys_def)

lemma distinct_json_keys: "distinct (json_keys kvs)"
  by (simp add: json_keys_def)

lemma json_lookup_None: "json_lookup kvs k = None \<longleftrightarrow> k \<notin> fst ` set kvs"
  by (simp add: json_lookup_def map_of_eq_None_iff)

lemma fst_canonical: "fst ` set (json_canonical kvs) = fst ` set kvs"
  by (simp add: json_canonical_def image_image set_json_keys)

lemma json_lookup_canonical: "json_lookup (json_canonical kvs) k = json_lookup kvs k"
proof (cases "k \<in> fst ` set kvs")
  case True
  then obtain v where v: "json_lookup kvs k = Some v"
    using json_lookup_None [of kvs k] by (cases "json_lookup kvs k") auto
  have "distinct (map fst (rev (json_canonical kvs)))"
    by (simp add: json_canonical_def comp_def distinct_json_keys rev_map)
  moreover have "(k, v) \<in> set (rev (json_canonical kvs))"
    using True v by (force simp: json_canonical_def set_json_keys)
  ultimately show ?thesis using v by (simp add: json_lookup_def)
next
  case False
  then have "k \<notin> fst ` set (json_canonical kvs)" unfolding fst_canonical .
  then have "json_lookup (json_canonical kvs) k = None"
    using json_lookup_None [of "json_canonical kvs" k] by blast
  moreover have "json_lookup kvs k = None" using False json_lookup_None [of kvs k] by blast
  ultimately show ?thesis by simp
qed

lemma remarshal_lookup: "snd (remarshal marshal kvs) = Some (JObj (json_canonical kvs))"
  by (simp add: remarshal_def Let_def)

section \<open>The model field survives rewriting\<close>

lemma list_all2_le: "list_all2 (\<le>) xs ys \<Longrightarrow> (xs :: 'a :: linorder list) \<le> ys"
  by (induction xs ys rule: list_all2_induct) (auto simp: le_less)

lemma lower_char_le:
  assumes "lower_char c = d" "\<not> (CHR ''A'' \<le> d \<and> d \<le> CHR ''Z'')"
  shows "c \<le> d"
proof (cases "CHR ''A'' \<le> c \<and> c \<le> CHR ''Z''")
  case True
  then have "(of_char c :: nat) \<le> of_char (CHR ''Z'')" by (simp only: less_eq_char_def)
  then have "(of_char c :: nat) \<le> 90" by simp
  then have "(of_char d :: nat) = of_char c + 32" using assms(1) True by (auto simp: lower_char_def)
  then show ?thesis by (simp only: less_eq_char_def)
qed (use assms in \<open>auto simp: lower_char_def\<close>)

text \<open>Every other spelling of the key sorts before \<open>model\<close>.\<close>

lemma model_key_le: "model_key k \<Longrightarrow> k \<le> ''model''"
proof -
  assume "model_key k"
  then have m: "map lower_char k = ''model''" by (simp add: model_key_def to_lower_def)
  have "list_all2 (\<le>) k (map lower_char k)"
  proof (rule list_all2_all_nthI)
    fix n assume n: "n < length k"
    then have "lower_char (k ! n) \<in> set ''model''" using m by (metis length_map nth_map nth_mem)
    moreover have "\<forall>d \<in> set ''model''. \<not> (CHR ''A'' \<le> d \<and> d \<le> CHR ''Z'')" by code_simp
    ultimately have "\<not> (CHR ''A'' \<le> lower_char (k ! n) \<and> lower_char (k ! n) \<le> CHR ''Z'')" by blast
    from lower_char_le [OF refl this] show "k ! n \<le> map lower_char k ! n" using n by simp
  qed simp
  with m show "k \<le> ''model''" using list_all2_le by metis
qed

definition model_values_ok :: "(string \<times> json) list \<Rightarrow> bool" where
  "model_values_ok kvs \<longleftrightarrow> (\<forall>(k, v) \<in> set kvs. model_key k \<longrightarrow> v = JNull \<or> (\<exists>s. v = JStr s))"

lemma decode_model_append:
  "decode_model cur (xs @ ys) = (case decode_model cur xs of None \<Rightarrow> None | Some c \<Rightarrow> decode_model c ys)"
  by (induction cur xs rule: decode_model.induct) (auto split: json.splits)

lemma decode_model_ok: "decode_model cur kvs \<noteq> None \<longleftrightarrow> model_values_ok kvs"
  by (induction cur kvs rule: decode_model.induct) (auto simp: model_values_ok_def split: json.splits)

lemma decode_model_none: "\<forall>(k, v) \<in> set kvs. \<not> model_key k \<Longrightarrow> decode_model cur kvs = Some cur"
  by (induction kvs) auto

lemma json_lookup_mem: "json_lookup kvs k = Some v \<Longrightarrow> (k, v) \<in> set kvs"
  unfolding json_lookup_def by (drule map_of_SomeD) simp

lemma canonical_mem:
  "(k, v) \<in> set (json_canonical kvs) \<Longrightarrow> json_lookup kvs k = Some v"
proof -
  assume "(k, v) \<in> set (json_canonical kvs)"
  then have "k \<in> fst ` set kvs" "v = the (json_lookup kvs k)"
    by (auto simp: json_canonical_def set_json_keys)
  then show ?thesis using json_lookup_None [of kvs k] by auto
qed

lemma decode_canonical:
  assumes "model_values_ok kvs"
  shows "decode_model cur (json_canonical (json_set ''model'' (JStr m) kvs)) = Some m"
proof -
  let ?kvs = "json_set ''model'' (JStr m) kvs"
  have look: "json_lookup ?kvs ''model'' = Some (JStr m)" by (simp add: json_lookup_set)
  have sorted: "sorted (json_keys ?kvs)" by (simp add: json_keys_def)
  have "''model'' \<in> set (json_keys ?kvs)" by (simp add: set_json_keys json_set_def)
  then obtain pre post where sp: "json_keys ?kvs = pre @ ''model'' # post" by (metis split_list)
  have post: "\<not> model_key k" if k: "k \<in> set post" for k
  proof
    assume "model_key k"
    then have "k \<le> ''model''" by (rule model_key_le)
    moreover have "''model'' \<le> k" using sorted k by (simp add: sp sorted_append)
    ultimately have "k = ''model''" by simp
    with k distinct_json_keys [of ?kvs] show False by (simp add: sp)
  qed
  let ?f = "\<lambda>k. (k, the (json_lookup ?kvs k))"
  have can: "json_canonical ?kvs = map ?f pre @ (''model'', JStr m) # map ?f post"
    by (simp add: json_canonical_def sp look)
  have "model_values_ok (json_canonical ?kvs)"
  proof -
    have "(k, v) \<in> set kvs \<or> v = JStr m" if "(k, v) \<in> set (json_canonical ?kvs)" for k v
      using json_lookup_mem [OF canonical_mem [OF that]] by (auto simp: json_set_def)
    then show ?thesis using assms unfolding model_values_ok_def by blast
  qed
  then have "model_values_ok (map ?f pre)" unfolding can by (auto simp: model_values_ok_def)
  then obtain c where "decode_model cur (map ?f pre) = Some c" using decode_model_ok by fastforce
  moreover have "model_key ''model''" unfolding model_key_def by code_simp
  ultimately show ?thesis
    unfolding can using decode_model_none [of "map ?f post" m] post
    by (auto simp: decode_model_append)
qed

lemma extractModel_object:
  assumes "extractModel b \<noteq> []"
  obtains kvs where "snd b = Some (JObj kvs)" "model_values_ok kvs"
proof -
  from assms obtain kvs where o: "snd b = Some (JObj kvs)"
    by (auto simp: extractModel_def split: option.splits json.splits)
  moreover from assms o have "decode_model [] kvs \<noteq> None"
    by (cases "decode_model [] kvs") (simp_all add: extractModel_def)
  ultimately show thesis using that decode_model_ok by blast
qed

lemma rewrite_ok:
  assumes "extractModel b \<noteq> []"
  obtains b' where "rewriteModelField marshal b m = Rewritten b'" "extractModel b' = m"
proof -
  obtain kvs where o: "snd b = Some (JObj kvs)" "model_values_ok kvs"
    using extractModel_object [OF assms] by blast
  then show thesis
    using that [of "remarshal marshal (json_set ''model'' (JStr m) kvs)"] decode_canonical [OF o(2)]
    by (simp add: rewriteModelField_def extractModel_def remarshal_lookup)
qed

section \<open>Lifting\<close>

text \<open>What becomes of an entry that is not the first.\<close>

definition later :: "json \<Rightarrow> json list option option" where
  "later raw = liftableBlocks 1 raw"

lemma liftable_Suc: "liftableBlocks (Suc i) raw = later raw"
  by (cases raw) (simp_all add: liftableBlocks_def later_def split: option.splits)

text \<open>The entries that stay and the blocks that are lifted, as filters over the indexed list.\<close>

definition stays :: "nat \<times> json \<Rightarrow> bool" where
  "stays p \<longleftrightarrow> liftableBlocks (fst p) (snd p) = Some None"

definition blocks_of :: "nat \<times> json \<Rightarrow> json list" where
  "blocks_of p = (case liftableBlocks (fst p) (snd p) of Some (Some bs) \<Rightarrow> bs | _ \<Rightarrow> [])"

lemma lift_loop_spec:
  "lift_loop i raws = Some (kept, lifted, moved) \<Longrightarrow>
     kept = map snd (filter stays (zip [i ..< i + length raws] raws)) \<and>
     lifted = concat (map blocks_of (zip [i ..< i + length raws] raws)) \<and>
     moved = length (filter (\<lambda>p. \<not> stays p) (zip [i ..< i + length raws] raws))"
proof (induction raws arbitrary: i kept lifted moved)
  case (Cons raw raws)
  obtain res where res: "liftableBlocks i raw = Some res"
    using Cons.prems by (auto split: option.splits)
  obtain kept' lifted' moved' where rest: "lift_loop (i + 1) raws = Some (kept', lifted', moved')"
    using Cons.prems res by (auto split: option.splits)
  have upt: "[i ..< i + length (raw # raws)] = i # [i + 1 ..< i + 1 + length raws]"
    using upt_conv_Cons [of i "i + length (raw # raws)"] by (simp del: upt_Suc)
  have zip: "zip [i ..< i + length (raw # raws)] (raw # raws) =
      (i, raw) # zip [i + 1 ..< i + 1 + length raws] raws"
    unfolding upt by (rule zip_Cons_Cons)
  have val: "(kept, lifted, moved) =
      (case res of None \<Rightarrow> (raw # kept', lifted', moved')
       | Some blocks \<Rightarrow> (kept', blocks @ lifted', moved' + 1))"
    using Cons.prems res rest by (cases res) auto
  show ?case
    using Cons.IH [OF rest] val res unfolding zip
    by (cases res) (simp_all add: stays_def blocks_of_def del: upt_Suc)
qed simp

lemma lift_loop_kept:
  "\<forall>raw \<in> set raws. later raw = Some None \<Longrightarrow> lift_loop (Suc i) raws = Some (raws, [], 0)"
  by (induction raws arbitrary: i) (auto simp: liftable_Suc)

lemma lift_loop_kept_ok:
  "lift_loop (Suc i) raws = Some (kept, lifted, moved) \<Longrightarrow> \<forall>r \<in> set kept. later r = Some None"
proof (induction raws arbitrary: i kept lifted moved)
  case (Cons raw raws)
  obtain res where res: "later raw = Some res"
    using Cons.prems by (auto simp: liftable_Suc split: option.splits)
  obtain kept' lifted' moved' where rest: "lift_loop (Suc (Suc i)) raws = Some (kept', lifted', moved')"
    using Cons.prems res by (auto simp: liftable_Suc split: option.splits)
  show ?case
    using Cons.IH [OF rest] Cons.prems res rest by (cases res) (auto simp: liftable_Suc)
qed simp

lemma lift_loop_idem:
  assumes "lift_loop 0 raws = Some (kept, lifted, moved)"
  shows "lift_loop 0 kept = Some (kept, [], 0)"
proof (cases raws)
  case Nil
  then show ?thesis using assms by simp
next
  case (Cons raw raws')
  have "liftableBlocks 0 raw \<noteq> None" using assms by (auto simp: Cons split: option.splits)
  then have z: "liftableBlocks 0 raw = Some None"
    by (auto simp: liftableBlocks_def split: json.splits option.splits)
  then obtain kept' lifted' moved' where rest: "lift_loop 1 raws' = Some (kept', lifted', moved')"
    and kept: "kept = raw # kept'"
    using assms by (auto simp: Cons split: option.splits)
  have "\<forall>r \<in> set kept'. later r = Some None" using lift_loop_kept_ok [of 0] rest by simp
  then show ?thesis using z lift_loop_kept [of kept' 0] by (simp add: kept)
qed

section \<open>Properties\<close>

text \<open>
  C30. Rewriting never fails on a body the router found a model in: the rewritten body carries
  exactly the new name in its model field (other spellings of the key included, which the
  decoder reads too), every other key keeps its value, no key appears or disappears but
  \<open>model\<close>, and the bytes are the marshalled form of that object.
\<close>

theorem rewrite_roundtrip:
  assumes "extractModel b \<noteq> []" and "snd b = Some (JObj kvs)"
  shows "\<exists>kvs'. rewriteModelField marshal b m = Rewritten (marshal (JObj kvs'), Some (JObj kvs')) \<and>
    extractModel (marshal (JObj kvs'), Some (JObj kvs')) = m \<and>
    fst ` set kvs' = insert ''model'' (fst ` set kvs) \<and>
    (\<forall>k. k \<noteq> ''model'' \<longrightarrow> json_lookup kvs' k = json_lookup kvs k)"
proof -
  let ?kvs' = "json_canonical (json_set ''model'' (JStr m) kvs)"
  have "model_values_ok kvs" using extractModel_object [OF assms(1)] assms(2) by (metis json.inject(5) option.inject)
  from decode_canonical [OF this] have "decode_model [] ?kvs' = Some m" .
  then have "rewriteModelField marshal b m = Rewritten (marshal (JObj ?kvs'), Some (JObj ?kvs')) \<and>
    extractModel (marshal (JObj ?kvs'), Some (JObj ?kvs')) = m"
    using assms(2) by (simp add: rewriteModelField_def remarshal_def Let_def extractModel_def)
  moreover have "fst ` set ?kvs' = insert ''model'' (fst ` set kvs)"
    unfolding fst_canonical by (simp add: json_set_def)
  moreover have "\<forall>k. k \<noteq> ''model'' \<longrightarrow> json_lookup ?kvs' k = json_lookup kvs k"
    by (simp add: json_lookup_canonical json_lookup_set)
  ultimately show ?thesis by blast
qed

theorem rewrite_roundtrip_witness:
  "\<exists>kvs'. rewriteModelField (\<lambda>_. []) ([], Some (JObj [(''model'', JStr ''a''), (''n'', JNull)])) ''b'' =
      Rewritten ([], Some (JObj kvs')) \<and>
    extractModel ([], Some (JObj kvs')) = ''b'' \<and>
    fst ` set kvs' = insert ''model'' (fst ` set [(''model'', JStr ''a''), (''n'', JNull)]) \<and>
    json_lookup kvs' ''n'' = Some JNull"
proof -
  have "extractModel ([], Some (JObj [(''model'', JStr ''a''), (''n'', JNull)])) \<noteq> []" by code_simp
  from rewrite_roundtrip [OF this, where marshal = "\<lambda>_. []" and m = "''b''"
      and kvs = "[(''model'', JStr ''a''), (''n'', JNull)]"]
  obtain kvs' where *: "rewriteModelField (\<lambda>_. []) ([], Some (JObj [(''model'', JStr ''a''), (''n'', JNull)])) ''b'' =
      Rewritten ([], Some (JObj kvs'))"
    "extractModel ([], Some (JObj kvs')) = ''b''"
    "fst ` set kvs' = insert ''model'' (fst ` set [(''model'', JStr ''a''), (''n'', JNull)])"
    "\<forall>k. k \<noteq> ''model'' \<longrightarrow> json_lookup kvs' k = json_lookup [(''model'', JStr ''a''), (''n'', JNull)] k"
    unfolding snd_conv by (metis (no_types))
  have "json_lookup kvs' ''n'' = Some JNull" using *(4) by (simp add: json_lookup_def)
  with *(1-3) show ?thesis by (intro exI [of _ kvs']) (rule conjI, assumption)+
qed

text \<open>
  The model the router reads is not always the value of the key \<open>model\<close>: the decoder matches
  keys case-insensitively and the last match wins, while the comment on \<open>extractModel\<close>
  speaks of the top-level \<open>model\<close> field.
\<close>

theorem extracted_model_may_be_another_key:
  "json_lookup [(''model'', JStr ''a''), (''MODEL'', JStr ''b'')] ''model'' = Some (JStr ''a'') \<and>
   extractModel ([], Some (JObj [(''model'', JStr ''a''), (''MODEL'', JStr ''b'')])) = ''b''"
  by code_simp

text \<open>
  C31. A successful lift moves at least one entry and loses nothing: with \<open>stays\<close> telling the
  entries that are first or not system messages, the new \<open>messages\<close> are those in their
  order, the new \<open>system\<close> is the old one (as blocks) followed by the content blocks of the
  moved entries in their order, every other key keeps its value, and lifting the result
  again finds nothing to move.
\<close>

theorem lift_moves_system_messages:
  assumes "liftSystemMessages marshal seen_done b = Lifted b' moved"
  shows "\<exists>obj messages system obj'. snd b = Some (JObj obj) \<and>
    json_lookup obj ''messages'' = Some (JArr messages) \<and>
    normalizeToBlocks (json_lookup obj ''system'') = Some system \<and>
    b' = (marshal (JObj obj'), Some (JObj obj')) \<and>
    json_lookup obj' ''messages'' =
      Some (JArr (map snd (filter stays (zip [0 ..< length messages] messages)))) \<and>
    json_lookup obj' ''system'' =
      Some (JArr (system @ concat (map blocks_of (zip [0 ..< length messages] messages)))) \<and>
    (\<forall>k. k \<noteq> ''messages'' \<and> k \<noteq> ''system'' \<longrightarrow> json_lookup obj' k = json_lookup obj k) \<and>
    0 < moved \<and> moved = length (filter (\<lambda>p. \<not> stays p) (zip [0 ..< length messages] messages)) \<and>
    liftSystemMessages marshal False b' = LiftNothing"
proof -
  from assms obtain obj messages where o: "snd b = Some (JObj obj)"
      "json_lookup obj ''messages'' = Some (JArr messages)"
      and lm: "lift_messages marshal obj messages = Lifted b' moved"
    by (auto simp: liftSystemMessages_def split: option.splits json.splits if_splits)
  from lm obtain kept lifted system where
    loop: "lift_loop 0 messages = Some (kept, lifted, moved)" and pos: "0 < moved"
    and system: "normalizeToBlocks (json_lookup obj ''system'') = Some system"
    and b': "b' = remarshal marshal
      (json_set ''messages'' (JArr kept) (json_set ''system'' (JArr (system @ lifted)) obj))"
    by (auto simp: lift_messages_def split: option.splits if_splits)
  let ?obj' = "json_canonical
    (json_set ''messages'' (JArr kept) (json_set ''system'' (JArr (system @ lifted)) obj))"
  have "lift_messages marshal ?obj' kept = LiftNothing"
    using lift_loop_idem [OF loop] by (simp add: lift_messages_def)
  then have "liftSystemMessages marshal False b' = LiftNothing"
    by (simp add: liftSystemMessages_def b' remarshal_lookup json_lookup_canonical json_lookup_set)
  moreover have "b' = (marshal (JObj ?obj'), Some (JObj ?obj'))" by (simp add: b' remarshal_def Let_def)
  ultimately show ?thesis
    using o system pos lift_loop_spec [OF loop]
    by (intro exI [of _ obj] exI [of _ messages] exI [of _ system] exI [of _ ?obj'])
       (simp add: json_lookup_canonical json_lookup_set)
qed

definition lift_sample :: body where
  "lift_sample = ([], Some (JObj [(''messages'', JArr [JObj [(''role'', JStr ''user'')],
     JObj [(''role'', JStr ''system''), (''content'', JStr ''x'')]])]))"

theorem lift_moves_system_messages_witness:
  "\<exists>b'. liftSystemMessages (\<lambda>_. []) False lift_sample = Lifted b' 1 \<and>
    liftSystemMessages (\<lambda>_. []) False b' = LiftNothing"
proof -
  obtain b' where b': "liftSystemMessages (\<lambda>_. []) False lift_sample = Lifted b' 1"
    by (simp add: lift_sample_def liftSystemMessages_def lift_messages_def liftableBlocks_def
        json_lookup_def normalizeToBlocks_def)
  from lift_moves_system_messages [OF b'] b' show ?thesis by blast
qed

end
