(* ===== verification/Response.thy ===== *)
theory Response
  imports Prelude
begin

text \<open>
  What the gates share: the response writer of \<open>net/http\<close> as the handlers use it, the
  status recorder (\<open>status-recorder.go\<close>), the rejection slot (\<open>rejection-reason.go\<close>), the
  429 answer every gate writes (\<open>writeRateLimited\<close> in \<open>concurrency-limiter.go\<close>), and runs
  of event-driven components. The locale \<open>step_invariant\<close> is the contract between a
  component's step function and its invariant; each gate interprets it.
\<close>

section \<open>Runs\<close>

text \<open>A step function answers \<open>None\<close> to an event that cannot happen in the state.\<close>

fun run_steps :: "('s \<Rightarrow> 'e \<Rightarrow> 's option) \<Rightarrow> 's \<Rightarrow> 'e list \<Rightarrow> 's option" where
  "run_steps step s [] = Some s"
| "run_steps step s (e # es) =
     (case step s e of None \<Rightarrow> None | Some s' \<Rightarrow> run_steps step s' es)"

lemma run_steps_append:
  "run_steps step s (es @ es') =
     (case run_steps step s es of None \<Rightarrow> None | Some s' \<Rightarrow> run_steps step s' es')"
  by (induction es arbitrary: s) (auto split: option.splits)

locale step_invariant =
  fixes start :: "'s \<Rightarrow> bool"
    and step :: "'s \<Rightarrow> 'e \<Rightarrow> 's option"
    and inv :: "'s \<Rightarrow> bool"
  assumes start_inv: "start s \<Longrightarrow> inv s"
    and step_inv: "inv s \<Longrightarrow> step s e = Some s' \<Longrightarrow> inv s'"
begin

lemma run_inv: "inv s \<Longrightarrow> run_steps step s es = Some s' \<Longrightarrow> inv s'"
  by (induction es arbitrary: s) (auto split: option.splits dest: step_inv)

lemma reachable_inv: "start s \<Longrightarrow> run_steps step s es = Some s' \<Longrightarrow> inv s'"
  using start_inv run_inv by blast

text \<open>A quantity no step increases is never larger than at the start.\<close>

lemma run_mono:
  fixes f :: "'s \<Rightarrow> 'b :: preorder"
  assumes "\<And>s e s'. inv s \<Longrightarrow> step s e = Some s' \<Longrightarrow> f s' \<le> f s"
  shows "inv s \<Longrightarrow> run_steps step s es = Some s' \<Longrightarrow> f s' \<le> f s"
proof (induction es arbitrary: s)
  case (Cons e es)
  then obtain t where "step s e = Some t" "run_steps step t es = Some s'"
    by (auto split: option.splits)
  with Cons step_inv assms show ?case by (blast intro: order_trans)
qed simp

end

section \<open>Counting requests by phase\<close>

lemma length_filter_mono:
  assumes "\<And>x. P x \<Longrightarrow> Q x"
  shows "length (filter P xs) \<le> length (filter Q xs)"
  using assms by (induction xs) (auto simp: le_SucI)

lemma length_filter_update:
  "i < length xs \<Longrightarrow> int (length (filter P (xs[i := y]))) =
     int (length (filter P xs)) + of_bool (P y) - of_bool (P (xs ! i))"
proof (induction xs arbitrary: i)
  case (Cons x xs)
  then show ?case by (cases i) auto
qed simp

lemma length_filter_pos:
  "i < length xs \<Longrightarrow> P (xs ! i) \<Longrightarrow> 0 < length (filter P xs)"
  by (rule length_pos_if_in_set [of "xs ! i"]) simp

section \<open>Response writers\<close>

text \<open>
  Headers set before the status is written, the status once written, the body so far.
  A second \<open>WriteHeader\<close> is superfluous and ignored by \<open>net/http\<close>; writing a body first
  sends the status 200.
\<close>

record response =
  rs_headers :: "(string \<times> string) list"
  rs_status :: "int option"
  rs_body :: bytes

definition fresh_response :: response where
  "fresh_response = \<lparr>rs_headers = [], rs_status = None, rs_body = []\<rparr>"

definition header_set :: "string \<Rightarrow> string \<Rightarrow> response \<Rightarrow> response" where
  "header_set k v w =
     (if rs_status w = None
      then w\<lparr>rs_headers := (k, v) # filter (\<lambda>h. fst h \<noteq> k) (rs_headers w)\<rparr> else w)"

definition write_header :: "int \<Rightarrow> response \<Rightarrow> response" where
  "write_header code w = (if rs_status w = None then w\<lparr>rs_status := Some code\<rparr> else w)"

definition write_body :: "bytes \<Rightarrow> response \<Rightarrow> response" where
  "write_body b w = (let w' = write_header 200 w in w'\<lparr>rs_body := rs_body w' @ b\<rparr>)"

text \<open>\<open>http.Error\<close>.\<close>

definition http_Error :: "string \<Rightarrow> int \<Rightarrow> response \<Rightarrow> response" where
  "http_Error msg code w =
     write_body (msg @ [CHR 0x0A])
       (write_header code
         (header_set ''X-Content-Type-Options'' ''nosniff''
           (header_set ''Content-Type'' ''text/plain; charset=utf-8'' w)))"

lemma http_Error_status: "rs_status w = None \<Longrightarrow> rs_status (http_Error msg code w) = Some code"
  by (simp add: http_Error_def write_body_def write_header_def header_set_def Let_def)

section \<open>The status recorder\<close>

record status_recorder =
  sr_writer :: response
  sr_status :: int
  sr_wroteHeader :: bool

definition sr_new :: "response \<Rightarrow> status_recorder" where
  "sr_new w = \<lparr>sr_writer = w, sr_status = 0, sr_wroteHeader = False\<rparr>"

definition sr_WriteHeader :: "int \<Rightarrow> status_recorder \<Rightarrow> status_recorder" where
  "sr_WriteHeader code s =
     (if \<not> sr_wroteHeader s
      then s\<lparr>sr_status := code, sr_wroteHeader := True, sr_writer := write_header code (sr_writer s)\<rparr>
      else s)"

definition sr_Write :: "bytes \<Rightarrow> status_recorder \<Rightarrow> status_recorder" where
  "sr_Write b s =
     (let s' = (if \<not> sr_wroteHeader s then sr_WriteHeader 200 s else s)
      in s'\<lparr>sr_writer := write_body b (sr_writer s')\<rparr>)"

text \<open>
  The calls an inner handler may make on its response writer. \<open>Header\<close> is not overridden by
  the recorder, so a header is set on the writer inside.
\<close>

datatype write_call = CallSetHeader string string | CallWriteHeader int | CallWrite bytes

definition sr_call :: "status_recorder \<Rightarrow> write_call \<Rightarrow> status_recorder" where
  "sr_call s c =
     (case c of
        CallSetHeader k v \<Rightarrow> s\<lparr>sr_writer := header_set k v (sr_writer s)\<rparr>
      | CallWriteHeader code \<Rightarrow> sr_WriteHeader code s
      | CallWrite b \<Rightarrow> sr_Write b s)"

definition rw_call :: "response \<Rightarrow> write_call \<Rightarrow> response" where
  "rw_call w c =
     (case c of
        CallSetHeader k v \<Rightarrow> header_set k v w
      | CallWriteHeader code \<Rightarrow> write_header code w
      | CallWrite b \<Rightarrow> write_body b w)"

lemma sr_call_simps:
  "sr_call s (CallSetHeader k v) = s\<lparr>sr_writer := header_set k v (sr_writer s)\<rparr>"
  "sr_call s (CallWriteHeader code) = sr_WriteHeader code s"
  "sr_call s (CallWrite b) = sr_Write b s"
  by (simp_all add: sr_call_def)

text \<open>
  The status a sequence of calls ends with: the code of the first \<open>WriteHeader\<close>, 200 when
  a body came first, 0 when nothing was written.
\<close>

fun first_status :: "write_call list \<Rightarrow> int" where
  "first_status [] = 0"
| "first_status (CallSetHeader k v # cs) = first_status cs"
| "first_status (CallWriteHeader code # cs) = code"
| "first_status (CallWrite b # cs) = 200"

lemma sr_call_wrote:
  "sr_wroteHeader s \<Longrightarrow> sr_wroteHeader (foldl sr_call s cs) \<and> sr_status (foldl sr_call s cs) = sr_status s"
  by (induction cs arbitrary: s)
     (auto simp: sr_call_def sr_WriteHeader_def sr_Write_def Let_def split: write_call.splits)

lemma recorded_status_from:
  "\<not> sr_wroteHeader s \<Longrightarrow> sr_status s = 0 \<Longrightarrow> sr_status (foldl sr_call s cs) = first_status cs"
proof (induction cs arbitrary: s)
  case (Cons c cs)
  then show ?case
    using sr_call_wrote [of "sr_call s c" cs]
    by (cases c) (simp_all add: sr_call_simps sr_WriteHeader_def sr_Write_def Let_def)
qed simp

lemma recorded_status: "sr_status (foldl sr_call (sr_new w) cs) = first_status cs"
  by (rule recorded_status_from) (simp_all add: sr_new_def)

lemma sr_transparent_step:
  assumes "sr_wroteHeader s \<longleftrightarrow> rs_status (sr_writer s) \<noteq> None"
  shows "sr_writer (sr_call s c) = rw_call (sr_writer s) c"
    and "sr_wroteHeader (sr_call s c) \<longleftrightarrow> rs_status (sr_writer (sr_call s c)) \<noteq> None"
  using assms
  by (cases c; auto simp: sr_call_def rw_call_def sr_WriteHeader_def sr_Write_def write_header_def
        write_body_def header_set_def Let_def)+

lemma sr_transparent:
  "sr_wroteHeader s \<longleftrightarrow> rs_status (sr_writer s) \<noteq> None \<Longrightarrow>
   sr_writer (foldl sr_call s cs) = foldl rw_call (sr_writer s) cs"
proof (induction cs arbitrary: s)
  case (Cons c cs)
  then show ?case using sr_transparent_step [OF Cons.prems, of c] by simp
qed simp

section \<open>Rejections\<close>

definition rejectionReasonQueueTimeout :: string where "rejectionReasonQueueTimeout = ''queue_timeout''"
definition rejectionReasonHostQueueTimeout :: string where
  "rejectionReasonHostQueueTimeout = ''host_queue_timeout''"
definition rejectionReasonThrottle :: string where "rejectionReasonThrottle = ''throttle''"
definition rejectionReasonColdStart :: string where "rejectionReasonColdStart = ''cold_start''"
definition rejectionReasonCircuitOpen :: string where "rejectionReasonCircuitOpen = ''circuit_open''"
definition rejectionReasonUpstream :: string where "rejectionReasonUpstream = ''upstream''"

lemmas rejection_reasons =
  rejectionReasonQueueTimeout_def rejectionReasonHostQueueTimeout_def rejectionReasonThrottle_def
  rejectionReasonColdStart_def rejectionReasonCircuitOpen_def rejectionReasonUpstream_def

text \<open>The shared slot of a request: \<open>None\<close> when the context carries no slot.\<close>

type_synonym rejection_slot = "string option"

definition recordRejection :: "string \<Rightarrow> rejection_slot \<Rightarrow> rejection_slot" where
  "recordRejection reason slot =
     (case slot of None \<Rightarrow> None | Some r \<Rightarrow> if r \<noteq> [] then Some r else Some reason)"

definition rejectionReasonOf :: "rejection_slot \<Rightarrow> string" where
  "rejectionReasonOf slot =
     (case slot of Some r \<Rightarrow> if r \<noteq> [] then r else rejectionReasonUpstream
      | None \<Rightarrow> rejectionReasonUpstream)"

definition limiter429Body :: bytes where
  "limiter429Body = ''{\"type\":\"error\",\"error\":{\"type\":\"rate_limit_error\",\"message\":\"too many concurrent requests, please retry\"}}''"

definition writeRateLimited ::
  "int \<Rightarrow> string \<Rightarrow> response \<times> rejection_slot \<Rightarrow> response \<times> rejection_slot" where
  "writeRateLimited retryAfterSeconds reason = (\<lambda>(w, slot).
     (let w1 = header_set ''Content-Type'' ''application/json'' w;
          w2 = (if 0 < retryAfterSeconds then header_set ''Retry-After'' (itoa retryAfterSeconds) w1
                else w1)
      in (write_body limiter429Body (write_header 429 w2), recordRejection reason slot)))"

lemma writeRateLimited_fresh:
  "writeRateLimited n reason (fresh_response, Some []) =
     (\<lparr>rs_headers = (if 0 < n then [(''Retry-After'', itoa n)] else []) @
         [(''Content-Type'', ''application/json'')],
       rs_status = Some 429, rs_body = limiter429Body\<rparr>, Some reason)"
  by (simp add: writeRateLimited_def fresh_response_def header_set_def write_header_def
        write_body_def recordRejection_def)

text \<open>The same answer as the calls it makes on the writer.\<close>

definition rate_limited_calls :: "int \<Rightarrow> write_call list" where
  "rate_limited_calls n =
     CallSetHeader ''Content-Type'' ''application/json'' #
     (if 0 < n then [CallSetHeader ''Retry-After'' (itoa n)] else []) @
     [CallWriteHeader 429, CallWrite limiter429Body]"

lemma writeRateLimited_calls:
  "writeRateLimited n reason (w, slot) =
     (foldl rw_call w (rate_limited_calls n), recordRejection reason slot)"
  by (simp add: writeRateLimited_def rate_limited_calls_def rw_call_def)

lemma rate_limited_status [simp]: "first_status (rate_limited_calls n) = 429"
  by (simp add: rate_limited_calls_def)

lemma rejectionReasonOf_recorded:
  "reason \<noteq> [] \<Longrightarrow> rejectionReasonOf (recordRejection reason (Some [])) = reason"
  by (simp add: rejectionReasonOf_def recordRejection_def)

end
