(* ===== verification/Metrics.thy ===== *)
theory Metrics
  imports Response "HOL-Library.AList"
begin

text \<open>
  What the router counts: the counters and histograms of \<open>metrics.go\<close> as far as the router
  itself writes them, and the in-flight gauge with its sliding peak (\<open>inflight.go\<close>). A
  counter vector is a map from label tuples to values, in which a series exists once it was
  touched; the maps the gauge iterates over are association lists.
\<close>

section \<open>Counters\<close>

type_synonym 'l vec = "'l \<rightharpoonup> int"

definition vec_add :: "'l \<Rightarrow> int \<Rightarrow> 'l vec \<Rightarrow> 'l vec" where
  "vec_add l n v = v(l \<mapsto> (case v l of None \<Rightarrow> 0 | Some x \<Rightarrow> x) + n)"

definition UnknownModelLabel :: string where "UnknownModelLabel = ''_unknown_''"

definition statusClass :: "int \<Rightarrow> bool \<Rightarrow> string" where
  "statusClass status isRouterError =
     (if 200 \<le> status \<and> status < 300 then ''2xx''
      else if 300 \<le> status \<and> status < 400 then ''3xx''
      else if status = 401 \<or> status = 403 then ''4xx_auth''
      else if status = 429 then ''4xx_rate_limited''
      else if 400 \<le> status \<and> status < 500 then ''4xx_bad_request''
      else if 500 \<le> status \<and> status < 600
        then (if isRouterError then ''5xx_router'' else ''5xx_upstream'')
      else itoa status)"

definition rejectionReasons :: "string list" where
  "rejectionReasons =
     [rejectionReasonQueueTimeout, rejectionReasonHostQueueTimeout, rejectionReasonThrottle,
      rejectionReasonColdStart, rejectionReasonCircuitOpen, rejectionReasonUpstream]"

text \<open>A histogram vector keeps the observations of each series, in milliseconds.\<close>

type_synonym 'l hist = "'l \<rightharpoonup> int list"

definition hist_series :: "'l \<Rightarrow> 'l hist \<Rightarrow> 'l hist" where
  "hist_series l h = h(l \<mapsto> (case h l of None \<Rightarrow> [] | Some xs \<Rightarrow> xs))"

definition hist_observe :: "'l \<Rightarrow> int \<Rightarrow> 'l hist \<Rightarrow> 'l hist" where
  "hist_observe l x h = h(l \<mapsto> (case h l of None \<Rightarrow> [] | Some xs \<Rightarrow> xs) @ [x])"

section \<open>The in-flight gauge\<close>

definition InFlightPeakWindowSeconds :: int where "InFlightPeakWindowSeconds = 60"

text \<open>\<open>if_ends\<close> lists the end functions handed out, with the state of their \<open>once\<close>.\<close>

record inflight =
  if_counts :: "(string \<times> int) list"
  if_peakBuckets :: "(string \<times> (int \<times> int) list) list"
  if_ends :: "(string \<times> bool) list"

definition NewInFlight :: inflight where
  "NewInFlight = \<lparr>if_counts = [], if_peakBuckets = [], if_ends = []\<rparr>"

definition if_count :: "inflight \<Rightarrow> string \<Rightarrow> int" where
  "if_count i provider = (case map_of (if_counts i) provider of None \<Rightarrow> 0 | Some n \<Rightarrow> n)"

definition if_buckets :: "inflight \<Rightarrow> string \<Rightarrow> (int \<times> int) list" where
  "if_buckets i provider =
     (case map_of (if_peakBuckets i) provider of None \<Rightarrow> [] | Some b \<Rightarrow> b)"

definition if_pruneLocked :: "string \<Rightarrow> int \<Rightarrow> inflight \<Rightarrow> inflight" where
  "if_pruneLocked provider now i =
     (if map_of (if_peakBuckets i) provider = None then i
      else i\<lparr>if_peakBuckets := AList.update provider
        (filter (\<lambda>b. \<not> InFlightPeakWindowSeconds \<le> now - fst b) (if_buckets i provider))
        (if_peakBuckets i)\<rparr>)"

definition if_Start :: "int \<Rightarrow> string \<Rightarrow> inflight \<Rightarrow> inflight" where
  "if_Start now provider i0 =
     (let i1 = if_pruneLocked provider now i0;
          current = if_count i1 provider + 1;
          b = if_buckets i1 provider;
          seen = (case map_of b now of None \<Rightarrow> 0 | Some n \<Rightarrow> n);
          b' = (if seen < current then AList.update now current b else b)
      in i1\<lparr>if_counts := AList.update provider current (if_counts i1),
            if_peakBuckets := AList.update provider b' (if_peakBuckets i1),
            if_ends := if_ends i1 @ [(provider, False)]\<rparr>)"

definition if_end :: "nat \<Rightarrow> inflight \<Rightarrow> inflight" where
  "if_end k i =
     (let (provider, once) = if_ends i ! k
      in if once then i
         else (let n = if_count i provider - 1
               in i\<lparr>if_counts := AList.update provider (if n < 0 then 0 else n) (if_counts i),
                    if_ends := (if_ends i)[k := (provider, True)]\<rparr>))"

text \<open>One scrape: the gauges of every provider that was started, as (provider, current, peak).\<close>

definition if_peak :: "inflight \<Rightarrow> string \<Rightarrow> int \<Rightarrow> int" where
  "if_peak i provider current = foldl max current (map snd (if_buckets i provider))"

definition if_prune_all :: "int \<Rightarrow> inflight \<Rightarrow> inflight" where
  "if_prune_all now i = foldl (\<lambda>j provider. if_pruneLocked provider now j) i (map fst (if_counts i))"

definition if_Collect :: "int \<Rightarrow> inflight \<Rightarrow> inflight \<times> (string \<times> int \<times> int) list" where
  "if_Collect now i =
     (let i' = if_prune_all now i
      in (i', map (\<lambda>(provider, current). (provider, current, if_peak i' provider current)) (if_counts i)))"

datatype if_event = IfStart int string | IfEnd nat | IfCollect int

definition if_step :: "inflight \<Rightarrow> if_event \<Rightarrow> inflight option" where
  "if_step i e =
     (case e of
        IfStart now provider \<Rightarrow> Some (if_Start now provider i)
      | IfEnd k \<Rightarrow> if k < length (if_ends i) then Some (if_end k i) else None
      | IfCollect now \<Rightarrow> Some (fst (if_Collect now i)))"

section \<open>The metrics of the router\<close>

record metrics =
  RequestsTotal :: "(string \<times> string \<times> string) vec"
  RequestDuration :: "(string \<times> string) hist"
  AliasResolutions :: "(string \<times> string) vec"
  TokensTotal :: "(string \<times> string \<times> string) vec"
  CacheTokensTotal :: "(string \<times> string \<times> string) vec"
  ThrottledTotal :: "string vec"
  ColdAdmissionDelayedTotal :: "string vec"
  ColdAdmissionRefusedTotal :: "string vec"
  ColdTokensInFlight :: "string vec"
  ColdTTFTSeconds :: "string hist"
  ColdPrefillBudgetTokens :: "string vec"
  BreakerStateTransitionsTotal :: "(string \<times> string) vec"
  RejectedTotal :: "(string \<times> string) vec"
  QueueWaitSeconds :: "string hist"
  m_InFlight :: inflight

definition ObserveRequest :: "string \<Rightarrow> string \<Rightarrow> int \<Rightarrow> int \<Rightarrow> bool \<Rightarrow> metrics \<Rightarrow> metrics" where
  "ObserveRequest provider model status latency isRouterError m =
     m\<lparr>RequestsTotal := vec_add (provider, model, statusClass status isRouterError) 1 (RequestsTotal m),
       RequestDuration := hist_observe (provider, model) latency (RequestDuration m)\<rparr>"

definition ObserveRejection :: "string \<Rightarrow> string \<Rightarrow> metrics \<Rightarrow> metrics" where
  "ObserveRejection provider reason m =
     m\<lparr>RejectedTotal := vec_add (provider, reason) 1 (RejectedTotal m)\<rparr>"

definition ObserveTokens :: "string \<Rightarrow> string \<Rightarrow> string \<Rightarrow> int \<Rightarrow> metrics \<Rightarrow> metrics" where
  "ObserveTokens provider model direction count m =
     (if count \<le> 0 then m
      else if direction \<noteq> ''input'' \<and> direction \<noteq> ''output'' then m
      else m\<lparr>TokensTotal := vec_add (provider, model, direction) count (TokensTotal m)\<rparr>)"

definition ObserveCacheTokens :: "string \<Rightarrow> string \<Rightarrow> string \<Rightarrow> int \<Rightarrow> metrics \<Rightarrow> metrics" where
  "ObserveCacheTokens provider model direction count m =
     (if count \<le> 0 then m
      else if direction \<noteq> ''read'' \<and> direction \<noteq> ''creation'' then m
      else m\<lparr>CacheTokensTotal := vec_add (provider, model, direction) count (CacheTokensTotal m)\<rparr>)"

definition ObserveAliasResolution :: "string \<Rightarrow> string \<Rightarrow> metrics \<Rightarrow> metrics" where
  "ObserveAliasResolution alias resolved m =
     m\<lparr>AliasResolutions := vec_add (alias, resolved) 1 (AliasResolutions m)\<rparr>"

definition PreInitRejection :: "string \<Rightarrow> metrics \<Rightarrow> metrics" where
  "PreInitRejection provider m =
     m\<lparr>RejectedTotal := foldl (\<lambda>v reason. vec_add (provider, reason) 0 v) (RejectedTotal m) rejectionReasons,
       QueueWaitSeconds := hist_series provider (QueueWaitSeconds m)\<rparr>"

definition NewMetrics :: "(string \<times> string) list \<Rightarrow> metrics" where
  "NewMetrics aliases =
     \<lparr>RequestsTotal = Map.empty, RequestDuration = Map.empty,
      AliasResolutions = foldl (\<lambda>v a. vec_add a 0 v) Map.empty aliases,
      TokensTotal = Map.empty, CacheTokensTotal = Map.empty, ThrottledTotal = Map.empty,
      ColdAdmissionDelayedTotal = Map.empty, ColdAdmissionRefusedTotal = Map.empty,
      ColdTokensInFlight = Map.empty, ColdTTFTSeconds = Map.empty,
      ColdPrefillBudgetTokens = Map.empty, BreakerStateTransitionsTotal = Map.empty,
      RejectedTotal = Map.empty, QueueWaitSeconds = Map.empty, m_InFlight = NewInFlight\<rparr>"

section \<open>Labels\<close>

text \<open>The seven classes of the documented enumeration.\<close>

definition status_classes :: "string list" where
  "status_classes = [''2xx'', ''3xx'', ''4xx_auth'', ''4xx_rate_limited'', ''4xx_bad_request'',
     ''5xx_upstream'', ''5xx_router'']"

lemma statusClass_bounded:
  "200 \<le> status \<Longrightarrow> status < 600 \<Longrightarrow> statusClass status router \<in> set status_classes"
  by (simp add: statusClass_def status_classes_def)

lemma vec_add_zero_some: "v l = Some x \<Longrightarrow> vec_add l 0 v = v"
  by (simp add: vec_add_def fun_upd_idem)

lemma vec_add_apply:
  "vec_add l n v l' = (if l' = l then Some ((case v l of None \<Rightarrow> 0 | Some x \<Rightarrow> x) + n) else v l')"
  by (simp add: vec_add_def)

section \<open>Association lists\<close>

lemma set_alist_update:
  "distinct (map fst al) \<Longrightarrow> set (AList.update k v al) = insert (k, v) {x \<in> set al. fst x \<noteq> k}"
  by (induction al) (force simp: image_iff)+

section \<open>In-flight counts\<close>

lemma if_buckets_prune:
  "if_buckets (if_pruneLocked q now i) p =
     (if p = q then filter (\<lambda>b. \<not> InFlightPeakWindowSeconds \<le> now - fst b) (if_buckets i p)
      else if_buckets i p)"
  by (auto simp: if_pruneLocked_def if_buckets_def update_conv split: option.splits)

lemma if_prune_same [simp]:
  "if_counts (if_pruneLocked q now i) = if_counts i"
  "if_ends (if_pruneLocked q now i) = if_ends i"
  "if_count (if_pruneLocked q now i) p = if_count i p"
  by (simp_all add: if_pruneLocked_def if_count_def)

lemma if_prune_fold_same:
  "if_counts (foldl (\<lambda>j q. if_pruneLocked q now j) i qs) = if_counts i"
  "if_ends (foldl (\<lambda>j q. if_pruneLocked q now j) i qs) = if_ends i"
  by (induction qs arbitrary: i) simp_all

lemma if_buckets_prune_fold:
  "if_buckets (foldl (\<lambda>j q. if_pruneLocked q now j) i qs) p =
     (if p \<in> set qs then filter (\<lambda>b. \<not> InFlightPeakWindowSeconds \<le> now - fst b) (if_buckets i p)
      else if_buckets i p)"
  by (induction qs arbitrary: i) (auto simp: if_buckets_prune)

lemma if_prune_all_same [simp]:
  "if_counts (if_prune_all now i) = if_counts i" "if_ends (if_prune_all now i) = if_ends i"
  "if_count (if_prune_all now i) p = if_count i p"
  by (simp_all add: if_prune_all_def if_prune_fold_same if_count_def)

lemma if_count_Start: "if_count (if_Start now q i) p = if_count i p + of_bool (p = q)"
  by (simp add: if_Start_def Let_def if_count_def update_conv)

lemma if_ends_Start: "if_ends (if_Start now q i) = if_ends i @ [(q, False)]"
  by (simp add: if_Start_def Let_def)

definition if_open :: "inflight \<Rightarrow> string \<Rightarrow> nat" where
  "if_open i p = length (filter (\<lambda>e. e = (p, False)) (if_ends i))"

definition if_exact :: "inflight \<Rightarrow> bool" where
  "if_exact i \<longleftrightarrow> distinct (map fst (if_counts i)) \<and> (\<forall>p. if_count i p = int (if_open i p))"

lemma if_exact_Start: "if_exact i \<Longrightarrow> if_exact (if_Start now q i)"
  unfolding if_exact_def if_open_def if_count_Start if_ends_Start
  by (auto simp: if_Start_def Let_def distinct_update)

lemma if_exact_end:
  assumes "if_exact i" "k < length (if_ends i)"
  shows "if_exact (if_end k i)"
proof -
  obtain q once where e: "if_ends i ! k = (q, once)" by fastforce
  show ?thesis
  proof (cases once)
    case True
    then show ?thesis using assms(1) e by (simp add: if_end_def Let_def)
  next
    case False
    then have pos: "0 < if_open i q"
      unfolding if_open_def using length_filter_pos [OF assms(2), of "\<lambda>e. e = (q, False)"] e by simp
    have n: "if_count i q = int (if_open i q)" using assms(1) by (simp add: if_exact_def)
    have "int (if_open (if_end k i) p) = int (if_open i p) - of_bool (p = q)" for p
      unfolding if_open_def using e False
      by (simp add: if_end_def Let_def length_filter_update [OF assms(2)])
    moreover have "if_count (if_end k i) p = (if p = q then if_count i q - 1 else if_count i p)" for p
      using e False pos n by (simp add: if_end_def Let_def if_count_def update_conv)
    moreover have "distinct (map fst (if_counts (if_end k i)))"
      using assms(1) e False by (simp add: if_exact_def if_end_def Let_def distinct_update)
    ultimately show ?thesis using assms(1) unfolding if_exact_def by auto
  qed
qed

lemma if_exact_Collect: "if_exact i \<Longrightarrow> if_exact (fst (if_Collect now i))"
  by (simp add: if_exact_def if_open_def if_Collect_def Let_def)

lemma if_exact_step: "if_exact i \<Longrightarrow> if_step i e = Some i' \<Longrightarrow> if_exact i'"
  by (cases e) (auto simp: if_step_def if_exact_Start if_exact_end if_exact_Collect split: if_splits)

interpretation gauge: step_invariant "\<lambda>i. i = NewInFlight" if_step if_exact
proof unfold_locales
  show "if_exact i" if "i = NewInFlight" for i
    using that by (simp add: if_exact_def NewInFlight_def if_count_def if_open_def)
qed (rule if_exact_step)

section \<open>The sliding peak\<close>

text \<open>
  The starts of a provider with the count right after each, along a run, and the clock
  readings of the run.
\<close>

fun if_history :: "inflight \<Rightarrow> if_event list \<Rightarrow> string \<Rightarrow> (int \<times> int) list" where
  "if_history i [] p = []"
| "if_history i (e # es) p =
     (case if_step i e of
        None \<Rightarrow> []
      | Some i' \<Rightarrow>
          (case e of IfStart now q \<Rightarrow> if q = p then [(now, if_count i' p)] else [] | _ \<Rightarrow> []) @
          if_history i' es p)"

fun if_times :: "if_event list \<Rightarrow> int list" where
  "if_times [] = []"
| "if_times (IfStart now q # es) = now # if_times es"
| "if_times (IfEnd k # es) = if_times es"
| "if_times (IfCollect now # es) = now # if_times es"

definition bucket_rel :: "int \<Rightarrow> (int \<times> int) list \<Rightarrow> (int \<times> int) list \<Rightarrow> bool" where
  "bucket_rel T b H \<longleftrightarrow> distinct (map fst b) \<and> set b \<subseteq> set H \<and>
     (\<forall>(s, c) \<in> set H. T - s < InFlightPeakWindowSeconds \<longrightarrow> (\<exists>v. (s, v) \<in> set b \<and> c \<le> v))"

lemma bucket_rel_later: "bucket_rel T b H \<Longrightarrow> T \<le> T' \<Longrightarrow> bucket_rel T' b H"
  by (fastforce simp: bucket_rel_def)

lemma bucket_rel_prune:
  assumes "bucket_rel T b H" "T \<le> now"
  shows "bucket_rel now (filter (\<lambda>x. \<not> InFlightPeakWindowSeconds \<le> now - fst x) b) H"
proof -
  have "distinct (map fst (filter (\<lambda>x. \<not> InFlightPeakWindowSeconds \<le> now - fst x) b))"
    using assms(1) by (simp add: bucket_rel_def distinct_map_filter)
  with assms show ?thesis unfolding bucket_rel_def by (fastforce simp: not_le)
qed

lemma bucket_rel_add:
  assumes "bucket_rel now b H" "0 < c"
  shows "bucket_rel now
    (if (case map_of b now of None \<Rightarrow> 0 | Some n \<Rightarrow> n) < c then AList.update now c b else b) (H @ [(now, c)])"
proof -
  have d: "distinct (map fst b)" using assms(1) by (simp add: bucket_rel_def)
  have look: "map_of b now = Some v" if "(now, v) \<in> set b" for v using d that by simp
  show ?thesis
  proof (cases "(case map_of b now of None \<Rightarrow> 0 | Some n \<Rightarrow> n) < c")
    case True
    note upd = True
    have "\<exists>w. (s, w) \<in> set (AList.update now c b) \<and> x \<le> w"
      if sx: "(s, x) \<in> set (H @ [(now, c)])" "now - s < InFlightPeakWindowSeconds" for s x
    proof (cases "(s, x) = (now, c)")
      case True
      then show ?thesis using set_alist_update [OF d] by auto
    next
      case False
      then have "(s, x) \<in> set H" using sx(1) by auto
      then obtain v where v: "(s, v) \<in> set b" "x \<le> v"
        using assms(1) sx(2) unfolding bucket_rel_def by fastforce
      show ?thesis
      proof (cases "s = now")
        case True
        then have "v < c" using v(1) look [of v] upd by simp
        with True v(2) show ?thesis using set_alist_update [OF d] by auto
      qed (use v set_alist_update [OF d] in auto)
    qed
    with True assms(1) show ?thesis
      unfolding bucket_rel_def by (auto simp: set_alist_update [OF d] distinct_update)
  next
    case False
    then obtain v where "map_of b now = Some v" "c \<le> v" using assms(2) by (cases "map_of b now") auto
    with map_of_SomeD [of b now v] have "(now, v) \<in> set b" "c \<le> v" by auto
    with False assms(1) show ?thesis unfolding bucket_rel_def by auto
  qed
qed

lemma if_buckets_Start:
  "if_buckets (if_Start now q i) p =
     (if p = q then
        (let b = filter (\<lambda>x. \<not> InFlightPeakWindowSeconds \<le> now - fst x) (if_buckets i p); c = if_count i p + 1
         in if (case map_of b now of None \<Rightarrow> 0 | Some n \<Rightarrow> n) < c then AList.update now c b else b)
      else if_buckets i p)"
proof -
  have "if_buckets (if_Start now q i) p =
     (if p = q then (let b = if_buckets (if_pruneLocked q now i) q; c = if_count i q + 1
         in if (case map_of b now of None \<Rightarrow> 0 | Some n \<Rightarrow> n) < c then AList.update now c b else b)
      else if_buckets (if_pruneLocked q now i) p)"
    by (simp add: if_Start_def Let_def if_buckets_def update_conv)
  then show ?thesis by (simp add: if_buckets_prune Let_def)
qed

lemma if_buckets_end: "if_buckets (if_end k i) p = if_buckets i p"
  by (simp add: if_end_def Let_def if_buckets_def split: prod.splits)

lemma if_buckets_Collect:
  "if_buckets (fst (if_Collect now i)) p =
     (if p \<in> fst ` set (if_counts i)
      then filter (\<lambda>x. \<not> InFlightPeakWindowSeconds \<le> now - fst x) (if_buckets i p) else if_buckets i p)"
  by (simp add: if_Collect_def Let_def if_prune_all_def if_buckets_prune_fold)

lemma if_history_rel:
  assumes "if_exact i" "bucket_rel T (if_buckets i p) H" "run_steps if_step i es = Some i'"
    "sorted (T # if_times es @ [now])"
  shows "bucket_rel now (if_buckets i' p) (H @ if_history i es p)"
  using assms
proof (induction es arbitrary: i T H)
  case Nil
  then show ?case by (auto intro: bucket_rel_later)
next
  case (Cons e es)
  from Cons.prems(3) obtain j where j: "if_step i e = Some j" "run_steps if_step j es = Some i'"
    by (auto split: option.splits)
  have ex: "if_exact j" using if_exact_step [OF Cons.prems(1) j(1)] .
  show ?case
  proof (cases e)
    case (IfStart t q)
    then have jj: "j = if_Start t q i" using j(1) by (simp add: if_step_def)
    have t: "T \<le> t" "sorted (t # if_times es @ [now])" using Cons.prems(4) by (auto simp: IfStart)
    have c: "0 < if_count i p + 1" using Cons.prems(1) by (simp add: if_exact_def)
    let ?H = "H @ (if q = p then [(t, if_count j p)] else [])"
    have "bucket_rel t (if_buckets j p) ?H"
    proof (cases "q = p")
      case True
      then show ?thesis
        using bucket_rel_add [OF bucket_rel_prune [OF Cons.prems(2) t(1)] c]
        by (simp add: jj if_buckets_Start if_count_Start Let_def)
    next
      case False
      then show ?thesis
        using bucket_rel_later [OF Cons.prems(2) t(1)] by (simp add: jj if_buckets_Start)
    qed
    from Cons.IH [OF ex this j(2) t(2)] show ?thesis using j(1) by (simp add: IfStart)
  next
    case (IfEnd k)
    then have "if_buckets j p = if_buckets i p"
      using j(1) by (auto simp: if_step_def if_buckets_end split: if_splits)
    then show ?thesis using Cons.IH [OF ex, of T H] Cons.prems(2,4) j by (simp add: IfEnd)
  next
    case (IfCollect t)
    then have t: "T \<le> t" "sorted (t # if_times es @ [now])" and jj: "j = fst (if_Collect t i)"
      using Cons.prems(4) j(1) by (auto simp: if_step_def)
    have "bucket_rel t (if_buckets j p) H"
      using bucket_rel_prune [OF Cons.prems(2) t(1)] bucket_rel_later [OF Cons.prems(2) t(1)]
      by (simp add: jj if_buckets_Collect)
    from Cons.IH [OF ex this j(2) t(2)] show ?thesis using j(1) by (simp add: IfCollect)
  qed
qed

lemma foldl_max: "foldl max (c :: int) xs = Max (insert c (set xs))"
  using Max.set_eq_fold [of c xs] by (simp add: foldl_conv_fold max.commute)

section \<open>Properties\<close>

text \<open>
  The in-flight gauge is exact: after any sequence of starts, ends and scrapes, in whatever
  interleaving and with end functions called repeatedly, the count of every provider is the
  number of its starts whose end function has not run; in particular it is never negative.
\<close>

theorem inflight_count_exact:
  assumes "run_steps if_step NewInFlight es = Some i"
  shows "if_count i p = int (length (filter (\<lambda>e. e = (p, False)) (if_ends i)))"
  using gauge.reachable_inv [OF refl assms] by (simp add: if_exact_def if_open_def)

theorem inflight_count_exact_witness:
  "\<exists>i. run_steps if_step NewInFlight [IfStart 7 ''a'', IfStart 8 ''a'', IfEnd 0, IfEnd 0] = Some i \<and>
     if_count i ''a'' = 1"
proof -
  obtain i where i: "run_steps if_step NewInFlight [IfStart 7 ''a'', IfStart 8 ''a'', IfEnd 0, IfEnd 0] = Some i"
    and e: "if_ends i = [(''a'', True), (''a'', False)]"
    by (simp add: if_step_def if_Start_def if_end_def NewInFlight_def Let_def if_pruneLocked_def)
  from inflight_count_exact [OF i, of "''a''"] i e show ?thesis by simp
qed

text \<open>
  What a scrape reports, with a clock that never goes back: for every provider started so
  far, the current count and, as the peak, the largest of that count and of the counts
  right after each start within the last 60 seconds.
\<close>

theorem scrape_reports_peak_of_starts:
  assumes "run_steps if_step NewInFlight es = Some i" "sorted (if_times es @ [now])"
    and "(p, current, peak) \<in> set (snd (if_Collect now i))"
  shows "current = if_count i p \<and>
    peak = Max (insert current
      {c. \<exists>s. (s, c) \<in> set (if_history NewInFlight es p) \<and> now - s < InFlightPeakWindowSeconds})"
proof -
  let ?H = "if_history NewInFlight es p"
  let ?b = "filter (\<lambda>x. \<not> InFlightPeakWindowSeconds \<le> now - fst x) (if_buckets i p)"
  have ex: "if_exact i" using gauge.reachable_inv [OF refl assms(1)] .
  have mem: "(p, current) \<in> set (if_counts i)" and peak: "peak = if_peak (if_prune_all now i) p current"
    using assms(3) by (auto simp: if_Collect_def Let_def)
  then have cur: "current = if_count i p" using ex by (simp add: if_exact_def if_count_def)
  define T where "T = (case if_times es of [] \<Rightarrow> now | t # _ \<Rightarrow> t)"
  have "bucket_rel T (if_buckets NewInFlight p) []"
    by (simp add: bucket_rel_def NewInFlight_def if_buckets_def)
  moreover have "sorted (T # if_times es @ [now])" using assms(2) by (cases "if_times es") (auto simp: T_def)
  moreover have "if_exact NewInFlight" using gauge.start_inv by simp
  ultimately have "bucket_rel now (if_buckets i p) ?H"
    using if_history_rel [OF _ _ assms(1), of T p "[]" now] by simp
  from bucket_rel_prune [OF this order_refl] have rel: "bucket_rel now ?b ?H" .
  have "p \<in> fst ` set (if_counts i)" using mem by force
  then have "peak = Max (insert current (snd ` set ?b))"
    by (simp add: peak if_peak_def if_prune_all_def if_buckets_prune_fold foldl_max)
  also have "\<dots> = Max (insert current {c. \<exists>s. (s, c) \<in> set ?H \<and> now - s < InFlightPeakWindowSeconds})"
    (is "Max (insert current ?A) = Max (insert current ?B)")
  proof (rule Max_eq_if)
    have "?B \<subseteq> snd ` set ?H" by force
    then show "finite (insert current ?B)" by (simp add: finite_subset)
    show "\<forall>a \<in> insert current ?A. \<exists>b \<in> insert current ?B. a \<le> b"
      using rel by (fastforce simp: bucket_rel_def not_le)
    show "\<forall>b \<in> insert current ?B. \<exists>a \<in> insert current ?A. b \<le> a"
      using rel by (fastforce simp: bucket_rel_def not_le)
  qed simp
  finally show ?thesis using cur by simp
qed

theorem scrape_reports_peak_of_starts_witness:
  "\<exists>i peak. run_steps if_step NewInFlight [IfStart 0 ''a'', IfStart 70 ''a''] = Some i \<and>
     (''a'', 2, peak) \<in> set (snd (if_Collect 75 i)) \<and>
     peak = Max (insert 2 {c. \<exists>s. (s, c) \<in> set [(0, 1), (70, 2 :: int)] \<and> 75 - s < (60 :: int)})"
proof -
  let ?es = "[IfStart 0 ''a'', IfStart 70 ''a'']"
  obtain i where i: "run_steps if_step NewInFlight ?es = Some i"
      "snd (if_Collect 75 i) = [(''a'', 2, 2)]"
      "if_history NewInFlight ?es ''a'' = [(0, 1), (70, 2)]"
    by (simp add: if_step_def if_Start_def if_Collect_def if_prune_all_def if_peak_def
      NewInFlight_def Let_def if_pruneLocked_def if_count_def if_buckets_def InFlightPeakWindowSeconds_def)
  have "sorted (if_times ?es @ [75])" "(''a'', 2, 2) \<in> set (snd (if_Collect 75 i))"
    using i(2) by simp_all
  from scrape_reports_peak_of_starts [OF i(1) this] this(2) i(1) show ?thesis
    unfolding i(3) InFlightPeakWindowSeconds_def by blast
qed

text \<open>
  The peak can be lower than the in-flight count was within the window: buckets are only
  written by starts, so when all three of a provider's requests start at second 0 and two
  end at second 100, a scrape at second 101 reports a peak of 1, although three requests
  were in flight a second earlier. The comment on \<open>InFlight\<close> promises the maximum count
  observed within the last 60 seconds.
\<close>

theorem peak_forgets_long_requests:
  "\<exists>i. run_steps if_step NewInFlight
      [IfStart 0 ''a'', IfStart 0 ''a'', IfStart 0 ''a'', IfCollect 100, IfEnd 0, IfEnd 1] = Some i \<and>
    snd (if_Collect 101 i) = [(''a'', 1, 1)]"
  by (simp add: if_step_def if_Start_def if_end_def if_Collect_def if_prune_all_def if_peak_def
      NewInFlight_def Let_def if_pruneLocked_def if_count_def if_buckets_def InFlightPeakWindowSeconds_def)

text \<open>
  Every status a handler can answer with falls in one of the seven documented classes, and
  the classes of router errors and upstream faults are kept apart.
\<close>

theorem status_class_enumeration:
  assumes "200 \<le> status" "status < 600"
  shows "statusClass status isRouterError \<in> set status_classes \<and>
    (statusClass status isRouterError = ''4xx_rate_limited'' \<longleftrightarrow> status = 429) \<and>
    (statusClass status isRouterError = ''5xx_router'' \<longleftrightarrow> 500 \<le> status \<and> isRouterError)"
  using statusClass_bounded [OF assms] assms by (simp add: statusClass_def)

theorem status_class_enumeration_witness: "statusClass 503 True = ''5xx_router''"
  using status_class_enumeration [of 503 True] by simp

end
