(* ===== verification/Usage.thy ===== *)
theory Usage
  imports Body Metrics
begin

text \<open>
  Token accounting (\<open>usage-recorder.go\<close>): the recorder that tees the response into a bounded
  tail, and the extraction of token counts from that tail, for server-sent events and for
  plain JSON. Parsing of JSON and decompression are the functions \<open>parse\<close> and \<open>gunzip\<close> of
  the standard library, arguments of the definitions: \<open>parse\<close> answers \<open>None\<close> to bytes that
  are not one JSON document; \<open>gunzip\<close> answers \<open>None\<close> when the gzip header is bad, and
  otherwise the bytes the stream yields and whether it then ends in an error.
\<close>

section \<open>The tail buffer\<close>

definition TailBufferBytes :: nat where "TailBufferBytes = 2097152"
definition decodedTailCapBytes :: nat where "decodedTailCapBytes = 8388608"

definition tail_write :: "bytes \<Rightarrow> bytes \<Rightarrow> bytes" where
  "tail_write b buf =
     (if b = [] then buf
      else if TailBufferBytes \<le> length b then drop (length b - TailBufferBytes) b
      else drop (length buf + length b - TailBufferBytes) buf @ b)"

text \<open>
  The recorder wraps its own status recorder around the writer it is given, the router's
  status recorder. \<open>n\<close> is the number of bytes the connection accepts.
\<close>

record usage_recorder =
  ur_status :: int
  ur_wroteHeader :: bool
  ur_next :: status_recorder
  ur_tail :: bytes

definition newUsageRecorder :: "status_recorder \<Rightarrow> usage_recorder" where
  "newUsageRecorder rec = \<lparr>ur_status = 0, ur_wroteHeader = False, ur_next = rec, ur_tail = []\<rparr>"

definition ur_WriteHeader :: "int \<Rightarrow> usage_recorder \<Rightarrow> usage_recorder" where
  "ur_WriteHeader code u =
     (if \<not> ur_wroteHeader u
      then u\<lparr>ur_status := code, ur_wroteHeader := True, ur_next := sr_WriteHeader code (ur_next u)\<rparr>
      else u)"

definition ur_Write :: "nat \<Rightarrow> bytes \<Rightarrow> usage_recorder \<Rightarrow> usage_recorder" where
  "ur_Write n b u =
     (let u1 = (if \<not> ur_wroteHeader u then ur_WriteHeader 200 u else u)
      in u1\<lparr>ur_next := sr_Write (take n b) (ur_next u1), ur_tail := tail_write (take n b) (ur_tail u1)\<rparr>)"

datatype ur_call = UrWriteHeader int | UrWrite nat bytes

definition ur_do :: "usage_recorder \<Rightarrow> ur_call \<Rightarrow> usage_recorder" where
  "ur_do u c = (case c of UrWriteHeader code \<Rightarrow> ur_WriteHeader code u | UrWrite n b \<Rightarrow> ur_Write n b u)"

section \<open>Numbers and keys\<close>

fun parse_digits :: "int \<Rightarrow> string \<Rightarrow> int option" where
  "parse_digits acc [] = Some acc"
| "parse_digits acc (c # cs) =
     (if CHR ''0'' \<le> c \<and> c \<le> CHR ''9'' then parse_digits (10 * acc + (of_char c - 48)) cs else None)"

text \<open>\<open>strconv.Atoi\<close>.\<close>

definition atoi :: "string \<Rightarrow> int option" where
  "atoi s =
     (let neg = (s \<noteq> [] \<and> hd s = CHR ''-'');
          ds = (if s \<noteq> [] \<and> (hd s = CHR ''-'' \<or> hd s = CHR ''+'') then tl s else s)
      in if ds = [] then None
         else case parse_digits 0 ds of
           None \<Rightarrow> None
         | Some n \<Rightarrow>
             (let v = (if neg then - n else n)
              in if - (2 ^ 63) \<le> v \<and> v < 2 ^ 63 then Some v else None))"

text \<open>
  Folding of a decoded key: besides upper case, the long s and the Kelvin sign (in UTF-8)
  fold to letters of the field names.
\<close>

fun json_fold :: "string \<Rightarrow> string" where
  "json_fold [] = []"
| "json_fold (c # cs) =
     (if c = CHR 0xC5 \<and> take 1 cs = [CHR 0xBF] then CHR ''s'' # json_fold (drop 1 cs)
      else if c = CHR 0xE2 \<and> take 2 cs = [CHR 0x84, CHR 0xAA] then CHR ''k'' # json_fold (drop 2 cs)
      else lower_char c # json_fold cs)"

section \<open>The usage object\<close>

record usage_counts =
  InputTokens :: int
  OutputTokens :: int
  CacheReadInputTokens :: int
  CacheCreationTokens :: int

definition no_counts :: usage_counts where
  "no_counts = \<lparr>InputTokens = 0, OutputTokens = 0, CacheReadInputTokens = 0, CacheCreationTokens = 0\<rparr>"

text \<open>Decoding into an int field: \<open>null\<close> leaves it, anything but an integer literal fails.\<close>

definition decode_int :: "int \<Rightarrow> json \<Rightarrow> int option" where
  "decode_int cur v = (case v of JNum lit \<Rightarrow> atoi lit | JNull \<Rightarrow> Some cur | _ \<Rightarrow> None)"

definition decode_count :: "string \<Rightarrow> json \<Rightarrow> usage_counts \<Rightarrow> usage_counts option" where
  "decode_count k v u =
     (if json_fold k = ''input_tokens''
        then map_option (\<lambda>n. u\<lparr>InputTokens := n\<rparr>) (decode_int (InputTokens u) v)
      else if json_fold k = ''output_tokens''
        then map_option (\<lambda>n. u\<lparr>OutputTokens := n\<rparr>) (decode_int (OutputTokens u) v)
      else if json_fold k = ''cache_read_input_tokens''
        then map_option (\<lambda>n. u\<lparr>CacheReadInputTokens := n\<rparr>) (decode_int (CacheReadInputTokens u) v)
      else if json_fold k = ''cache_creation_input_tokens''
        then map_option (\<lambda>n. u\<lparr>CacheCreationTokens := n\<rparr>) (decode_int (CacheCreationTokens u) v)
      else Some u)"

fun decode_counts :: "usage_counts \<Rightarrow> (string \<times> json) list \<Rightarrow> usage_counts option" where
  "decode_counts u [] = Some u"
| "decode_counts u ((k, v) # kvs) =
     (case decode_count k v u of None \<Rightarrow> None | Some u' \<Rightarrow> decode_counts u' kvs)"

definition parse_usage :: "json \<Rightarrow> usage_counts option" where
  "parse_usage raw = (case raw of JObj kvs \<Rightarrow> decode_counts no_counts kvs | _ \<Rightarrow> None)"

fun last_usage :: "json option \<Rightarrow> (string \<times> json) list \<Rightarrow> json option" where
  "last_usage cur [] = cur"
| "last_usage cur ((k, v) # kvs) = last_usage (if json_fold k = ''usage'' then Some v else cur) kvs"

text \<open>The two raw fields of an event's payload: \<open>usage\<close> and \<open>message.usage\<close>.\<close>

fun usage_check :: "json option \<times> json option \<Rightarrow> (string \<times> json) list \<Rightarrow>
    (json option \<times> json option) option" where
  "usage_check cur [] = Some cur"
| "usage_check (u, mu) ((k, v) # kvs) =
     (if json_fold k = ''usage'' then usage_check (Some v, mu) kvs
      else if json_fold k = ''message'' then
        (case v of
           JObj ms \<Rightarrow> usage_check (u, last_usage mu ms) kvs
         | JNull \<Rightarrow> usage_check (u, mu) kvs
         | _ \<Rightarrow> None)
      else usage_check (u, mu) kvs)"

section \<open>Server-sent events\<close>

abbreviation newline :: char where "newline \<equiv> CHR 0x0A"
abbreviation "data_line \<equiv> newline # ''data: ''"
abbreviation "blank_line \<equiv> [newline, newline]"

record usage_presence =
  inputPresent :: bool
  outputPresent :: bool
  cacheReadPresent :: bool
  cacheCreationPresent :: bool
  up_input :: int
  up_output :: int
  cacheRead :: int
  cacheCreation :: int

definition no_presence :: usage_presence where
  "no_presence = \<lparr>inputPresent = False, outputPresent = False, cacheReadPresent = False,
     cacheCreationPresent = False, up_input = 0, up_output = 0, cacheRead = 0, cacheCreation = 0\<rparr>"

definition presence_of :: "usage_counts \<Rightarrow> usage_presence" where
  "presence_of u = \<lparr>inputPresent = True, outputPresent = True, cacheReadPresent = True,
     cacheCreationPresent = True, up_input = InputTokens u, up_output = OutputTokens u,
     cacheRead = CacheReadInputTokens u, cacheCreation = CacheCreationTokens u\<rparr>"

definition event_data :: "bytes \<Rightarrow> bytes \<Rightarrow> bytes option" where
  "event_data tail eventMarker =
     (case str_last_index tail eventMarker of
        None \<Rightarrow> None
      | Some idx \<Rightarrow>
          (let rest = drop idx tail;
               dataIdx = (case str_index rest data_line of
                            Some d \<Rightarrow> Some d
                          | None \<Rightarrow> map_option (\<lambda>d. d + 2) (str_index rest (CHR 0x0D # data_line)))
           in case dataIdx of
                None \<Rightarrow> None
              | Some d \<Rightarrow>
                  (let dataStart = idx + d + length data_line
                   in if length tail \<le> dataStart then None
                      else case str_index (drop dataStart tail) blank_line of
                        None \<Rightarrow> None
                      | Some lineEnd \<Rightarrow> Some (take lineEnd (drop dataStart tail)))))"

definition event_usage :: "json option \<Rightarrow> usage_counts option" where
  "event_usage doc =
     (case doc of
        Some (JObj kvs) \<Rightarrow>
          (case usage_check (None, None) kvs of
             None \<Rightarrow> None
           | Some (u, mu) \<Rightarrow>
               (case (case u of None \<Rightarrow> mu | Some raw \<Rightarrow> Some raw) of
                  None \<Rightarrow> None
                | Some raw \<Rightarrow> if raw = JNull then None else parse_usage raw))
      | _ \<Rightarrow> None)"

definition scanSSEEvent :: "(bytes \<Rightarrow> json option) \<Rightarrow> bytes \<Rightarrow> bytes \<Rightarrow> usage_presence \<times> bool" where
  "scanSSEEvent parse tail eventMarker =
     (case event_data tail eventMarker of
        None \<Rightarrow> (no_presence, False)
      | Some dataBytes \<Rightarrow>
          (case event_usage (parse dataBytes) of
             None \<Rightarrow> (no_presence, False)
           | Some u \<Rightarrow> (presence_of u, True)))"

record token_usage =
  tu_Input :: string
  tu_Output :: string
  tu_CacheRead :: string
  tu_CacheCreation :: string

definition noUsage :: token_usage where
  "noUsage = \<lparr>tu_Input = ''-'', tu_Output = ''-'', tu_CacheRead = [], tu_CacheCreation = []\<rparr>"

definition logLineValue :: "token_usage \<Rightarrow> string \<times> string" where
  "logLineValue u =
     (if tu_Input u = [] then ''-'' else tu_Input u, if tu_Output u = [] then ''-'' else tu_Output u)"

definition preferPositive :: "bool \<Rightarrow> int \<Rightarrow> bool \<Rightarrow> int \<Rightarrow> string" where
  "preferPositive startPresent start deltaPresent delta =
     (if startPresent \<and> 0 < start then itoa start
      else if deltaPresent \<and> 0 < delta then itoa delta
      else if startPresent then itoa start
      else [])"

definition start_marker :: bytes where "start_marker = ''event: message_start''"
definition delta_marker :: bytes where "delta_marker = ''event: message_delta''"

definition combine_usage :: "usage_presence \<Rightarrow> usage_presence \<Rightarrow> token_usage" where
  "combine_usage s d =
     (let inStr = preferPositive (inputPresent s) (up_input s) (inputPresent d) (up_input d);
          outStr = (if outputPresent d then itoa (up_output d) else [])
      in if inStr = [] \<and> outStr = [] then noUsage
         else \<lparr>tu_Input = inStr, tu_Output = outStr,
           tu_CacheRead = preferPositive (cacheReadPresent s) (cacheRead s) (cacheReadPresent d) (cacheRead d),
           tu_CacheCreation = preferPositive (cacheCreationPresent s) (cacheCreation s)
             (cacheCreationPresent d) (cacheCreation d)\<rparr>)"

definition extractUsageSSE :: "(bytes \<Rightarrow> json option) \<Rightarrow> bytes \<Rightarrow> token_usage" where
  "extractUsageSSE parse tail =
     combine_usage (fst (scanSSEEvent parse tail start_marker)) (fst (scanSSEEvent parse tail delta_marker))"

definition extractUsageJSON :: "(bytes \<Rightarrow> json option) \<Rightarrow> bytes \<Rightarrow> token_usage" where
  "extractUsageJSON parse tail =
     (case parse tail of
        Some (JObj kvs) \<Rightarrow>
          (case last_usage None kvs of
             None \<Rightarrow> noUsage
           | Some raw \<Rightarrow>
               if raw = JNull then noUsage
               else (case parse_usage raw of
                  None \<Rightarrow> noUsage
                | Some u \<Rightarrow>
                    \<lparr>tu_Input = itoa (InputTokens u), tu_Output = itoa (OutputTokens u),
                     tu_CacheRead = itoa (CacheReadInputTokens u),
                     tu_CacheCreation = itoa (CacheCreationTokens u)\<rparr>))
      | _ \<Rightarrow> noUsage)"

definition decodeIfEncoded :: "(bytes \<Rightarrow> (bytes \<times> bool) option) \<Rightarrow> bytes \<Rightarrow> string \<Rightarrow> bytes" where
  "decodeIfEncoded gunzip tail contentEncoding =
     (let enc = to_lower (trim_space contentEncoding)
      in if enc = [] \<or> enc = ''identity'' then tail
         else if enc = ''gzip'' then
           (case gunzip tail of
              None \<Rightarrow> []
            | Some (out, failed) \<Rightarrow>
                if decodedTailCapBytes \<le> length out then take decodedTailCapBytes out
                else if failed then [] else out)
         else [])"

definition ExtractUsage :: "(bytes \<Rightarrow> json option) \<Rightarrow> (bytes \<Rightarrow> (bytes \<times> bool) option) \<Rightarrow>
    bytes \<Rightarrow> string \<Rightarrow> string \<Rightarrow> token_usage" where
  "ExtractUsage parse gunzip tail contentType contentEncoding =
     (if tail = [] then noUsage
      else
        (let t = decodeIfEncoded gunzip tail contentEncoding
         in if t = [] then noUsage
            else if str_contains contentType ''text/event-stream'' \<or> str_contains t ''event: message_''
              then extractUsageSSE parse t
            else extractUsageJSON parse t))"

section \<open>The tail buffer keeps the end\<close>

definition last_bytes :: "nat \<Rightarrow> bytes \<Rightarrow> bytes" where
  "last_bytes n s = drop (length s - n) s"

lemma tail_write_last: "tail_write b (last_bytes TailBufferBytes s) = last_bytes TailBufferBytes (s @ b)"
proof -
  let ?N = TailBufferBytes
  show ?thesis
  proof (cases "b = [] \<or> ?N \<le> length b")
    case True
    then show ?thesis by (auto simp: tail_write_def last_bytes_def)
  next
    case False
    then have "length (drop (length s - ?N) s) + length b - ?N + (length s - ?N) =
        length s + length b - ?N"
      by auto
    then show ?thesis using False by (simp add: tail_write_def last_bytes_def)
  qed
qed

lemma write_header_body [simp]: "rs_body (write_header code w) = rs_body w"
  by (simp add: write_header_def)

lemma sr_WriteHeader_body [simp]: "rs_body (sr_writer (sr_WriteHeader code s)) = rs_body (sr_writer s)"
  by (simp add: sr_WriteHeader_def)

lemma sr_Write_body [simp]: "rs_body (sr_writer (sr_Write b s)) = rs_body (sr_writer s) @ b"
  by (simp add: sr_Write_def write_body_def Let_def)

lemma ur_do_tail:
  assumes "rs_body (sr_writer (ur_next u)) = pre @ s" "ur_tail u = last_bytes TailBufferBytes s"
  shows "\<exists>s'. rs_body (sr_writer (ur_next (ur_do u c))) = pre @ s' \<and>
    ur_tail (ur_do u c) = last_bytes TailBufferBytes s'"
proof (cases c)
  case (UrWriteHeader code)
  then show ?thesis using assms by (auto simp: ur_do_def ur_WriteHeader_def)
next
  case (UrWrite n b)
  then have "rs_body (sr_writer (ur_next (ur_do u c))) = pre @ (s @ take n b) \<and>
      ur_tail (ur_do u c) = last_bytes TailBufferBytes (s @ take n b)"
    using assms by (auto simp: ur_do_def ur_Write_def ur_WriteHeader_def Let_def tail_write_last)
  then show ?thesis by blast
qed

lemma ur_run_tail:
  assumes "rs_body (sr_writer (ur_next u)) = pre @ s" "ur_tail u = last_bytes TailBufferBytes s"
  shows "\<exists>s'. rs_body (sr_writer (ur_next (foldl ur_do u cs))) = pre @ s' \<and>
    ur_tail (foldl ur_do u cs) = last_bytes TailBufferBytes s'"
  using assms
proof (induction cs arbitrary: u s)
  case (Cons c cs)
  from ur_do_tail [OF Cons.prems, of c] show ?case using Cons.IH by auto
qed auto

text \<open>The router's status recorder sees the same header and bytes as without the tee.\<close>

definition sr_of_call :: "ur_call \<Rightarrow> write_call" where
  "sr_of_call c = (case c of UrWriteHeader code \<Rightarrow> CallWriteHeader code | UrWrite n b \<Rightarrow> CallWrite (take n b))"

lemma ur_do_next:
  assumes "ur_wroteHeader u = sr_wroteHeader (ur_next u)"
  shows "ur_next (ur_do u c) = sr_call (ur_next u) (sr_of_call c)"
    and "ur_wroteHeader (ur_do u c) = sr_wroteHeader (ur_next (ur_do u c))"
  using assms
  by (cases c; auto simp: ur_do_def sr_of_call_def sr_call_def ur_WriteHeader_def ur_Write_def
        sr_WriteHeader_def sr_Write_def Let_def)+

lemma ur_run_next:
  "ur_wroteHeader u = sr_wroteHeader (ur_next u) \<Longrightarrow>
   ur_next (foldl ur_do u cs) = foldl sr_call (ur_next u) (map sr_of_call cs)"
proof (induction cs arbitrary: u)
  case (Cons c cs)
  then show ?case using ur_do_next [OF Cons.prems, of c] by simp
qed simp

section \<open>Numbers\<close>

lemma parse_digits_append:
  "parse_digits acc (xs @ ys) = (case parse_digits acc xs of None \<Rightarrow> None | Some a \<Rightarrow> parse_digits a ys)"
  by (induction acc xs rule: parse_digits.induct) auto

lemma digit_char:
  assumes "d < 10"
  shows "CHR ''0'' \<le> (char_of (48 + d :: nat) :: char)" "(char_of (48 + d) :: char) \<le> CHR ''9''"
    "of_char (char_of (48 + d :: nat) :: char) = (48 + int d :: int)"
proof -
  have "of_char (char_of (48 + d :: nat) :: char) = (48 + d :: nat)" using assms by simp
  then show "CHR ''0'' \<le> (char_of (48 + d :: nat) :: char)" "(char_of (48 + d) :: char) \<le> CHR ''9''"
    using assms by (simp_all add: less_eq_char_def)
  show "of_char (char_of (48 + d :: nat) :: char) = (48 + int d :: int)"
    using assms by (metis \<open>of_char (char_of (48 + d)) = 48 + d\<close> of_nat_add of_nat_numeral of_nat_of_char)
qed

lemma parse_nat_digits: "parse_digits 0 (nat_digits n) = Some (int n)"
proof (induction n rule: nat_digits.induct)
  case (1 n)
  show ?case
  proof (cases "n < 10")
    case True
    then show ?thesis using digit_char [of n] by (simp add: nat_digits.simps [of n])
  next
    case False
    have m: "n mod 10 < 10" by simp
    have "parse_digits 0 (nat_digits n) = Some (10 * int (n div 10) + int (n mod 10))"
      using 1 False digit_char [OF m]
      by (simp add: nat_digits.simps [of n] parse_digits_append)
    also have "10 * int (n div 10) + int (n mod 10) = int n"
      using div_mult_mod_eq [of n 10] by (metis mult.commute of_nat_add of_nat_mult of_nat_numeral)
    finally show ?thesis .
  qed
qed

lemma nat_digits_hd: "nat_digits n \<noteq> [] \<and> (\<exists>d < 10. hd (nat_digits n) = char_of (48 + d :: nat))"
proof (induction n rule: nat_digits.induct)
  case (1 n)
  then show ?case by (auto simp: nat_digits.simps [of n])
qed

lemma atoi_itoa:
  assumes "- (2 ^ 63) \<le> n" "n < 2 ^ 63"
  shows "atoi (itoa n) = Some n"
proof (cases "n < 0")
  case True
  then show ?thesis
    using assms nat_digits_hd [of "nat (- n)"] by (simp add: atoi_def itoa_def Let_def parse_nat_digits)
next
  case False
  obtain d :: nat where d: "d < 10" "hd (nat_digits (nat n)) = char_of (48 + d)"
    using nat_digits_hd [of "nat n"] by blast
  have "hd (nat_digits (nat n)) \<noteq> CHR ''-''" "hd (nat_digits (nat n)) \<noteq> CHR ''+''"
    using digit_char(1) [OF d(1)] unfolding d(2) [symmetric] by (auto simp: less_eq_char_def)
  then show ?thesis
    using False assms nat_digits_hd [of "nat n"] by (simp add: atoi_def itoa_def Let_def parse_nat_digits)
qed

section \<open>Searching the stream\<close>

text \<open>A pattern whose first byte does not occur before is found right there.\<close>

lemma str_index_here:
  "p \<notin> set a \<Longrightarrow> str_index (a @ (p # ps) @ b) (p # ps) = Some (length a)"
  by (induction a) (auto simp: has_prefix_def)

text \<open>A pattern without a border cannot overlap its own occurrence.\<close>

definition borderless :: "bytes \<Rightarrow> bool" where
  "borderless pat \<longleftrightarrow> (\<forall>k < length pat. 0 < k \<longrightarrow> take (length pat - k) pat \<noteq> drop k pat)"

lemma str_last_index_None: "str_last_index s pat = None \<longleftrightarrow> \<not> str_contains s pat"
proof (induction s)
  case (Cons c s)
  then show ?case by (auto simp: str_contains_def split: option.splits)
qed (simp add: str_contains_def)

lemma str_last_index_here:
  assumes "\<not> str_contains (tl pat @ b) pat" "pat \<noteq> []"
  shows "str_last_index (a @ pat @ b) pat = Some (length a)"
proof (induction a)
  case Nil
  obtain p ps where pat: "pat = p # ps" using assms(2) by (cases pat) auto
  then have "str_last_index (ps @ b) pat = None" using assms(1) by (simp add: str_last_index_None)
  then show ?case by (simp add: pat has_prefix_def)
qed simp

lemma no_overlap:
  assumes "borderless pat" "\<not> str_contains b pat" "pat \<noteq> []"
  shows "\<not> str_contains (tl pat @ b) pat"
proof
  assume "str_contains (tl pat @ b) pat"
  then obtain x y where xy: "tl pat @ b = x @ pat @ y" unfolding str_contains_iff by blast
  show False
  proof (cases "length (tl pat) \<le> length x")
    case True
    then have "b = drop (length (tl pat)) x @ pat @ y"
      using xy by (metis append_eq_append_conv_if append_eq_conv_conj drop_append drop_eq_Nil
          append_Nil diff_is_0_eq drop0)
    then show False using assms(2) unfolding str_contains_iff by blast
  next
    case False
    let ?k = "Suc (length x)"
    have k: "?k < length pat" using False by simp
    have "drop (length x) (tl pat @ b) = pat @ y" using xy by simp
    then have "drop ?k pat @ b = pat @ y" using False by (simp add: drop_Suc drop_append)
    then have "take (length pat - ?k) pat = drop ?k pat"
      by (metis append_eq_append_conv_if append_eq_conv_conj length_drop diff_le_self take_append
          append_take_drop_id order_refl)
    then show False using assms(1) k unfolding borderless_def by blast
  qed
qed

lemma markers_borderless: "borderless start_marker" "borderless delta_marker"
proof -
  have "\<forall>k \<in> set [1 ..< length start_marker].
      take (length start_marker - k) start_marker \<noteq> drop k start_marker"
    unfolding start_marker_def by code_simp
  then show "borderless start_marker" by (auto simp: borderless_def)
  have "\<forall>k \<in> set [1 ..< length delta_marker].
      take (length delta_marker - k) delta_marker \<noteq> drop k delta_marker"
    unfolding delta_marker_def by code_simp
  then show "borderless delta_marker" by (auto simp: borderless_def)
qed

lemma event_data_here:
  assumes "borderless m" "m \<noteq> []" "newline \<notin> set m" "newline \<notin> set d"
    and "\<not> str_contains (data_line @ d @ blank_line @ post) m"
  shows "event_data (pre @ m @ data_line @ d @ blank_line @ post) m = Some d"
proof -
  let ?t = "pre @ m @ data_line @ d @ blank_line @ post"
  have 1: "str_last_index ?t m = Some (length pre)"
    using str_last_index_here [OF no_overlap [OF assms(1,5,2)] assms(2)] by simp
  have 2: "str_index (drop (length pre) ?t) data_line = Some (length m)"
    using str_index_here [OF assms(3), of "''data: ''" "d @ blank_line @ post"] by simp
  have drop: "drop (length pre + length m + length data_line) ?t = d @ blank_line @ post"
    by (simp add: drop_append)
  have 3: "str_index (d @ blank_line @ post) blank_line = Some (length d)"
    using str_index_here [OF assms(4), of "[newline]" post] by simp
  have 4: "\<not> length ?t \<le> length pre + length m + length data_line" by simp
  show ?thesis
    unfolding event_data_def 1 option.case Let_def 2 drop 3 using 4 by simp
qed

text \<open>The search for a line after a carriage return never finds what the first search misses.\<close>

lemma crlf_branch_dead: "str_index s data_line = None \<Longrightarrow> str_index s (CHR 0x0D # data_line) = None"
proof (rule ccontr)
  assume n: "str_index s data_line = None" and "str_index s (CHR 0x0D # data_line) \<noteq> None"
  then have "str_contains s (CHR 0x0D # data_line)" by (simp add: str_contains_def)
  then obtain a b where "s = a @ (CHR 0x0D # data_line) @ b" unfolding str_contains_iff by blast
  then have "s = (a @ [CHR 0x0D]) @ data_line @ b" by simp
  then have "str_contains s data_line" unfolding str_contains_iff by blast
  then show False using n by (simp add: str_contains_def)
qed

section \<open>Recording tokens\<close>

text \<open>\<open>recordTokenDirection\<close> and its cache twin (\<open>model-router.go\<close>).\<close>

definition recordTokenDirection :: "string \<Rightarrow> string \<Rightarrow> string \<Rightarrow> string \<Rightarrow> metrics \<Rightarrow> metrics" where
  "recordTokenDirection provider model direction raw m =
     (if raw = [] \<or> raw = ''-'' then m
      else case atoi raw of None \<Rightarrow> m | Some n \<Rightarrow> ObserveTokens provider model direction n m)"

definition recordCacheTokenDirection :: "string \<Rightarrow> string \<Rightarrow> string \<Rightarrow> string \<Rightarrow> metrics \<Rightarrow> metrics" where
  "recordCacheTokenDirection provider model direction raw m =
     (if raw = [] \<or> raw = ''-'' then m
      else case atoi raw of None \<Rightarrow> m | Some n \<Rightarrow> ObserveCacheTokens provider model direction n m)"

definition recordTokensFromUsage :: "string \<Rightarrow> string \<Rightarrow> token_usage \<Rightarrow> metrics \<Rightarrow> metrics" where
  "recordTokensFromUsage provider model usage m =
     (let m1 = recordTokenDirection provider model ''input'' (tu_Input usage) m;
          m2 = recordTokenDirection provider model ''output'' (tu_Output usage) m1;
          m3 = recordCacheTokenDirection provider model ''read'' (tu_CacheRead usage) m2
      in recordCacheTokenDirection provider model ''creation'' (tu_CacheCreation usage) m3)"

lemma itoa_ne: "itoa n \<noteq> []"
  using nat_digits_hd [of "nat n"] nat_digits_hd [of "nat (- n)"] by (simp add: itoa_def)

lemma itoa_dash:
  assumes "- (2 ^ 63) \<le> n" "n < 2 ^ 63"
  shows "itoa n \<noteq> ''-''"
proof
  assume "itoa n = ''-''"
  then have "atoi ''-'' = Some n" using atoi_itoa [OF assms] by simp
  then show False by (simp add: atoi_def)
qed

definition int64 :: "int \<Rightarrow> bool" where
  "int64 n \<longleftrightarrow> - (2 ^ 63) \<le> n \<and> n < 2 ^ 63"

lemma recorded_direction:
  "int64 n \<Longrightarrow> recordTokenDirection p m d (itoa n) M = ObserveTokens p m d n M"
  "int64 n \<Longrightarrow> recordCacheTokenDirection p m d (itoa n) M = ObserveCacheTokens p m d n M"
  by (simp_all add: recordTokenDirection_def recordCacheTokenDirection_def int64_def itoa_ne itoa_dash atoi_itoa)

lemma atoi_int64: "atoi s = Some n \<Longrightarrow> int64 n"
  by (auto simp: atoi_def int64_def Let_def split: if_splits option.splits)

definition counts_int64 :: "usage_counts \<Rightarrow> bool" where
  "counts_int64 u \<longleftrightarrow> int64 (InputTokens u) \<and> int64 (OutputTokens u) \<and>
     int64 (CacheReadInputTokens u) \<and> int64 (CacheCreationTokens u)"

lemma decode_int_int64: "int64 cur \<Longrightarrow> decode_int cur v = Some n \<Longrightarrow> int64 n"
  by (auto simp: decode_int_def dest: atoi_int64 split: json.splits)

lemma decode_count_int64: "counts_int64 u \<Longrightarrow> decode_count k v u = Some u' \<Longrightarrow> counts_int64 u'"
  by (auto simp: decode_count_def counts_int64_def dest: decode_int_int64 split: if_splits)

lemma decode_counts_int64: "counts_int64 u \<Longrightarrow> decode_counts u kvs = Some u' \<Longrightarrow> counts_int64 u'"
  by (induction u kvs rule: decode_counts.induct) (auto dest: decode_count_int64 split: option.splits)

lemma no_counts_int64: "counts_int64 no_counts"
  by (simp add: counts_int64_def no_counts_def int64_def)

lemma parse_usage_int64: "parse_usage raw = Some u \<Longrightarrow> counts_int64 u"
  using decode_counts_int64 [OF no_counts_int64] by (auto simp: parse_usage_def split: json.splits)

section \<open>Properties\<close>

text \<open>
  C25. Whatever the handler writes, in whatever pieces and however much of each the connection
  accepts, the tail is the last 2 MiB of what the client received, so it never holds more
  than that; and the router's status recorder ends up exactly as without the tee, its
  status included.
\<close>

theorem tail_is_end_of_response:
  "\<exists>sent. rs_body (sr_writer (ur_next (foldl ur_do (newUsageRecorder (sr_new w)) cs))) = rs_body w @ sent \<and>
    ur_tail (foldl ur_do (newUsageRecorder (sr_new w)) cs) = last_bytes TailBufferBytes sent \<and>
    length (last_bytes TailBufferBytes sent) = min TailBufferBytes (length sent) \<and>
    ur_next (foldl ur_do (newUsageRecorder (sr_new w)) cs) = foldl sr_call (sr_new w) (map sr_of_call cs)"
proof -
  let ?u = "newUsageRecorder (sr_new w)"
  have "ur_next (foldl ur_do ?u cs) = foldl sr_call (ur_next ?u) (map sr_of_call cs)"
    by (rule ur_run_next) (simp add: newUsageRecorder_def sr_new_def)
  moreover have "rs_body (sr_writer (ur_next ?u)) = rs_body w @ []"
    "ur_tail ?u = last_bytes TailBufferBytes []"
    by (simp_all add: newUsageRecorder_def sr_new_def last_bytes_def)
  from ur_run_tail [OF this, of cs] obtain sent where
    "rs_body (sr_writer (ur_next (foldl ur_do ?u cs))) = rs_body w @ sent"
    "ur_tail (foldl ur_do ?u cs) = last_bytes TailBufferBytes sent" by blast
  ultimately show ?thesis
    by (intro exI [of _ sent]) (simp add: newUsageRecorder_def last_bytes_def min_def)
qed

text \<open>
  C24. From a stream of server-sent events, recognised by its content whatever its content type
  and encoding, the counts come out as the documentation says: output tokens from the last
  \<open>message_delta\<close>; input and cache tokens from the last \<open>message_start\<close> when positive
  there, otherwise from the delta when positive there, otherwise the start's zero. Other
  events may stand anywhere, in particular earlier starts and deltas before the last ones.
\<close>

theorem stream_usage:
  assumes "tail \<noteq> []"
    and stream: "decodeIfEncoded gunzip tail contentEncoding =
      pre @ start_marker @ data_line @ d1 @ blank_line @ mid @
      delta_marker @ data_line @ d2 @ blank_line @ post"
    and one_line: "newline \<notin> set d1" "newline \<notin> set d2"
    and last_start: "\<not> str_contains (data_line @ d1 @ blank_line @ mid @
      delta_marker @ data_line @ d2 @ blank_line @ post) start_marker"
    and last_delta: "\<not> str_contains (data_line @ d2 @ blank_line @ post) delta_marker"
    and usage: "event_usage (parse d1) = Some u" "event_usage (parse d2) = Some v"
  shows "ExtractUsage parse gunzip tail contentType contentEncoding =
    \<lparr>tu_Input = itoa (if InputTokens u \<le> 0 \<and> 0 < InputTokens v then InputTokens v else InputTokens u),
     tu_Output = itoa (OutputTokens v),
     tu_CacheRead = itoa (if CacheReadInputTokens u \<le> 0 \<and> 0 < CacheReadInputTokens v
       then CacheReadInputTokens v else CacheReadInputTokens u),
     tu_CacheCreation = itoa (if CacheCreationTokens u \<le> 0 \<and> 0 < CacheCreationTokens v
       then CacheCreationTokens v else CacheCreationTokens u)\<rparr>"
proof -
  let ?t = "decodeIfEncoded gunzip tail contentEncoding"
  have ne: "start_marker \<noteq> []" "delta_marker \<noteq> []" "newline \<notin> set start_marker" "newline \<notin> set delta_marker"
    by (simp_all add: start_marker_def delta_marker_def)
  have "event_data ?t start_marker = Some d1"
    unfolding stream using event_data_here [OF markers_borderless(1) ne(1,3) one_line(1) last_start] by simp
  then have s: "scanSSEEvent parse ?t start_marker = (presence_of u, True)"
    using usage(1) by (simp add: scanSSEEvent_def)
  have "event_data ?t delta_marker = Some d2"
    unfolding stream
    using event_data_here [OF markers_borderless(2) ne(2,4) one_line(2) last_delta,
        of "pre @ start_marker @ data_line @ d1 @ blank_line @ mid"] by simp
  then have d: "scanSSEEvent parse ?t delta_marker = (presence_of v, True)"
    using usage(2) by (simp add: scanSSEEvent_def)
  have "start_marker = ''event: message_'' @ ''start''" by (simp add: start_marker_def)
  then have c: "str_contains ?t ''event: message_''"
    unfolding stream str_contains_iff by (metis append.assoc)
  have "?t \<noteq> []" unfolding stream using ne(1) by simp
  then have "ExtractUsage parse gunzip tail contentType contentEncoding = extractUsageSSE parse ?t"
    using assms(1) c by (simp add: ExtractUsage_def Let_def)
  then show ?thesis
    by (simp add: extractUsageSSE_def s d combine_usage_def presence_of_def preferPositive_def Let_def itoa_ne)
qed

definition sse_parse :: "bytes \<Rightarrow> json option" where
  "sse_parse b =
     (if b = ''1'' then Some (JObj [(''message'', JObj [(''usage'', JObj [(''input_tokens'', JNum ''42'')])])])
      else if b = ''2'' then Some (JObj [(''usage'', JObj [(''output_tokens'', JNum ''7'')])]) else None)"

theorem stream_usage_witness:
  "ExtractUsage sse_parse (\<lambda>_. None)
     (start_marker @ data_line @ ''1'' @ blank_line @ delta_marker @ data_line @ ''2'' @ blank_line) [] [] =
   \<lparr>tu_Input = ''42'', tu_Output = ''7'', tu_CacheRead = ''0'', tu_CacheCreation = ''0''\<rparr>"
proof -
  let ?t = "start_marker @ data_line @ ''1'' @ blank_line @ delta_marker @ data_line @ ''2'' @ blank_line"
  have e: "decodeIfEncoded (\<lambda>_. None) ?t [] =
      [] @ start_marker @ data_line @ ''1'' @ blank_line @ [] @ delta_marker @ data_line @ ''2'' @ blank_line @ []"
    by (simp add: decodeIfEncoded_def trim_space_def to_lower_def)
  have 1: "?t \<noteq> []" by (simp add: start_marker_def)
  have 2: "newline \<notin> set ''1''" "newline \<notin> set ''2''" by simp_all
  have 3: "\<not> str_contains (data_line @ ''1'' @ blank_line @ [] @ delta_marker @ data_line @ ''2'' @ blank_line @ []) start_marker"
    "\<not> str_contains (data_line @ ''2'' @ blank_line @ []) delta_marker"
    unfolding start_marker_def delta_marker_def by code_simp+
  have 4: "event_usage (sse_parse ''1'') = Some (no_counts\<lparr>InputTokens := 42\<rparr>)"
    "event_usage (sse_parse ''2'') = Some (no_counts\<lparr>OutputTokens := 7\<rparr>)"
    by code_simp+
  have 5: "itoa 42 = ''42''" "itoa 7 = ''7''" "itoa 0 = ''0''" by code_simp+
  show ?thesis
    using stream_usage [OF 1 e 2 3 4, of "[]"] by (simp add: no_counts_def 5)
qed


text \<open>
  When only one of the two events can be read, the log line shows what there is: with
  neither, both counts are a dash; with the start alone, the input count and a dash; with
  the delta alone, its output count, and its input count only when positive.
\<close>

theorem partial_usage_policy:
  assumes "fst (scanSSEEvent parse t start_marker) = (case su of None \<Rightarrow> no_presence | Some u \<Rightarrow> presence_of u)"
    and "fst (scanSSEEvent parse t delta_marker) = (case dv of None \<Rightarrow> no_presence | Some v \<Rightarrow> presence_of v)"
  shows "logLineValue (extractUsageSSE parse t) =
    (case (su, dv) of
       (None, None) \<Rightarrow> (''-'', ''-'')
     | (Some u, None) \<Rightarrow> (itoa (InputTokens u), ''-'')
     | (None, Some v) \<Rightarrow> (if 0 < InputTokens v then itoa (InputTokens v) else ''-'', itoa (OutputTokens v))
     | (Some u, Some v) \<Rightarrow>
         (itoa (if InputTokens u \<le> 0 \<and> 0 < InputTokens v then InputTokens v else InputTokens u),
          itoa (OutputTokens v)))"
  unfolding extractUsageSSE_def assms
  by (cases su; cases dv)
     (simp_all add: combine_usage_def no_presence_def presence_of_def preferPositive_def Let_def
        noUsage_def logLineValue_def itoa_ne)

theorem partial_usage_policy_witness:
  "logLineValue (extractUsageSSE (\<lambda>_. None) ''x'') = (''-'', ''-'')"
proof -
  have "event_data ''x'' start_marker = None" "event_data ''x'' delta_marker = None"
    unfolding start_marker_def delta_marker_def by code_simp+
  then have "fst (scanSSEEvent (\<lambda>_. None) ''x'' start_marker) = (case None of None \<Rightarrow> no_presence | Some u \<Rightarrow> presence_of u)"
    "fst (scanSSEEvent (\<lambda>_. None) ''x'' delta_marker) = (case None of None \<Rightarrow> no_presence | Some v \<Rightarrow> presence_of v)"
    by (simp_all add: scanSSEEvent_def)
  from partial_usage_policy [OF this] show ?thesis by simp
qed

text \<open>
  A stream whose lines end in carriage return and newline never yields a count: the branch
  for that variant is not reachable, and the end of an event is only looked for as two
  consecutive newlines, which such a stream does not have.
\<close>

theorem crlf_stream_has_no_usage:
  assumes "\<not> str_contains t blank_line"
  shows "extractUsageSSE parse t = noUsage \<and>
    (\<forall>i. str_index (drop i t) data_line = None \<longrightarrow> str_index (drop i t) (CHR 0x0D # data_line) = None)"
proof -
  have "str_index (drop n t) blank_line = None" for n
  proof (rule ccontr)
    assume "str_index (drop n t) blank_line \<noteq> None"
    then obtain a b where "drop n t = a @ blank_line @ b"
      using str_contains_iff [of "drop n t" blank_line] unfolding str_contains_def by blast
    then have "t = (take n t @ a) @ blank_line @ b" by (metis append.assoc append_take_drop_id)
    then show False using assms unfolding str_contains_iff by blast
  qed
  then have "event_data t m = None" for m
    by (simp add: event_data_def Let_def split: option.splits)
  then show ?thesis
    by (simp add: extractUsageSSE_def scanSSEEvent_def combine_usage_def no_presence_def preferPositive_def
        crlf_branch_dead)
qed

theorem crlf_stream_has_no_usage_witness:
  "extractUsageSSE sse_parse (start_marker @ [CHR 0x0D] @ data_line @ ''1'' @ [CHR 0x0D, newline, CHR 0x0D, newline]) =
     noUsage"
proof -
  have "\<not> str_contains (start_marker @ [CHR 0x0D] @ data_line @ ''1'' @ [CHR 0x0D, newline, CHR 0x0D, newline]) blank_line"
    unfolding start_marker_def by code_simp
  from crlf_stream_has_no_usage [OF this] show ?thesis by blast
qed

text \<open>
  The counts of a plain JSON answer reach the counters unchanged: writing them as decimal
  strings and parsing those again is exact, zero and negative counts leave no trace, and
  every other label keeps its value.
\<close>

theorem json_usage_recorded:
  assumes "parse t = Some (JObj kvs)" "last_usage None kvs = Some raw" "parse_usage raw = Some u"
  shows "recordTokensFromUsage p mdl (extractUsageJSON parse t) m =
    (let add = (\<lambda>d n v. if 0 < n then vec_add (p, mdl, d) n v else v)
     in m\<lparr>TokensTotal := add ''output'' (OutputTokens u) (add ''input'' (InputTokens u) (TokensTotal m)),
          CacheTokensTotal := add ''creation'' (CacheCreationTokens u)
            (add ''read'' (CacheReadInputTokens u) (CacheTokensTotal m))\<rparr>)"
proof -
  have "raw \<noteq> JNull" using assms(3) by (auto simp: parse_usage_def)
  then show ?thesis
    using assms parse_usage_int64 [OF assms(3)]
    by (simp add: extractUsageJSON_def recordTokensFromUsage_def recorded_direction counts_int64_def
        ObserveTokens_def ObserveCacheTokens_def Let_def)
qed

theorem json_usage_recorded_witness:
  "recordTokensFromUsage ''p'' ''m'' (extractUsageJSON
     (\<lambda>_. Some (JObj [(''usage'', JObj [(''input_tokens'', JNum ''5'')])])) ''x'') (NewMetrics []) =
   (NewMetrics [])\<lparr>TokensTotal := [(''p'', ''m'', ''input'') \<mapsto> 5]\<rparr>"
proof -
  let ?raw = "JObj [(''input_tokens'', JNum ''5'')]"
  have "last_usage None [(''usage'', ?raw)] = Some ?raw"
    "parse_usage ?raw = Some (no_counts\<lparr>InputTokens := 5\<rparr>)" by code_simp+
  from json_usage_recorded [where parse = "\<lambda>_. Some (JObj [(''usage'', ?raw)])" and t = "''x''", OF refl this]
  show ?thesis by (simp add: no_counts_def NewMetrics_def vec_add_def)
qed

end
