(* ===== verification/Router.thy ===== *)
theory Router
  imports ModelPool Usage
begin

text \<open>
  The model router (\<open>model-router.go\<close>): one request from the reading of its body through
  pool, alias and suffix resolution, key and glob routing and the lifting of system
  messages to the dispatch, and from the return of the dispatched handler to the metrics.
  Between the two halves other requests run, so each half is a function of the metrics it
  finds. Handlers are those of \<open>UpstreamPool\<close>; what a dispatched handler does with the
  response is the sequence of its calls. Log lines are left out.
\<close>

section \<open>Data\<close>

definition MaxRequestBodyBytes :: nat where "MaxRequestBodyBytes = 33554432"

record 't model_route =
  mr_Pattern :: string
  mr_ProviderName :: string
  mr_Handler :: "'t http_handler"
  mr_RequiresLeadingSystem :: "string list"
  mr_AllowedApiKeys :: "string list"

record 't router =
  rt_routes :: "'t model_route list"
  rt_defaultProviderName :: string
  rt_defaultHandler :: "'t http_handler"
  rt_aliases :: "string \<rightharpoonup> string"
  rt_modelPools :: "string \<rightharpoonup> 't model_pool"

definition NewModelRouterWithPools :: "'t model_route list \<Rightarrow> string \<Rightarrow> 't http_handler \<Rightarrow>
    (string \<rightharpoonup> string) \<Rightarrow> (string \<rightharpoonup> 't model_pool) \<Rightarrow> 't router" where
  "NewModelRouterWithPools routes defaultProviderName defaultHandler aliases modelPools =
     \<lparr>rt_routes = routes, rt_defaultProviderName = defaultProviderName,
      rt_defaultHandler = defaultHandler, rt_aliases = aliases, rt_modelPools = modelPools\<rparr>"

definition NewModelRouter :: "'t model_route list \<Rightarrow> string \<Rightarrow> 't http_handler \<Rightarrow>
    (string \<rightharpoonup> string) \<Rightarrow> 't router" where
  "NewModelRouter routes defaultProviderName defaultHandler aliases =
     NewModelRouterWithPools routes defaultProviderName defaultHandler aliases Map.empty"

text \<open>
  A request as the router sees it: the bytes that arrive before the connection ends or
  breaks, with their parse, and the values the middlewares put in its context; then the
  readings its handling makes of the world: those of a model pool's resolution, of the
  window of a key-pinned provider and of the window of each matching route, and whether the
  lifting sees a done context.
\<close>

record router_request =
  rq_wire :: body
  rq_broken :: bool
  rq_sessionID :: string
  rq_presentedKey :: string
  rq_pool_world :: model_world
  rq_saturated :: bool
  rq_overflow_world :: model_world
  rq_key_world :: pool_world
  rq_glob_world :: "nat \<Rightarrow> pool_world"
  rq_lift_done :: bool

datatype route_stop = StopError int string | StopPanic go_panic

record 't routed =
  rd_provider :: string
  rd_target :: "'t http_handler"
  rd_requires :: "string list"
  rd_model :: string
  rd_body :: body
  rd_alias :: string
  rd_byPool :: bool

section \<open>The stages\<close>

text \<open>Reading the body through \<open>http.MaxBytesReader\<close>.\<close>

definition router_read :: "router_request \<Rightarrow> route_stop + body" where
  "router_read rq =
     (if MaxRequestBodyBytes < length (fst (rq_wire rq))
      then Inl (StopError 413 ''request body too large'')
      else if rq_broken rq then Inl (StopError 400 ''read body failed'')
      else Inr (rq_wire rq))"

definition rewrite_stage :: "(json \<Rightarrow> bytes) \<Rightarrow> string \<Rightarrow> body \<Rightarrow> string \<Rightarrow> route_stop + body" where
  "rewrite_stage marshal msg b model =
     (case rewriteModelField marshal b model of
        Rewritten b' \<Rightarrow> Inr b'
      | RewriteError \<Rightarrow> Inl (StopError 500 msg)
      | RewritePanic \<Rightarrow> Inl (StopPanic NilMapWrite))"

definition provider_globs :: "'t model_route list \<Rightarrow> string \<Rightarrow> string list \<Rightarrow> string list" where
  "provider_globs routes provider fallback =
     (case find (\<lambda>route. mr_ProviderName route = provider) routes of
        Some route \<Rightarrow> mr_RequiresLeadingSystem route
      | None \<Rightarrow> fallback)"

definition initial_routed :: "'t router \<Rightarrow> body \<Rightarrow> 't routed" where
  "initial_routed r b =
     \<lparr>rd_provider = rt_defaultProviderName r, rd_target = rt_defaultHandler r,
      rd_requires = provider_globs (rt_routes r) (rt_defaultProviderName r) [],
      rd_model = extractModel b, rd_body = b, rd_alias = [], rd_byPool = False\<rparr>"

definition pool_stage :: "'t time_api \<Rightarrow> (json \<Rightarrow> bytes) \<Rightarrow> router_request \<Rightarrow> 't router \<Rightarrow> 't routed \<Rightarrow>
    't router \<times> (route_stop + 't routed)" where
  "pool_stage api marshal rq r d =
     (case rt_modelPools r (rd_model d) of
        None \<Rightarrow> (r, Inr d)
      | Some pool \<Rightarrow>
          (case mp_Resolve api pool (rq_pool_world rq) (rq_saturated rq) (rq_overflow_world rq)
                  (rq_sessionID rq) of
             (pool', res) \<Rightarrow>
               (r\<lparr>rt_modelPools := (rt_modelPools r)(rd_model d \<mapsto> pool')\<rparr>,
                case res of
                  Inl e \<Rightarrow> Inl (StopPanic e)
                | Inr member \<Rightarrow>
                    (case rewrite_stage marshal ''pool rewrite failed'' (rd_body d) (mm_Model member) of
                       Inl s \<Rightarrow> Inl s
                     | Inr b \<Rightarrow>
                         Inr (d\<lparr>rd_body := b, rd_model := mm_Model member, rd_provider := mm_Provider member,
                           rd_target := mm_Handler member,
                           rd_requires := provider_globs (rt_routes r) (mm_Provider member) (rd_requires d),
                           rd_byPool := True\<rparr>)))))"

definition alias_stage :: "(json \<Rightarrow> bytes) \<Rightarrow> 't router \<Rightarrow> 't routed \<Rightarrow> metrics \<Rightarrow>
    metrics \<times> (route_stop + 't routed)" where
  "alias_stage marshal r d m =
     (case rt_aliases r (rd_model d) of
        None \<Rightarrow> (m, Inr d)
      | Some resolved \<Rightarrow>
          (if rd_model d = [] then (m, Inr d)
           else case rewrite_stage marshal ''alias rewrite failed'' (rd_body d) resolved of
             Inl s \<Rightarrow> (m, Inl s)
           | Inr b \<Rightarrow>
               (ObserveAliasResolution (rd_model d) resolved m,
                Inr (d\<lparr>rd_body := b, rd_alias := resolved, rd_model := resolved\<rparr>))))"

definition strip_stage :: "(json \<Rightarrow> bytes) \<Rightarrow> 't routed \<Rightarrow> route_stop + 't routed" where
  "strip_stage marshal d =
     (if has_suffix (rd_model d) ''[1m]'' then
        (let cleaned = trim_suffix (rd_model d) ''[1m]''
         in case rewrite_stage marshal ''model name normalization failed'' (rd_body d) cleaned of
              Inl s \<Rightarrow> Inl s
            | Inr b \<Rightarrow> Inr (d\<lparr>rd_body := b, rd_model := cleaned\<rparr>))
      else Inr d)"

definition containsString :: "string list \<Rightarrow> string \<Rightarrow> bool" where
  "containsString list s \<longleftrightarrow> list_ex (\<lambda>item. item = s) list"

definition to_route :: "'t model_route \<Rightarrow> 't routed \<Rightarrow> 't routed" where
  "to_route route d =
     d\<lparr>rd_provider := mr_ProviderName route, rd_target := mr_Handler route,
       rd_requires := mr_RequiresLeadingSystem route\<rparr>"

text \<open>Only the first route that claims the key is looked at; \<open>None\<close> falls through to the globs.\<close>

definition key_stage :: "'t time_api \<Rightarrow> router_request \<Rightarrow> 't router \<Rightarrow> 't model_route option" where
  "key_stage api rq r =
     (if rq_presentedKey rq = [] then None
      else case find (\<lambda>route. containsString (mr_AllowedApiKeys route) (rq_presentedKey rq)) (rt_routes r) of
        None \<Rightarrow> None
      | Some route \<Rightarrow> if windowEligible api (rq_key_world rq) (mr_Handler route) then Some route else None)"

fun glob_walk :: "'t time_api \<Rightarrow> (nat \<Rightarrow> pool_world) \<Rightarrow> string \<Rightarrow> nat \<Rightarrow> 't model_route list \<Rightarrow>
    't model_route option" where
  "glob_walk api w model i [] = None"
| "glob_walk api w model i (route # routes) =
     (if path_match (mr_Pattern route) model \<noteq> Some True then glob_walk api w model (i + 1) routes
      else if \<not> windowEligible api (w i) (mr_Handler route) then glob_walk api w model (i + 1) routes
      else Some route)"

definition route_stage :: "'t time_api \<Rightarrow> router_request \<Rightarrow> 't router \<Rightarrow> 't routed \<Rightarrow> 't routed" where
  "route_stage api rq r d =
     (if rd_byPool d then d
      else case key_stage api rq r of
        Some route \<Rightarrow> to_route route d
      | None \<Rightarrow>
          (case glob_walk api (rq_glob_world rq) (rd_model d) 0 (rt_routes r) of
             Some route \<Rightarrow> to_route route d
           | None \<Rightarrow> d))"

definition lift_stage :: "(json \<Rightarrow> bytes) \<Rightarrow> router_request \<Rightarrow> 't routed \<Rightarrow> 't routed" where
  "lift_stage marshal rq d =
     (if matchesAnyPattern (rd_requires d) (rd_model d) then
        (case liftSystemMessages marshal (rq_lift_done rq) (rd_body d) of
           Lifted b moved \<Rightarrow> d\<lparr>rd_body := b\<rparr>
         | _ \<Rightarrow> d)
      else d)"

text \<open>From a body that was read to the dispatch.\<close>

definition route_request :: "'t time_api \<Rightarrow> (json \<Rightarrow> bytes) \<Rightarrow> router_request \<Rightarrow> body \<Rightarrow> 't router \<Rightarrow> metrics \<Rightarrow>
    't router \<times> metrics \<times> (route_stop + 't routed)" where
  "route_request api marshal rq b r m =
     (case pool_stage api marshal rq r (initial_routed r b) of
        (r', Inl s) \<Rightarrow> (r', m, Inl s)
      | (r', Inr d) \<Rightarrow>
          (case (if rd_byPool d then (m, Inr d) else alias_stage marshal r' d m) of
             (m', Inl s) \<Rightarrow> (r', m', Inl s)
           | (m', Inr d1) \<Rightarrow>
               (case strip_stage marshal d1 of
                  Inl s \<Rightarrow> (r', m', Inl s)
                | Inr d2 \<Rightarrow> (r', m', Inr (lift_stage marshal rq (route_stage api rq r' d2))))))"

section \<open>Before and after the dispatch\<close>

definition resolveModelLabel :: "string \<Rightarrow> string \<Rightarrow> string" where
  "resolveModelLabel resolvedModel origModel =
     (if resolvedModel \<noteq> [] then resolvedModel
      else if origModel \<noteq> [] then origModel
      else UnknownModelLabel)"

text \<open>
  \<open>Answered\<close> by the router itself; \<open>Panicked\<close>; or \<open>Dispatched\<close>, with the end function of the
  in-flight gauge by its number.
\<close>

datatype 't router_result =
    Answered response
  | Panicked go_panic
  | Dispatched "'t routed" nat

definition router_before :: "'t time_api \<Rightarrow> (json \<Rightarrow> bytes) \<Rightarrow> router_request \<Rightarrow> int \<Rightarrow> int \<Rightarrow> response \<Rightarrow>
    't router \<Rightarrow> metrics \<Rightarrow> 't router \<times> metrics \<times> 't router_result" where
  "router_before api marshal rq latency now w r m =
     (let refused = (\<lambda>status msg m'.
            (ObserveRequest UnknownModelLabel UnknownModelLabel status latency True m',
             Answered (http_Error msg status w)))
      in case router_read rq of
           Inl (StopError status msg) \<Rightarrow> (r, refused status msg m)
         | Inl (StopPanic e) \<Rightarrow> (r, m, Panicked e)
         | Inr b \<Rightarrow>
             (case route_request api marshal rq b r m of
                (r', m', Inl (StopError status msg)) \<Rightarrow> (r', refused status msg m')
              | (r', m', Inl (StopPanic e)) \<Rightarrow> (r', m', Panicked e)
              | (r', m', Inr d) \<Rightarrow>
                  (r', m'\<lparr>m_InFlight := if_Start now (rd_provider d) (m_InFlight m')\<rparr>,
                   Dispatched d (length (if_ends (m_InFlight m'))))))"

text \<open>
  What the dispatched handler did: its calls on the response writer, the slots it left, the
  headers of the response, and whether it panicked.
\<close>

record dispatched =
  di_calls :: "ur_call list"
  di_rejection :: rejection_slot
  di_member :: upstream_index_slot
  di_contentType :: string
  di_contentEncoding :: string
  di_panics :: bool

definition di_recorder :: "response \<Rightarrow> dispatched \<Rightarrow> usage_recorder" where
  "di_recorder w h = foldl ur_do (newUsageRecorder (sr_new w)) (di_calls h)"

definition di_status :: "response \<Rightarrow> dispatched \<Rightarrow> int" where
  "di_status w h =
     (let status = sr_status (ur_next (di_recorder w h)) in if status = 0 then 200 else status)"

definition router_observe :: "(bytes \<Rightarrow> json option) \<Rightarrow> (bytes \<Rightarrow> (bytes \<times> bool) option) \<Rightarrow> string \<Rightarrow>
    'a routed \<Rightarrow> int \<Rightarrow> response \<Rightarrow> dispatched \<Rightarrow> metrics \<Rightarrow> metrics" where
  "router_observe parse gunzip origModel d latency w h m =
     (let status = di_status w h;
          label = resolveModelLabel (rd_model d) origModel;
          m1 = ObserveRequest (rd_provider d) label status latency False m;
          m2 = (if status = 429
                then ObserveRejection (rd_provider d) (rejectionReasonOf (di_rejection h)) m1 else m1)
      in if status = 200
         then recordTokensFromUsage (rd_provider d) label
           (ExtractUsage parse gunzip (ur_tail (di_recorder w h)) (di_contentType h) (di_contentEncoding h)) m2
         else m2)"

text \<open>The deferred end function runs last, also when the handler panics.\<close>

definition router_after :: "(bytes \<Rightarrow> json option) \<Rightarrow> (bytes \<Rightarrow> (bytes \<times> bool) option) \<Rightarrow> string \<Rightarrow>
    'a routed \<Rightarrow> nat \<Rightarrow> int \<Rightarrow> response \<Rightarrow> dispatched \<Rightarrow> metrics \<Rightarrow> metrics" where
  "router_after parse gunzip origModel d k latency w h m =
     (let m1 = (if di_panics h then m else router_observe parse gunzip origModel d latency w h m)
      in m1\<lparr>m_InFlight := if_end k (m_InFlight m1)\<rparr>)"

section \<open>The model field through the stages\<close>

abbreviation model_entry :: "string \<times> json \<Rightarrow> bool" where
  "model_entry kv \<equiv> model_key (fst kv)"

lemma decode_model_filter: "decode_model cur kvs = decode_model cur (filter model_entry kvs)"
  by (induction cur kvs rule: decode_model.induct) (auto split: json.splits)

text \<open>A document whose model entries marshalling neither reorders nor merges.\<close>

definition settled :: "body \<Rightarrow> bool" where
  "settled b \<longleftrightarrow> (\<forall>kvs. snd b = Some (JObj kvs) \<longrightarrow>
     filter model_entry (json_canonical kvs) = filter model_entry kvs)"

lemma filter_canonical:
  "filter model_entry (json_canonical kvs) =
     map (\<lambda>k. (k, the (json_lookup kvs k))) (sort (remdups (map fst (filter model_entry kvs))))"
proof -
  have "filter model_key (sort (remdups (map fst kvs))) = sort (remdups (filter model_key (map fst kvs)))"
    by (simp add: filter_sort remdups_filter)
  also have "filter model_key (map fst kvs) = map fst (filter model_entry kvs)"
    by (simp add: filter_map comp_def)
  finally show ?thesis by (simp add: json_canonical_def json_keys_def filter_map comp_def)
qed

text \<open>The body names its model at most once, in whatever spelling of the key.\<close>

definition single_model :: "body \<Rightarrow> bool" where
  "single_model b \<longleftrightarrow>
     (case snd b of Some (JObj kvs) \<Rightarrow> length (filter model_entry kvs) \<le> 1 | _ \<Rightarrow> True)"

lemma settled_single:
  assumes "single_model b"
  shows "settled b"
  unfolding settled_def
proof (intro allI impI)
  fix kvs assume "snd b = Some (JObj kvs)"
  then have len: "length (filter model_entry kvs) \<le> 1" using assms by (simp add: single_model_def)
  show "filter model_entry (json_canonical kvs) = filter model_entry kvs"
  proof (cases "filter model_entry kvs")
    case Nil
    then show ?thesis by (simp add: filter_canonical)
  next
    case (Cons kv rest)
    then have one: "filter model_entry kvs = [kv]" using len by (cases rest) auto
    obtain k v where kv: "kv = (k, v)" by fastforce
    have "(k, v) \<in> set (filter model_entry kvs)" by (simp add: one kv)
    then have mem: "(k, v) \<in> set kvs" "model_key k" by auto
    then obtain v' where v': "json_lookup kvs k = Some v'"
      using json_lookup_None [of kvs k] by (cases "json_lookup kvs k") force+
    have "(k, v') \<in> set (filter model_entry kvs)" using json_lookup_mem [OF v'] mem(2) by simp
    then have "v' = v" by (simp add: one kv)
    then show ?thesis by (simp add: filter_canonical one kv v')
  qed
qed

lemma canonical_idem: "json_canonical (json_canonical kvs) = json_canonical kvs"
proof -
  have "json_keys (json_canonical kvs) = json_keys kvs"
    by (simp add: json_keys_def json_canonical_def comp_def distinct_remdups_id sorted_sort_id)
  then show ?thesis by (simp add: json_canonical_def [of "json_canonical kvs"] json_lookup_canonical)
     (simp add: json_canonical_def)
qed

lemma settled_remarshal: "settled (remarshal marshal kvs)"
  by (simp add: settled_def remarshal_lookup canonical_idem)

text \<open>The other keys of a document keep their values.\<close>

definition same_elsewhere :: "body \<Rightarrow> body \<Rightarrow> bool" where
  "same_elsewhere b b' \<longleftrightarrow> b' = b \<or>
     (\<exists>kvs kvs'. snd b = Some (JObj kvs) \<and> snd b' = Some (JObj kvs') \<and>
        (\<forall>k. k \<notin> {''model'', ''messages'', ''system''} \<longrightarrow> json_lookup kvs' k = json_lookup kvs k))"

lemma same_elsewhere_refl: "same_elsewhere b b"
  by (simp add: same_elsewhere_def)

lemma same_elsewhere_trans: "same_elsewhere a b \<Longrightarrow> same_elsewhere b c \<Longrightarrow> same_elsewhere a c"
  unfolding same_elsewhere_def by (elim disjE exE conjE) auto

lemma rewrite_stage_ok:
  assumes "extractModel b \<noteq> []"
  obtains b' where "rewrite_stage marshal msg b m = Inr b'" "extractModel b' = m" "settled b'"
    "same_elsewhere b b'"
proof -
  obtain kvs where kvs: "snd b = Some (JObj kvs)" "model_values_ok kvs"
    using extractModel_object [OF assms] by blast
  let ?b' = "remarshal marshal (json_set ''model'' (JStr m) kvs)"
  have "rewrite_stage marshal msg b m = Inr ?b'"
    by (simp add: rewrite_stage_def rewriteModelField_def kvs(1))
  moreover have "extractModel ?b' = m"
    using decode_canonical [OF kvs(2)] by (simp add: extractModel_def remarshal_lookup)
  moreover have "same_elsewhere b ?b'"
    using kvs(1) by (auto simp: same_elsewhere_def remarshal_lookup json_lookup_canonical json_lookup_set)
  ultimately show thesis using that settled_remarshal by blast
qed

text \<open>What every stage keeps.\<close>

definition routed_ok :: "body \<Rightarrow> 't routed \<Rightarrow> bool" where
  "routed_ok b d \<longleftrightarrow> extractModel (rd_body d) = rd_model d \<and> settled (rd_body d) \<and> same_elsewhere b (rd_body d)"

lemma lifted_model:
  assumes "liftSystemMessages marshal dn b = Lifted b' moved" "settled b"
  shows "extractModel b' = extractModel b"
proof -
  from assms(1) obtain obj messages where o: "snd b = Some (JObj obj)"
      and lm: "lift_messages marshal obj messages = Lifted b' moved"
    by (auto simp: liftSystemMessages_def split: option.splits json.splits if_splits)
  from lm obtain ms sys where
    b': "b' = remarshal marshal (json_set ''messages'' ms (json_set ''system'' sys obj))"
    by (auto simp: lift_messages_def split: option.splits if_splits)
  let ?obj' = "json_set ''messages'' ms (json_set ''system'' sys obj)"
  have no: "\<not> model_key ''messages''" "\<not> model_key ''system''" unfolding model_key_def by code_simp+
  then have "filter model_entry ?obj' = filter model_entry obj" by (simp add: json_set_def)
  moreover have "json_lookup ?obj' k = json_lookup obj k" if "model_key k" for k
    using that no by (auto simp: json_lookup_set)
  ultimately have "filter model_entry (json_canonical ?obj') = filter model_entry (json_canonical obj)"
    unfolding filter_canonical by (auto intro!: map_cong)
  also have "\<dots> = filter model_entry obj" using assms(2) o by (simp add: settled_def)
  finally have "decode_model [] (json_canonical ?obj') = decode_model [] obj"
    using decode_model_filter by metis
  then show ?thesis by (simp add: extractModel_def b' remarshal_lookup o)
qed

lemma lifted_same:
  assumes "liftSystemMessages marshal dn b = Lifted b' moved"
  shows "same_elsewhere b b'" "settled b'"
proof -
  from assms obtain obj messages where o: "snd b = Some (JObj obj)"
      and lm: "lift_messages marshal obj messages = Lifted b' moved"
    by (auto simp: liftSystemMessages_def split: option.splits json.splits if_splits)
  from lm obtain ms sys where
    b': "b' = remarshal marshal (json_set ''messages'' ms (json_set ''system'' sys obj))"
    by (auto simp: lift_messages_def split: option.splits if_splits)
  show "same_elsewhere b b'"
    using o by (auto simp: b' same_elsewhere_def remarshal_lookup json_lookup_canonical json_lookup_set)
  show "settled b'" by (simp add: b' settled_remarshal)
qed

section \<open>The stages succeed\<close>

definition pool_request_ok :: "router_request \<Rightarrow> bool" where
  "pool_request_ok rq \<longleftrightarrow> mp_calm (rq_pool_world rq) \<and> mp_calm (rq_overflow_world rq) \<and>
     mw_load_tie (rq_pool_world rq) = mw_load_min (rq_pool_world rq)"

definition pools_ok :: "'t router \<Rightarrow> bool" where
  "pools_ok r \<longleftrightarrow> rt_modelPools r [] = None \<and>
     (\<forall>name pool. rt_modelPools r name = Some pool \<longrightarrow> wf_model_pool pool)"

lemma initial_ok: "settled b \<Longrightarrow> routed_ok b (initial_routed r b)"
  by (simp add: routed_ok_def initial_routed_def same_elsewhere_refl)

lemma pool_stage_ok:
  assumes "pools_ok r" "pool_request_ok rq" "routed_ok b d"
  obtains r' d' where "pool_stage api marshal rq r d = (r', Inr d')" "routed_ok b d'"
    "rt_routes r' = rt_routes r" "rt_aliases r' = rt_aliases r"
    "rt_modelPools r (rd_model d) = None \<Longrightarrow> r' = r \<and> d' = d"
    "\<And>pool. rt_modelPools r (rd_model d) = Some pool \<Longrightarrow>
       rd_byPool d' \<and> (\<exists>mem \<in> set (mp_members pool).
         rd_provider d' = mm_Provider mem \<and> rd_target d' = mm_Handler mem \<and> rd_model d' = mm_Model mem)"
proof (cases "rt_modelPools r (rd_model d)")
  case None
  then show thesis using that [of r d] assms(3) by (simp add: pool_stage_def)
next
  case (Some pool)
  have wf: "wf_model_pool pool" and ne: "rd_model d \<noteq> []" using assms(1) Some by (auto simp: pools_ok_def)
  obtain p' mem where mem: "mp_Resolve api pool (rq_pool_world rq) (rq_saturated rq) (rq_overflow_world rq)
      (rq_sessionID rq) = (p', Inr mem)" "mem \<in> set (mp_members pool)"
    using mp_Resolve_member [OF wf] assms(2) unfolding pool_request_ok_def by metis
  obtain b' where b': "rewrite_stage marshal ''pool rewrite failed'' (rd_body d) (mm_Model mem) = Inr b'"
      "extractModel b' = mm_Model mem" "settled b'" "same_elsewhere (rd_body d) b'"
    using rewrite_stage_ok [of "rd_body d"] assms(3) ne unfolding routed_ok_def by metis
  let ?d = "d\<lparr>rd_body := b', rd_model := mm_Model mem, rd_provider := mm_Provider mem,
    rd_target := mm_Handler mem,
    rd_requires := provider_globs (rt_routes r) (mm_Provider mem) (rd_requires d), rd_byPool := True\<rparr>"
  have st: "pool_stage api marshal rq r d =
      (r\<lparr>rt_modelPools := (rt_modelPools r)(rd_model d \<mapsto> p')\<rparr>, Inr ?d)"
    by (simp add: pool_stage_def Some mem(1) b'(1))
  have ok: "routed_ok b ?d"
    using assms(3) b' same_elsewhere_trans [of b "rd_body d" b'] by (simp add: routed_ok_def)
  show thesis by (rule that [OF st ok]) (use Some mem(2) in auto)
qed

definition alias_name :: "'t router \<Rightarrow> string \<Rightarrow> string" where
  "alias_name r model =
     (case rt_aliases r model of None \<Rightarrow> model | Some resolved \<Rightarrow> if model = [] then model else resolved)"

lemma alias_stage_ok:
  assumes "routed_ok b d"
  obtains m' d' where "alias_stage marshal r d m = (m', Inr d')" "routed_ok b d'"
    "rd_model d' = alias_name r (rd_model d)" "rd_byPool d' = rd_byPool d"
    "rd_provider d' = rd_provider d" "rd_target d' = rd_target d"
proof (cases "rt_aliases r (rd_model d) = None \<or> rd_model d = []")
  case True
  then show thesis using that [of m d] assms by (auto simp: alias_stage_def alias_name_def split: option.splits)
next
  case False
  then obtain resolved where res: "rt_aliases r (rd_model d) = Some resolved" and ne: "rd_model d \<noteq> []" by auto
  obtain b' where b': "rewrite_stage marshal ''alias rewrite failed'' (rd_body d) resolved = Inr b'"
      "extractModel b' = resolved" "settled b'" "same_elsewhere (rd_body d) b'"
    using rewrite_stage_ok [of "rd_body d"] assms ne unfolding routed_ok_def by metis
  let ?d = "d\<lparr>rd_body := b', rd_alias := resolved, rd_model := resolved\<rparr>"
  have "alias_stage marshal r d m = (ObserveAliasResolution (rd_model d) resolved m, Inr ?d)"
    using ne by (simp add: alias_stage_def res b'(1))
  moreover have "routed_ok b ?d"
    using assms b' same_elsewhere_trans [of b "rd_body d" b'] by (simp add: routed_ok_def)
  ultimately show thesis using that ne by (simp add: alias_name_def res)
qed

lemma strip_stage_ok:
  assumes "routed_ok b d"
  obtains d' where "strip_stage marshal d = Inr d'" "routed_ok b d'"
    "rd_model d' = trim_suffix (rd_model d) ''[1m]''" "rd_byPool d' = rd_byPool d"
    "rd_provider d' = rd_provider d" "rd_target d' = rd_target d"
proof (cases "has_suffix (rd_model d) ''[1m]''")
  case True
  then have ne: "rd_model d \<noteq> []" by (auto simp: has_suffix_def)
  obtain b' where b': "rewrite_stage marshal ''model name normalization failed'' (rd_body d)
        (trim_suffix (rd_model d) ''[1m]'') = Inr b'"
      "extractModel b' = trim_suffix (rd_model d) ''[1m]''" "settled b'" "same_elsewhere (rd_body d) b'"
    using rewrite_stage_ok [of "rd_body d"] assms ne unfolding routed_ok_def by metis
  let ?d = "d\<lparr>rd_body := b', rd_model := trim_suffix (rd_model d) ''[1m]''\<rparr>"
  have "strip_stage marshal d = Inr ?d" using True by (simp add: strip_stage_def b'(1) Let_def)
  moreover have "routed_ok b ?d"
    using assms b' same_elsewhere_trans [of b "rd_body d" b'] by (simp add: routed_ok_def)
  ultimately show thesis using that by simp
next
  case False
  then show thesis using that [of d] assms by (simp add: strip_stage_def trim_suffix_def)
qed

lemma route_stage_same:
  "rd_model (route_stage api rq r d) = rd_model d" "rd_body (route_stage api rq r d) = rd_body d"
  by (simp_all add: route_stage_def to_route_def split: option.splits)

lemma lift_stage_same:
  "rd_provider (lift_stage marshal rq d) = rd_provider d" "rd_target (lift_stage marshal rq d) = rd_target d"
  "rd_model (lift_stage marshal rq d) = rd_model d" "rd_byPool (lift_stage marshal rq d) = rd_byPool d"
  by (simp_all add: lift_stage_def split: lift_result.splits)

lemma lift_stage_ok: "routed_ok b d \<Longrightarrow> routed_ok b (lift_stage marshal rq d)"
  unfolding lift_stage_def
  by (auto simp: routed_ok_def lifted_model lifted_same dest: lifted_same(1) intro: same_elsewhere_trans
      split: lift_result.splits)

text \<open>The whole pipeline, as one fact the properties below read off.\<close>

lemma route_request_ok:
  assumes "pools_ok r" "pool_request_ok rq" "settled b"
  obtains r' m' d where "route_request api marshal rq b r m =
      (r', m', Inr (lift_stage marshal rq (route_stage api rq r' d)))"
    "routed_ok b (lift_stage marshal rq (route_stage api rq r' d))" "rt_routes r' = rt_routes r"
    "rt_modelPools r (extractModel b) = None \<Longrightarrow> \<not> rd_byPool d \<and>
       rd_model d = trim_suffix (alias_name r (extractModel b)) ''[1m]'' \<and>
       rd_provider d = rt_defaultProviderName r \<and> rd_target d = rt_defaultHandler r"
    "\<And>pool. rt_modelPools r (extractModel b) = Some pool \<Longrightarrow> m' = m \<and> rd_byPool d \<and>
       (\<exists>mem \<in> set (mp_members pool). rd_provider d = mm_Provider mem \<and> rd_target d = mm_Handler mem \<and>
          rd_model d = trim_suffix (mm_Model mem) ''[1m]'')"
proof -
  let ?d0 = "initial_routed r b"
  have m0: "rd_model ?d0 = extractModel b" by (simp add: initial_routed_def)
  obtain r' d1 where p: "pool_stage api marshal rq r ?d0 = (r', Inr d1)" "routed_ok b d1"
      "rt_routes r' = rt_routes r" "rt_aliases r' = rt_aliases r"
      "rt_modelPools r (extractModel b) = None \<Longrightarrow> r' = r \<and> d1 = ?d0"
      "\<And>pool. rt_modelPools r (extractModel b) = Some pool \<Longrightarrow>
         rd_byPool d1 \<and> (\<exists>mem \<in> set (mp_members pool).
           rd_provider d1 = mm_Provider mem \<and> rd_target d1 = mm_Handler mem \<and> rd_model d1 = mm_Model mem)"
    using pool_stage_ok [OF assms(1,2) initial_ok [OF assms(3), of r], of api marshal, unfolded m0] by metis
  obtain m' d2 where a: "(if rd_byPool d1 then (m, Inr d1) else alias_stage marshal r' d1 m) = (m', Inr d2)"
      "routed_ok b d2" "rd_byPool d2 = rd_byPool d1" "rd_provider d2 = rd_provider d1" "rd_target d2 = rd_target d1"
      "rd_byPool d1 \<Longrightarrow> m' = m \<and> d2 = d1"
      "\<not> rd_byPool d1 \<Longrightarrow> rd_model d2 = alias_name r' (rd_model d1)"
  proof (cases "rd_byPool d1")
    case True
    then show thesis using that [of m d1] p(2) by simp
  next
    case False
    then show thesis using alias_stage_ok [OF p(2), of marshal r' m] that by metis
  qed
  obtain d3 where s: "strip_stage marshal d2 = Inr d3" "routed_ok b d3"
      "rd_model d3 = trim_suffix (rd_model d2) ''[1m]''" "rd_byPool d3 = rd_byPool d2"
      "rd_provider d3 = rd_provider d2" "rd_target d3 = rd_target d2"
    using strip_stage_ok [OF a(2)] by blast
  have 1: "route_request api marshal rq b r m =
      (r', m', Inr (lift_stage marshal rq (route_stage api rq r' d3)))"
    by (simp add: route_request_def p(1) a(1) s(1))
  have 2: "routed_ok b (lift_stage marshal rq (route_stage api rq r' d3))"
    using s(2) by (intro lift_stage_ok) (simp add: routed_ok_def route_stage_same)
  have 3: "\<not> rd_byPool d3 \<and> rd_model d3 = trim_suffix (alias_name r (extractModel b)) ''[1m]'' \<and>
      rd_provider d3 = rt_defaultProviderName r \<and> rd_target d3 = rt_defaultHandler r"
    if "rt_modelPools r (extractModel b) = None"
    using p(5) [OF that] a s by (simp add: initial_routed_def)
  have 4: "m' = m \<and> rd_byPool d3 \<and>
       (\<exists>mem \<in> set (mp_members pool). rd_provider d3 = mm_Provider mem \<and> rd_target d3 = mm_Handler mem \<and>
          rd_model d3 = trim_suffix (mm_Model mem) ''[1m]'')"
    if "rt_modelPools r (extractModel b) = Some pool" for pool
  proof -
    from p(6) [OF that] obtain mem where mem: "mem \<in> set (mp_members pool)" "rd_byPool d1"
      "rd_provider d1 = mm_Provider mem" "rd_target d1 = mm_Handler mem" "rd_model d1 = mm_Model mem"
      by blast
    then show ?thesis using a(6) s by (intro conjI bexI [of _ mem]) simp_all
  qed
  show thesis by (rule that [OF 1 2 p(3) 3 4])
qed

section \<open>Every request\<close>

text \<open>
  Without any assumption on the request: what the router needs is that the weights of its model pools
  are positive and fit an \<open>int\<close>, and then only the resolution of a model pool can stop a request.
\<close>

definition pools_wf :: "'t router \<Rightarrow> bool" where
  "pools_wf r \<longleftrightarrow> (\<forall>name pool. rt_modelPools r name = Some pool \<longrightarrow> wf_model_pool pool)"

definition is_object :: "body \<Rightarrow> bool" where
  "is_object b \<longleftrightarrow> (\<exists>kvs. snd b = Some (JObj kvs))"

definition pool_stops :: "'t time_api \<Rightarrow> router_request \<Rightarrow> 't router \<Rightarrow> body \<Rightarrow> route_stop \<Rightarrow> bool" where
  "pool_stops api rq r b s \<longleftrightarrow> (\<exists>pool. rt_modelPools r (extractModel b) = Some pool \<and>
     (s = StopPanic DivideByZero \<and> loads_moved api pool (rq_pool_world rq) (rq_sessionID rq) \<or>
      extractModel b = [] \<and> \<not> is_object b \<and> \<not> loads_moved api pool (rq_pool_world rq) (rq_sessionID rq) \<and>
        s = (if snd b = Some JNull then StopPanic NilMapWrite else StopError 500 ''pool rewrite failed'')))"

text \<open>The model of the body is the model it is routed by, if it was to begin with.\<close>

definition keeps :: "bool \<Rightarrow> body \<Rightarrow> 't routed \<Rightarrow> bool" where
  "keeps named b d \<longleftrightarrow> same_elsewhere b (rd_body d) \<and> (rd_model d \<noteq> [] \<longrightarrow> is_object (rd_body d)) \<and>
     (named \<longrightarrow> extractModel (rd_body d) = rd_model d \<and> settled (rd_body d))"

lemma named_object:
  assumes "extractModel b \<noteq> []"
  shows "is_object b"
  by (rule extractModel_object [OF assms]) (auto simp: is_object_def)

lemma rewrite_object:
  assumes "is_object b"
  obtains b' where "rewrite_stage marshal msg b m = Inr b'" "is_object b'" "settled b'" "same_elsewhere b b'"
    "extractModel b \<noteq> [] \<Longrightarrow> extractModel b' = m"
proof -
  obtain kvs where kvs: "snd b = Some (JObj kvs)" using assms by (auto simp: is_object_def)
  let ?b' = "remarshal marshal (json_set ''model'' (JStr m) kvs)"
  have st: "rewrite_stage marshal msg b m = Inr ?b'" by (simp add: rewrite_stage_def rewriteModelField_def kvs)
  have "same_elsewhere b ?b'"
    using kvs by (auto simp: same_elsewhere_def remarshal_lookup json_lookup_canonical json_lookup_set)
  moreover have "is_object ?b'" by (simp add: is_object_def remarshal_lookup)
  moreover have "extractModel ?b' = m" if "extractModel b \<noteq> []"
    using rewrite_stage_ok [OF that, of marshal msg m] st by auto
  ultimately show thesis using that st settled_remarshal by blast
qed

lemma rewrite_fails:
  "\<not> is_object b \<Longrightarrow> rewrite_stage marshal msg b m =
     Inl (if snd b = Some JNull then StopPanic NilMapWrite else StopError 500 msg)"
  by (auto simp: is_object_def rewrite_stage_def rewriteModelField_def split: option.splits json.splits)

lemma keeps_rewrite:
  assumes "keeps named b d" "is_object (rd_body d)" "named \<longrightarrow> rd_model d \<noteq> []"
  obtains b' where "rewrite_stage marshal msg (rd_body d) m = Inr b'"
    "\<And>d'. rd_body d' = b' \<Longrightarrow> rd_model d' = m \<Longrightarrow> keeps named b d'"
proof (rule rewrite_object [OF assms(2), of marshal msg m])
  fix b' assume b': "rewrite_stage marshal msg (rd_body d) m = Inr b'" "is_object b'" "settled b'"
    "same_elsewhere (rd_body d) b'" "extractModel (rd_body d) \<noteq> [] \<Longrightarrow> extractModel b' = m"
  have "keeps named b d'" if "rd_body d' = b'" "rd_model d' = m" for d' :: "'b routed"
    using assms b' that same_elsewhere_trans [of b "rd_body d" b'] by (auto simp: keeps_def)
  with that b'(1) show thesis by blast
qed

definition names_model :: "'t router \<Rightarrow> body \<Rightarrow> bool" where
  "names_model r b \<longleftrightarrow> settled b \<and> (extractModel b = [] \<longrightarrow> rt_modelPools r [] = None)"

lemma pool_stage_total:
  assumes "pools_wf r"
  obtains r' out where "pool_stage api marshal rq r (initial_routed r b) = (r', out)"
    "rt_routes r' = rt_routes r" "\<And>s. out = Inl s \<Longrightarrow> pool_stops api rq r b s"
    "\<And>d. out = Inr d \<Longrightarrow> keeps (names_model r b) b d \<and> (\<forall>s. \<not> pool_stops api rq r b s) \<and> (case rt_modelPools r (extractModel b) of
       None \<Rightarrow> r' = r \<and> d = initial_routed r b
     | Some pool \<Rightarrow> rd_byPool d \<and> (\<exists>mem \<in> set (mp_members pool). rd_provider d = mm_Provider mem \<and> rd_target d = mm_Handler mem))"
proof -
  let ?d = "initial_routed r b"
  have d: "rd_model ?d = extractModel b" "rd_body ?d = b" by (simp_all add: initial_routed_def)
  have keep: "keeps (settled b) b ?d"
    using named_object [of b] by (simp add: keeps_def d same_elsewhere_refl)
  show thesis
  proof (cases "rt_modelPools r (extractModel b)")
    case None
    then have "keeps (names_model r b) b ?d" using keep by (simp add: keeps_def names_model_def)
    with None that [of r "Inr ?d"] show thesis by (simp add: pool_stage_def d pool_stops_def)
  next
    case (Some pool)
    have wf: "wf_model_pool pool" using assms(1) Some by (auto simp: pools_wf_def)
    obtain p' where p': "if loads_moved api pool (rq_pool_world rq) (rq_sessionID rq)
       then mp_Resolve api pool (rq_pool_world rq) (rq_saturated rq) (rq_overflow_world rq) (rq_sessionID rq) = (p', Inl DivideByZero)
       else \<exists>m \<in> set (mp_members pool).
         mp_Resolve api pool (rq_pool_world rq) (rq_saturated rq) (rq_overflow_world rq) (rq_sessionID rq) = (p', Inr m)"
      using mp_Resolve_total [OF wf] by blast
    let ?r = "r\<lparr>rt_modelPools := (rt_modelPools r)(extractModel b \<mapsto> p')\<rparr>"
    show thesis
    proof (cases "loads_moved api pool (rq_pool_world rq) (rq_sessionID rq)")
      case True
      with p' Some that [of ?r "Inl (StopPanic DivideByZero)"] show thesis
        by (simp add: pool_stage_def d pool_stops_def)
    next
      case False
      with p' obtain mem where mem: "mem \<in> set (mp_members pool)"
        "mp_Resolve api pool (rq_pool_world rq) (rq_saturated rq) (rq_overflow_world rq) (rq_sessionID rq) = (p', Inr mem)"
        by auto
      show thesis
      proof (cases "is_object b")
        case obj: True
        have k: "keeps (names_model r b) b ?d" "names_model r b \<longrightarrow> rd_model ?d \<noteq> []" "is_object (rd_body ?d)"
          using keep Some obj by (auto simp: keeps_def names_model_def d)
        obtain b' where b': "rewrite_stage marshal ''pool rewrite failed'' (rd_body ?d) (mm_Model mem) = Inr b'"
          "\<And>d'. rd_body d' = b' \<Longrightarrow> rd_model d' = mm_Model mem \<Longrightarrow> keeps (names_model r b) b (d' :: 'a routed)"
          by (rule keeps_rewrite [OF k(1,3,2)]) blast
        with Some mem show thesis
          by (intro that [of ?r "Inr (?d\<lparr>rd_body := b', rd_model := mm_Model mem, rd_provider := mm_Provider mem,
              rd_target := mm_Handler mem,
              rd_requires := provider_globs (rt_routes r) (mm_Provider mem) (rd_requires ?d), rd_byPool := True\<rparr>)"])
             (use False obj in \<open>auto simp: pool_stage_def d pool_stops_def\<close>)
      next
        case no: False
        then have "extractModel b = []" using named_object by blast
        with no False rewrite_fails [OF no, of marshal "''pool rewrite failed''" "mm_Model mem"] Some mem show thesis
          by (intro that [of ?r "Inl (if snd b = Some JNull then StopPanic NilMapWrite else StopError 500 ''pool rewrite failed'')"])
             (auto simp: pool_stage_def d pool_stops_def)
      qed
    qed
  qed
qed

lemma alias_stage_total:
  assumes "keeps named b d"
  obtains m' d' where "alias_stage marshal r d m = (m', Inr d')" "keeps named b d'"
    "rd_provider d' = rd_provider d" "rd_target d' = rd_target d" "rd_byPool d' = rd_byPool d"
    "rd_model d' = alias_name r (rd_model d)"
proof (cases "rt_aliases r (rd_model d) = None \<or> rd_model d = []")
  case True
  then show thesis using that [of m d] assms by (auto simp: alias_stage_def alias_name_def split: option.splits)
next
  case False
  then obtain resolved where res: "rt_aliases r (rd_model d) = Some resolved" and ne: "rd_model d \<noteq> []" by auto
  then have "is_object (rd_body d)" using assms by (simp add: keeps_def)
  then obtain b' where b': "rewrite_stage marshal ''alias rewrite failed'' (rd_body d) resolved = Inr b'"
    "\<And>d'. rd_body d' = b' \<Longrightarrow> rd_model d' = resolved \<Longrightarrow> keeps named b (d' :: 'a routed)"
    using keeps_rewrite [OF assms, where msg = "''alias rewrite failed''" and m = resolved] ne by metis
  with res ne show thesis
    by (intro that [of "ObserveAliasResolution (rd_model d) resolved m"
        "d\<lparr>rd_body := b', rd_alias := resolved, rd_model := resolved\<rparr>"]) (simp_all add: alias_stage_def alias_name_def)
qed

lemma strip_stage_total:
  assumes "keeps named b d"
  obtains d' where "strip_stage marshal d = Inr d'" "keeps named b d'"
    "rd_provider d' = rd_provider d" "rd_target d' = rd_target d" "rd_byPool d' = rd_byPool d"
    "rd_model d' = trim_suffix (rd_model d) ''[1m]''"
proof (cases "has_suffix (rd_model d) ''[1m]''")
  case True
  then have ne: "rd_model d \<noteq> []" by (auto simp: has_suffix_def)
  then have "is_object (rd_body d)" using assms by (simp add: keeps_def)
  then obtain b' where b': "rewrite_stage marshal ''model name normalization failed'' (rd_body d)
      (trim_suffix (rd_model d) ''[1m]'') = Inr b'"
    "\<And>d'. rd_body d' = b' \<Longrightarrow> rd_model d' = trim_suffix (rd_model d) ''[1m]'' \<Longrightarrow> keeps named b (d' :: 'a routed)"
    using keeps_rewrite [OF assms, where msg = "''model name normalization failed''"
        and m = "trim_suffix (rd_model d) ''[1m]''"] ne by metis
  with True show thesis
    by (intro that [of "d\<lparr>rd_body := b', rd_model := trim_suffix (rd_model d) ''[1m]''\<rparr>"])
       (simp_all add: strip_stage_def Let_def)
next
  case False
  then show thesis using that [of d] assms by (simp add: strip_stage_def trim_suffix_def)
qed

lemma lift_stage_keeps:
  assumes "keeps named b d"
  shows "keeps named b (lift_stage marshal rq d)"
proof -
  have "is_object b'" if "liftSystemMessages marshal dn c = Lifted b' moved" for dn c b' moved
    using that
    by (auto simp: liftSystemMessages_def lift_messages_def is_object_def remarshal_lookup
        split: option.splits json.splits if_splits)
  then show ?thesis
    using assms unfolding lift_stage_def
    by (auto simp: keeps_def lifted_model lifted_same dest: lifted_same(1) intro: same_elsewhere_trans
        split: lift_result.splits)
qed

text \<open>A model that names no pool: nothing can stop the request, whatever its body looks like.\<close>

lemma route_request_unpooled:
  assumes "rt_modelPools r (extractModel b) = None"
  obtains m' d where "route_request api marshal rq b r m = (r, m', Inr (lift_stage marshal rq (route_stage api rq r d)))"
    "\<not> rd_byPool d" "rd_model d = trim_suffix (alias_name r (extractModel b)) ''[1m]''"
    "rd_provider d = rt_defaultProviderName r" "rd_target d = rt_defaultHandler r"
proof -
  let ?d = "initial_routed r b"
  have d: "keeps False b ?d" "\<not> rd_byPool ?d" "rd_model ?d = extractModel b"
    using named_object [of b] by (simp_all add: keeps_def initial_routed_def same_elsewhere_refl)
  obtain m' d1 where a: "alias_stage marshal r ?d m = (m', Inr d1)" "keeps False b d1" "rd_provider d1 = rd_provider ?d"
    "rd_target d1 = rd_target ?d" "rd_byPool d1 = rd_byPool ?d" "rd_model d1 = alias_name r (rd_model ?d)"
    by (rule alias_stage_total [OF d(1)])
  obtain d2 where s: "strip_stage marshal d1 = Inr d2" "rd_provider d2 = rd_provider d1" "rd_target d2 = rd_target d1"
    "rd_byPool d2 = rd_byPool d1" "rd_model d2 = trim_suffix (rd_model d1) ''[1m]''"
    by (rule strip_stage_total [OF a(2)])
  have "pool_stage api marshal rq r ?d = (r, Inr ?d)" using assms d(3) by (simp add: pool_stage_def)
  then have "route_request api marshal rq b r m = (r, m', Inr (lift_stage marshal rq (route_stage api rq r d2)))"
    using a(1) s(1) d(2) by (simp add: route_request_def)
  then show thesis using that a(3-6) s(2-5) d(2,3) by (simp add: initial_routed_def)
qed

lemma route_request_total:
  assumes "pools_wf r"
  obtains r' s where "route_request api marshal rq b r m = (r', m, Inl s)" "pool_stops api rq r b s"
  | r' m' d0 d where "route_request api marshal rq b r m = (r', m', Inr d)" "keeps (names_model r b) b d"
      "\<forall>s. \<not> pool_stops api rq r b s" "d = lift_stage marshal rq (route_stage api rq r' d0)" "rt_routes r' = rt_routes r"
      "case rt_modelPools r (extractModel b) of
         None \<Rightarrow> \<not> rd_byPool d0 \<and> rd_provider d0 = rt_defaultProviderName r \<and> rd_target d0 = rt_defaultHandler r
       | Some pool \<Rightarrow> rd_byPool d0 \<and> (\<exists>mem \<in> set (mp_members pool). rd_provider d0 = mm_Provider mem \<and> rd_target d0 = mm_Handler mem)"
proof -
  obtain r' out where p: "pool_stage api marshal rq r (initial_routed r b) = (r', out)"
    "rt_routes r' = rt_routes r" "\<And>s. out = Inl s \<Longrightarrow> pool_stops api rq r b s"
    "\<And>d. out = Inr d \<Longrightarrow> keeps (names_model r b) b d \<and> (\<forall>s. \<not> pool_stops api rq r b s) \<and> (case rt_modelPools r (extractModel b) of
       None \<Rightarrow> r' = r \<and> d = initial_routed r b
     | Some pool \<Rightarrow> rd_byPool d \<and> (\<exists>mem \<in> set (mp_members pool). rd_provider d = mm_Provider mem \<and> rd_target d = mm_Handler mem))"
    by (rule pool_stage_total [OF assms, of api marshal rq b]) blast
  show thesis
  proof (cases out)
    case (Inl s)
    with p that(1) [of r' s] show thesis by (simp add: route_request_def)
  next
    case (Inr d1)
    obtain m' d2 where a: "(if rd_byPool d1 then (m, Inr d1) else alias_stage marshal r' d1 m) = (m', Inr d2)"
      "keeps (names_model r b) b d2" "rd_provider d2 = rd_provider d1" "rd_target d2 = rd_target d1" "rd_byPool d2 = rd_byPool d1"
    proof (cases "rd_byPool d1")
      case True
      then show thesis using that [of m d1] p(4) [OF Inr] by simp
    next
      case False
      then show thesis using alias_stage_total [of "names_model r b" b d1 marshal r' m] p(4) [OF Inr] that by auto
    qed
    obtain d3 where s: "strip_stage marshal d2 = Inr d3" "keeps (names_model r b) b d3"
      "rd_provider d3 = rd_provider d2" "rd_target d3 = rd_target d2" "rd_byPool d3 = rd_byPool d2"
      using strip_stage_total [OF a(2)] by blast
    have "keeps (names_model r b) b (route_stage api rq r' d3)" using s(2) by (simp add: keeps_def route_stage_same)
    then have "keeps (names_model r b) b (lift_stage marshal rq (route_stage api rq r' d3))" by (rule lift_stage_keeps)
    moreover have "route_request api marshal rq b r m = (r', m', Inr (lift_stage marshal rq (route_stage api rq r' d3)))"
      using p(1) Inr a(1) s(1) by (simp add: route_request_def)
    moreover have "case rt_modelPools r (extractModel b) of
         None \<Rightarrow> \<not> rd_byPool d3 \<and> rd_provider d3 = rt_defaultProviderName r \<and> rd_target d3 = rt_defaultHandler r
       | Some pool \<Rightarrow> rd_byPool d3 \<and> (\<exists>mem \<in> set (mp_members pool). rd_provider d3 = mm_Provider mem \<and> rd_target d3 = mm_Handler mem)"
      using p(4) [OF Inr] unfolding s(3-5) a(3-5)
      by (cases "rt_modelPools r (extractModel b)") (simp_all add: initial_routed_def)
    ultimately show thesis using that(2) [OF _ _ _ refl p(2)] p(4) [OF Inr] by blast
  qed
qed

section \<open>Glob walk\<close>

definition route_open :: "'t time_api \<Rightarrow> (nat \<Rightarrow> pool_world) \<Rightarrow> string \<Rightarrow> 't model_route list \<Rightarrow> nat \<Rightarrow> bool" where
  "route_open api w model routes j \<longleftrightarrow>
     path_match (mr_Pattern (routes ! j)) model = Some True \<and> windowEligible api (w j) (mr_Handler (routes ! j))"

lemma glob_walk_shift:
  "glob_walk api w model (Suc i) routes = glob_walk api (\<lambda>j. w (Suc j)) model i routes"
  by (induction routes arbitrary: i) auto

lemma glob_walk_first:
  "(case glob_walk api w model 0 routes of
      None \<Rightarrow> \<forall>j < length routes. \<not> route_open api w model routes j
    | Some route \<Rightarrow> \<exists>j < length routes. route = routes ! j \<and> route_open api w model routes j \<and>
        (\<forall>k < j. \<not> route_open api w model routes k))"
proof (induction routes arbitrary: w)
  case (Cons route routes)
  have s: "route_open api w model (route # routes) (Suc k) = route_open api (\<lambda>j. w (Suc j)) model routes k" for k
    by (simp add: route_open_def)
  show ?case
  proof (cases "route_open api w model (route # routes) 0")
    case True
    then show ?thesis by (auto simp: route_open_def intro!: exI [of _ 0])
  next
    case False
    then have eq: "glob_walk api w model 0 (route # routes) = glob_walk api (\<lambda>j. w (Suc j)) model 0 routes"
      using glob_walk_shift [of api w model 0 routes] by (simp add: route_open_def)
    show ?thesis
    proof (cases "glob_walk api (\<lambda>j. w (Suc j)) model 0 routes")
      case None
      then have "\<forall>j < length routes. \<not> route_open api w model (route # routes) (Suc j)"
        using Cons.IH [of "\<lambda>j. w (Suc j)"] by (simp add: s)
      with False have "\<forall>j < length (route # routes). \<not> route_open api w model (route # routes) j"
        by (auto simp: less_Suc_eq_0_disj)
      then show ?thesis unfolding eq None by simp
    next
      case (Some route')
      then obtain j where "j < length routes" "route' = routes ! j"
          "route_open api (\<lambda>j. w (Suc j)) model routes j"
          "\<forall>k < j. \<not> route_open api (\<lambda>j. w (Suc j)) model routes k"
        using Cons.IH [of "\<lambda>j. w (Suc j)"] by auto
      with False show ?thesis
        unfolding eq Some option.case
        by (intro exI [of _ "Suc j"]) (auto simp: s less_Suc_eq_0_disj)
    qed
  qed
qed simp

text \<open>The route the presented key pins the request to, if any.\<close>

definition pinned_route :: "'t time_api \<Rightarrow> router_request \<Rightarrow> 't router \<Rightarrow> 't model_route \<Rightarrow> bool" where
  "pinned_route api rq r route \<longleftrightarrow> rq_presentedKey rq \<noteq> [] \<and>
     (\<exists>i < length (rt_routes r). route = rt_routes r ! i \<and>
        rq_presentedKey rq \<in> set (mr_AllowedApiKeys route) \<and>
        (\<forall>j < i. rq_presentedKey rq \<notin> set (mr_AllowedApiKeys (rt_routes r ! j)))) \<and>
     windowEligible api (rq_key_world rq) (mr_Handler route)"

lemma containsString_iff: "containsString list s \<longleftrightarrow> s \<in> set list"
  by (auto simp: containsString_def list_ex_iff)

lemma key_stage_iff: "key_stage api rq r = Some route \<longleftrightarrow> pinned_route api rq r route"
proof -
  let ?f = "find (\<lambda>route. containsString (mr_AllowedApiKeys route) (rq_presentedKey rq)) (rt_routes r)"
  have "key_stage api rq r = Some route \<longleftrightarrow> rq_presentedKey rq \<noteq> [] \<and> ?f = Some route \<and>
      windowEligible api (rq_key_world rq) (mr_Handler route)"
    by (cases ?f) (auto simp: key_stage_def)
  then show ?thesis by (auto simp: pinned_route_def find_Some_iff containsString_iff)
qed

definition goes_to :: "string \<Rightarrow> 't http_handler \<Rightarrow> 't routed \<Rightarrow> bool" where
  "goes_to provider handler d \<longleftrightarrow> rd_provider d = provider \<and> rd_target d = handler"

lemma route_stage_cases:
  assumes "\<not> rd_byPool d"
  shows "(\<exists>route. pinned_route api rq r route \<and>
      goes_to (mr_ProviderName route) (mr_Handler route) (route_stage api rq r d)) \<or>
    (\<nexists>route. pinned_route api rq r route) \<and>
      (let routes = rt_routes r; open = route_open api (rq_glob_world rq) (rd_model d) routes
       in (\<exists>j < length routes. open j \<and> (\<forall>k < j. \<not> open k) \<and>
             goes_to (mr_ProviderName (routes ! j)) (mr_Handler (routes ! j)) (route_stage api rq r d)) \<or>
          (\<forall>j < length routes. \<not> open j) \<and>
             goes_to (rd_provider d) (rd_target d) (route_stage api rq r d))"
proof (cases "key_stage api rq r")
  case None
  then have "\<nexists>route. pinned_route api rq r route" using key_stage_iff [of api rq r] by simp
  then show ?thesis
    using None assms
      glob_walk_first [where api = api and w = "rq_glob_world rq" and model = "rd_model d" and routes = "rt_routes r"]
    by (cases "glob_walk api (rq_glob_world rq) (rd_model d) 0 (rt_routes r)")
       (auto simp: route_stage_def to_route_def goes_to_def Let_def)
next
  case (Some route)
  then show ?thesis
    using assms key_stage_iff [of api rq r route] by (auto simp: route_stage_def to_route_def goes_to_def)
qed

section \<open>Properties\<close>


text \<open>
  C4. The order of routing, for any body whose model names no pool. The request is dispatched: the alias
  of the model and then its name without a trailing \<open>[1m]\<close> decide; a presented key pins the request to
  the first route that claims it, if that route's provider is open; otherwise the first open route
  whose glob matches takes it; otherwise the default provider, whether open or not.
\<close>

theorem routing_order:
  assumes "rt_modelPools r (extractModel b) = None"
  shows "\<exists>m' d. route_request api marshal rq b r m = (r, m', Inr d) \<and>
    rd_model d = trim_suffix (alias_name r (extractModel b)) ''[1m]'' \<and>
    ((\<exists>route. pinned_route api rq r route \<and> goes_to (mr_ProviderName route) (mr_Handler route) d) \<or>
     (\<nexists>route. pinned_route api rq r route) \<and>
       (let routes = rt_routes r; open = route_open api (rq_glob_world rq) (rd_model d) routes
        in (\<exists>j < length routes. open j \<and> (\<forall>k < j. \<not> open k) \<and>
              goes_to (mr_ProviderName (routes ! j)) (mr_Handler (routes ! j)) d) \<or>
           (\<forall>j < length routes. \<not> open j) \<and>
              goes_to (rt_defaultProviderName r) (rt_defaultHandler r) d))"
proof -
  obtain m' d where
    d: "route_request api marshal rq b r m = (r, m', Inr (lift_stage marshal rq (route_stage api rq r d)))"
    "\<not> rd_byPool d" "rd_model d = trim_suffix (alias_name r (extractModel b)) ''[1m]''"
    "rd_provider d = rt_defaultProviderName r" "rd_target d = rt_defaultHandler r"
    by (rule route_request_unpooled [OF assms])
  let ?d = "lift_stage marshal rq (route_stage api rq r d)"
  have g: "goes_to p h ?d = goes_to p h (route_stage api rq r d)" for p h
    by (simp add: goes_to_def lift_stage_same)
  have "rd_model ?d = rd_model d" by (simp add: lift_stage_same route_stage_same)
  then show ?thesis
    using route_stage_cases [OF d(2), of api rq r] d(1,3) unfolding d(4,5)
    by (intro exI [of _ m'] exI [of _ ?d]) (simp only: g simp_thms)
qed


text \<open>
  A model that names a pool is served by a member of that pool, under the member's concrete
  model: keys, globs and aliases are not consulted and no alias is counted.
\<close>

theorem pool_name_wins:
  assumes "pools_ok r" "pool_request_ok rq"
    and "single_model b"
    and "rt_modelPools r (extractModel b) = Some pool"
  shows "\<exists>r' d. route_request api marshal rq b r m = (r', m, Inr d) \<and>
    (\<exists>mem \<in> set (mp_members pool). goes_to (mm_Provider mem) (mm_Handler mem) d \<and>
       rd_model d = trim_suffix (mm_Model mem) ''[1m]'')"
proof -
  have "settled b" using assms(3) by (rule settled_single)
  from route_request_ok [OF assms(1,2) this, of api marshal m] obtain r' m' d where
    d: "route_request api marshal rq b r m = (r', m', Inr (lift_stage marshal rq (route_stage api rq r' d)))"
    and "m' = m \<and> rd_byPool d \<and> (\<exists>mem \<in> set (mp_members pool). rd_provider d = mm_Provider mem \<and>
       rd_target d = mm_Handler mem \<and> rd_model d = trim_suffix (mm_Model mem) ''[1m]'')"
    using assms(4) by metis
  then obtain mem where p: "m' = m" "rd_byPool d" "mem \<in> set (mp_members pool)" "rd_provider d = mm_Provider mem"
      "rd_target d = mm_Handler mem" "rd_model d = trim_suffix (mm_Model mem) ''[1m]''" by blast
  then show ?thesis
    using d by (auto simp: goes_to_def lift_stage_same route_stage_def intro!: bexI [of _ mem])
qed

section \<open>Example\<close>

definition ex_route :: "ex_tod model_route" where
  "ex_route = \<lparr>mr_Pattern = ''q'', mr_ProviderName = ''b'', mr_Handler = PoolHandler ex_pool,
     mr_RequiresLeadingSystem = [], mr_AllowedApiKeys = [''k'']\<rparr>"

definition ex_router :: "ex_tod router" where
  "ex_router = NewModelRouterWithPools [ex_route] ''a'' (BreakerHandler (PoolHandler ex_pool))
     [''o'' \<mapsto> ''q[1m]''] [''p'' \<mapsto> ex_mp]"

definition ex_body :: "string \<Rightarrow> body" where
  "ex_body model = ([], Some (JObj [(''model'', JStr model)]))"

definition ex_rq :: router_request where
  "ex_rq = \<lparr>rq_wire = ex_body ''o'', rq_broken = False, rq_sessionID = [], rq_presentedKey = [],
     rq_pool_world = ex_mw, rq_saturated = False, rq_overflow_world = ex_mw, rq_key_world = ex_world,
     rq_glob_world = (\<lambda>_. ex_world), rq_lift_done = False\<rparr>"

lemma ex_router_facts:
  "pools_ok ex_router" "pool_request_ok ex_rq"
  "single_model (ex_body x)" "extractModel (ex_body x) = x"
proof -
  show "pools_ok ex_router"
    using ex_mp_facts(1) by (simp add: pools_ok_def ex_router_def NewModelRouterWithPools_def)
  show "pool_request_ok ex_rq" using ex_mp_facts(2) by (simp add: pool_request_ok_def ex_rq_def ex_mw_def)
  show "single_model (ex_body x)" by (simp add: single_model_def ex_body_def)
  have "model_key ''model''" unfolding model_key_def by code_simp
  then show "extractModel (ex_body x) = x" by (simp add: ex_body_def extractModel_def)
qed

lemma ex_router_wf: "pools_wf ex_router"
  using ex_router_facts(1) by (simp add: pools_ok_def pools_wf_def)



lemma ex_route_open: "route_open ex_api (rq_glob_world ex_rq) ''q'' (rt_routes ex_router) 0"
  by (simp add: route_open_def ex_router_def NewModelRouterWithPools_def ex_route_def ex_globs
      windowEligible_def HasEligibleMember_def ex_rq_def ex_pool_noon)

theorem routing_order_witness:
  "\<exists>m' d. route_request ex_api (\<lambda>_. []) ex_rq (ex_body ''o'') ex_router (NewMetrics []) = (ex_router, m', Inr d) \<and>
     rd_model d = ''q'' \<and> goes_to ''b'' (PoolHandler ex_pool) d"
proof -
  have "rt_modelPools ex_router (extractModel (ex_body ''o'')) = None"
    by (simp add: ex_router_facts(4)) (simp add: ex_router_def NewModelRouterWithPools_def)
  note * = routing_order [OF this,
      where api = ex_api and rq = ex_rq and marshal = "\<lambda>_. []" and rq = ex_rq and m = "NewMetrics []"]
  have "trim_suffix (alias_name ex_router ''o'') ''[1m]'' = ''q''"
    by (simp add: alias_name_def ex_router_def NewModelRouterWithPools_def trim_suffix_def has_suffix_def)
  moreover have "\<nexists>route. pinned_route ex_api ex_rq ex_router route"
    by (simp add: pinned_route_def ex_rq_def)
  moreover have "rt_routes ex_router = [ex_route]" by (simp add: ex_router_def NewModelRouterWithPools_def)
  ultimately show ?thesis
    using * ex_route_open by (auto simp: ex_router_facts(4) Let_def ex_route_def)
qed

theorem pool_name_wins_witness:
  "\<exists>r' d. route_request ex_api (\<lambda>_. []) ex_rq (ex_body ''p'') ex_router (NewMetrics []) =
      (r', NewMetrics [], Inr d) \<and> rd_model d = ''m''"
proof -
  have "rt_modelPools ex_router (extractModel (ex_body ''p'')) = Some ex_mp"
    by (simp add: ex_router_facts(4)) (simp add: ex_router_def NewModelRouterWithPools_def)
  from pool_name_wins [OF ex_router_facts(1-3) this,
      where api = ex_api and marshal = "\<lambda>_. []" and m = "NewMetrics []"] show ?thesis
    by (fastforce simp: ex_mp_def ex_mm_def trim_suffix_def has_suffix_def)
qed


definition readable :: "router_request \<Rightarrow> bool" where
  "readable rq \<longleftrightarrow> length (fst (rq_wire rq)) \<le> MaxRequestBodyBytes \<and> \<not> rq_broken rq"

text \<open>
  C26. When the router answers by itself: 413 to a body larger than 32 MiB, 400 to one whose connection
  broke, and 500 to a body that is no JSON object when a model pool has the empty name. It panics
  only in the resolution of a model pool: when its loads move between the two readings, or when the body
  is \<open>null\<close> and the pool has the empty name. The pools are well formed, as in C2. An answer of its own is counted once under the unknown labels
  and touches neither the rejection counters nor the in-flight gauge.
\<close>

theorem router_errors_are_read_errors:
  assumes "pools_wf r"
  shows "case router_before api marshal rq latency now fresh_response r m of
      (r', m', Dispatched d k) \<Rightarrow> readable rq \<and> (\<forall>s. \<not> pool_stops api rq r (rq_wire rq) s)
    | (r', m', Answered w) \<Rightarrow>
        (\<exists>status. rs_status w = Some status \<and>
           (status = 413 \<and> MaxRequestBodyBytes < length (fst (rq_wire rq)) \<or>
            status = 400 \<and> length (fst (rq_wire rq)) \<le> MaxRequestBodyBytes \<and> rq_broken rq \<or>
            status = 500 \<and> readable rq \<and> \<not> is_object (rq_wire rq) \<and> rt_modelPools r [] \<noteq> None) \<and>
           RequestsTotal m' = vec_add (UnknownModelLabel, UnknownModelLabel,
             if status = 500 then ''5xx_router'' else ''4xx_bad_request'') 1 (RequestsTotal m)) \<and>
        RejectedTotal m' = RejectedTotal m \<and> m_InFlight m' = m_InFlight m
    | (r', m', Panicked e) \<Rightarrow> readable rq \<and>
        (e = DivideByZero \<and> rq_sessionID rq = [] \<and> (\<exists>pool. rt_modelPools r (extractModel (rq_wire rq)) = Some pool \<and>
           loads_moved api pool (rq_pool_world rq) []) \<or>
         e = NilMapWrite \<and> snd (rq_wire rq) = Some JNull \<and> rt_modelPools r [] \<noteq> None)"
proof (cases "router_read rq")
  case (Inl s)
  then have "s = StopError (if MaxRequestBodyBytes < length (fst (rq_wire rq)) then 413 else 400)
      (if MaxRequestBodyBytes < length (fst (rq_wire rq)) then ''request body too large'' else ''read body failed'')"
    and bad: "MaxRequestBodyBytes < length (fst (rq_wire rq)) \<or> rq_broken rq"
    by (auto simp: router_read_def split: if_splits)
  then show ?thesis
    using Inl by (auto simp: router_before_def Let_def ObserveRequest_def statusClass_def http_Error_status fresh_response_def)
next
  case (Inr b)
  then have b: "b = rq_wire rq" and ok: "readable rq" by (auto simp: router_read_def readable_def split: if_splits)
  show ?thesis
  proof (rule route_request_total [OF assms(1), of api marshal rq b m])
    fix r' s assume s: "route_request api marshal rq b r m = (r', m, Inl s)" "pool_stops api rq r b s"
    then show ?thesis
      using Inr ok b
      by (auto simp: router_before_def Let_def ObserveRequest_def statusClass_def http_Error_status fresh_response_def
          pool_stops_def loads_moved_def)
  qed (use Inr ok b in \<open>simp add: router_before_def Let_def\<close>)
qed

theorem router_errors_are_read_errors_witness:
  "case router_before ex_api (\<lambda>_. []) (ex_rq\<lparr>rq_broken := True\<rparr>) 0 0 fresh_response ex_router (NewMetrics []) of
     (r', m', Dispatched d k) \<Rightarrow> False | (r', m', Answered w) \<Rightarrow> rs_status w = Some 400 | (r', m', Panicked e) \<Rightarrow> False"
  using router_errors_are_read_errors [OF ex_router_wf, where rq = "ex_rq\<lparr>rq_broken := True\<rparr>" and api = ex_api
      and marshal = "\<lambda>_. []" and latency = 0 and now = 0 and m = "NewMetrics []"]
  by (auto simp: readable_def ex_rq_def ex_body_def split: prod.splits router_result.splits)

text \<open>
  After the dispatch a response is counted once, under the model the upstream saw, and a
  rejection exactly when the response is a 429: then once, under the reason the refusing
  gate recorded, or as the upstream's own when no gate did. A handler that panics is not
  counted. Token counts are only ever added for status 200.
\<close>

theorem each_response_counted_once:
  assumes "m' = router_after parse gunzip origModel d k latency w h m"
  shows "RequestsTotal m' = (if di_panics h then RequestsTotal m
      else vec_add (rd_provider d, resolveModelLabel (rd_model d) origModel, statusClass (di_status w h) False) 1
        (RequestsTotal m)) \<and>
    RejectedTotal m' = (if \<not> di_panics h \<and> di_status w h = 429
      then vec_add (rd_provider d, rejectionReasonOf (di_rejection h)) 1 (RejectedTotal m) else RejectedTotal m) \<and>
    (di_panics h \<or> di_status w h \<noteq> 200 \<longrightarrow>
       TokensTotal m' = TokensTotal m \<and> CacheTokensTotal m' = CacheTokensTotal m) \<and>
    m_InFlight m' = if_end k (m_InFlight m)"
proof -
  have tok: "RequestsTotal (recordTokensFromUsage p q u n) = RequestsTotal n \<and>
      RejectedTotal (recordTokensFromUsage p q u n) = RejectedTotal n \<and>
      m_InFlight (recordTokensFromUsage p q u n) = m_InFlight n" for p q u n
    by (simp add: recordTokensFromUsage_def recordTokenDirection_def recordCacheTokenDirection_def
        ObserveTokens_def ObserveCacheTokens_def Let_def split: option.splits)
  show ?thesis
    unfolding assms
    by (simp add: router_after_def router_observe_def Let_def tok ObserveRequest_def ObserveRejection_def)
qed

theorem each_response_counted_once_witness:
  "RejectedTotal (router_after (\<lambda>_. None) (\<lambda>_. None) ''q'' (initial_routed ex_router (ex_body ''q'')) 0 5 fresh_response
     \<lparr>di_calls = [UrWriteHeader 429], di_rejection = Some ''throttle'',
      di_member = \<lparr>slot_index = 0, slot_selected = False\<rparr>, di_contentType = [], di_contentEncoding = [],
      di_panics = False\<rparr> (NewMetrics [])) = [(''a'', ''throttle'') \<mapsto> 1]"
proof -
  let ?h = "\<lparr>di_calls = [UrWriteHeader 429], di_rejection = Some ''throttle'',
      di_member = \<lparr>slot_index = 0, slot_selected = False\<rparr>, di_contentType = [], di_contentEncoding = [],
      di_panics = False\<rparr>"
  have "di_status fresh_response ?h = 429"
    by (simp add: di_status_def di_recorder_def ur_do_def ur_WriteHeader_def newUsageRecorder_def sr_new_def
        sr_WriteHeader_def)
  then show ?thesis
    using each_response_counted_once [OF refl, where h = ?h and w = fresh_response
        and d = "initial_routed ex_router (ex_body ''q'')" and m = "NewMetrics []"]
    by (simp add: initial_routed_def ex_router_def NewModelRouterWithPools_def rejectionReasonOf_def
        NewMetrics_def vec_add_def)
qed

text \<open>
  The window of a provider is only seen when nothing is wrapped around its pool: a route to
  a closed pool is skipped, but a matching route to the same pool behind a cold-start,
  throttle or breaker gate is taken, whatever the window of the pool inside and whatever
  open providers follow. The comment in the router says that key routing and the glob walk
  skip every provider whose pool has no eligible member.
\<close>

theorem gates_hide_closed_windows:
  assumes "path_match (mr_Pattern route) model = Some True" "\<not> HasEligibleMember api pool (w i)"
  shows "glob_walk api w model i (route\<lparr>mr_Handler := PoolHandler pool\<rparr> # routes) =
      glob_walk api w model (i + 1) routes \<and>
    (\<forall>gate \<in> {ColdStartHandler, ThrottleHandler, BreakerHandler}.
       glob_walk api w model i (route\<lparr>mr_Handler := gate (PoolHandler pool)\<rparr> # routes) =
         Some (route\<lparr>mr_Handler := gate (PoolHandler pool)\<rparr>))"
  using assms by (simp add: windowEligible_def)

theorem gates_hide_closed_windows_witness:
  "glob_walk ex_api (\<lambda>_. ex_world\<lparr>pw_elig_done := True\<rparr>) ''q'' 0
     [ex_route\<lparr>mr_Handler := ThrottleHandler (PoolHandler ex_pool)\<rparr>] \<noteq> None"
proof -
  have "path_match (mr_Pattern ex_route) ''q'' = Some True" by (simp add: ex_route_def ex_globs)
  moreover have "\<not> HasEligibleMember ex_api ex_pool ((\<lambda>_. ex_world\<lparr>pw_elig_done := True\<rparr>) (0 :: nat))"
    by (simp add: HasEligibleMember_def pool_eligibleIndices_def)
  ultimately show ?thesis
    using gates_hide_closed_windows [of ex_route "''q''" ex_api ex_pool "\<lambda>_. ex_world\<lparr>pw_elig_done := True\<rparr>" 0 "[]"]
    by simp
qed

end
