(* ===== verification/Access.thy ===== *)
theory Access
  imports Usage
begin

text \<open>
  Who may reach what: the loopback test (\<open>loopback.go\<close>), the guard of the admin routes
  (\<open>admin_loopback_guard.go\<close>), the auth and session middlewares in front of the router
  (\<open>auth-middleware.go\<close>, \<open>session-middleware.go\<close> and their context values), the token swap on
  the way out (\<open>auth-swap-transport.go\<close>), the redaction of logged headers (\<open>redact.go\<close>) and the
  log level endpoint (\<open>setloglevel.go\<close>). The locale \<open>header_filter\<close> is the contract of a
  middleware that hides headers from what it wraps; \<open>two_filters\<close> composes two of them.

  The names of a header are in canonical form, as \<open>net/http\<close> delivers them. \<open>net.ParseIP\<close> is
  the argument \<open>parse_ip\<close>, answering with the 16 bytes of the address.
\<close>

section \<open>Requests\<close>

type_synonym header = "(string \<times> string list) list"

definition hdr_values :: "header \<Rightarrow> string \<Rightarrow> string list" where
  "hdr_values h k = (case map_of h k of None \<Rightarrow> [] | Some vs \<Rightarrow> vs)"

definition hdr_Get :: "header \<Rightarrow> string \<Rightarrow> string" where
  "hdr_Get h k = (case hdr_values h k of [] \<Rightarrow> [] | v # vs \<Rightarrow> v)"

definition hdr_Del :: "string \<Rightarrow> header \<Rightarrow> header" where
  "hdr_Del k h = filter (\<lambda>kv. fst kv \<noteq> k) h"

definition hdr_Set :: "string \<Rightarrow> string \<Rightarrow> header \<Rightarrow> header" where
  "hdr_Set k v h = (k, [v]) # hdr_Del k h"

text \<open>\<open>None\<close>: the context carries no such value.\<close>

record http_request =
  hr_RemoteAddr :: string
  hr_Header :: header
  hr_sessionID :: "string option"
  hr_presentedKey :: "string option"

definition ContextWithSessionID :: "string \<Rightarrow> http_request \<Rightarrow> http_request" where
  "ContextWithSessionID sessionID r = r\<lparr>hr_sessionID := Some sessionID\<rparr>"

definition SessionIDFromContext :: "http_request \<Rightarrow> string" where
  "SessionIDFromContext r = (case hr_sessionID r of None \<Rightarrow> [] | Some s \<Rightarrow> s)"

definition ContextWithPresentedApiKey :: "string \<Rightarrow> http_request \<Rightarrow> http_request" where
  "ContextWithPresentedApiKey key r = r\<lparr>hr_presentedKey := Some key\<rparr>"

definition PresentedApiKeyFromContext :: "http_request \<Rightarrow> string" where
  "PresentedApiKeyFromContext r = (case hr_presentedKey r of None \<Rightarrow> [] | Some k \<Rightarrow> k)"

section \<open>Loopback\<close>

abbreviation "colon \<equiv> CHR 0x3A"
abbreviation "lbracket \<equiv> CHR 0x5B"
abbreviation "rbracket \<equiv> CHR 0x5D"

text \<open>\<open>net.SplitHostPort\<close>; \<open>None\<close> is any of its errors.\<close>

definition SplitHostPort :: "string \<Rightarrow> (string \<times> string) option" where
  "SplitHostPort hostport =
     (case str_last_index hostport [colon] of
        None \<Rightarrow> None
      | Some i \<Rightarrow>
          (if hd hostport = lbracket then
             (case str_index hostport [rbracket] of
                None \<Rightarrow> None
              | Some e \<Rightarrow>
                  (if e + 1 \<noteq> i then None
                   else if lbracket \<in> set (drop 1 hostport) \<or> rbracket \<in> set (drop (e + 1) hostport) then None
                   else Some (take (e - 1) (drop 1 hostport), drop (i + 1) hostport)))
           else if colon \<in> set (take i hostport) then None
           else if lbracket \<in> set hostport \<or> rbracket \<in> set hostport then None
           else Some (take i hostport, drop (i + 1) hostport)))"

text \<open>\<open>IP.IsLoopback\<close> on the 16-byte form: an IPv4-mapped address in 127/8, or \<open>::1\<close>.\<close>

definition ip_IsLoopback :: "nat list \<Rightarrow> bool" where
  "ip_IsLoopback ip =
     (if take 12 ip = replicate 10 0 @ [255, 255] then ip ! 12 = 127 else ip = replicate 15 0 @ [1])"

definition IsLoopbackRemoteAddr :: "(string \<Rightarrow> nat list option) \<Rightarrow> string \<Rightarrow> bool" where
  "IsLoopbackRemoteAddr parse_ip addr =
     (case SplitHostPort addr of
        None \<Rightarrow> False
      | Some (host, port) \<Rightarrow> (case parse_ip host of None \<Rightarrow> False | Some ip \<Rightarrow> ip_IsLoopback ip))"

section \<open>Middlewares\<close>

text \<open>The guard and the middlewares as what becomes of a request: answered or passed on.\<close>

definition adminLoopbackGuard :: "(string \<Rightarrow> bool) \<Rightarrow> http_request \<Rightarrow> response + http_request" where
  "adminLoopbackGuard isLoopback r =
     (if isLoopback (hr_RemoteAddr r) then Inr r
      else Inl (http_Error ''admin endpoint loopback-only'' 403 fresh_response))"

definition ConstantTimeCompare :: "string \<Rightarrow> string \<Rightarrow> int" where
  "ConstantTimeCompare x y = (if length x \<noteq> length y then 0 else if x = y then 1 else 0)"

definition accepts :: "string list \<Rightarrow> string \<Rightarrow> bool" where
  "accepts allowedKeys presented \<longleftrightarrow>
     foldl (\<lambda>matched k. Bit_Operations.or matched (ConstantTimeCompare presented k)) 0 allowedKeys = 1"

definition authMiddleware :: "(string \<Rightarrow> nat list option) \<Rightarrow> string list \<Rightarrow> http_request \<Rightarrow>
    response + http_request" where
  "authMiddleware parse_ip allowedKeys r =
     (let presented = hdr_Get (hr_Header r) ''X-Api-Key''
      in if \<not> IsLoopbackRemoteAddr parse_ip (hr_RemoteAddr r) \<and>
            (presented = [] \<or> \<not> accepts allowedKeys presented)
         then Inl (http_Error ''auth required'' 401 fresh_response)
         else
           (let clone = r\<lparr>hr_Header := hdr_Del ''X-Api-Key'' (hr_Header r)\<rparr>
            in Inr (if presented \<noteq> [] then ContextWithPresentedApiKey presented clone else clone)))"

definition NewAuthMiddleware :: "(string \<Rightarrow> nat list option) \<Rightarrow> string list \<Rightarrow> http_request \<Rightarrow>
    response + http_request" where
  "NewAuthMiddleware parse_ip allowedKeys =
     (if allowedKeys = [] then Inr else authMiddleware parse_ip allowedKeys)"

definition sessionMiddleware :: "http_request \<Rightarrow> response + http_request" where
  "sessionMiddleware r =
     (let s = hdr_Get (hr_Header r) ''X-Session-Id'';
          sessionID = (if s = [] then hdr_Get (hr_Header r) ''X-Claude-Code-Session-Id'' else s);
          clone = r\<lparr>hr_Header := hdr_Del ''X-Session-Id'' (hr_Header r)\<rparr>
      in Inr (if sessionID \<noteq> [] then ContextWithSessionID sessionID clone else clone))"

definition and_then :: "('r \<Rightarrow> response + 'r) \<Rightarrow> ('r \<Rightarrow> response + 'r) \<Rightarrow> 'r \<Rightarrow> response + 'r" where
  "and_then f g r = (case f r of Inl w \<Rightarrow> Inl w | Inr r' \<Rightarrow> g r')"

section \<open>Outbound\<close>

definition authSwap_RoundTrip :: "string \<Rightarrow> header \<Rightarrow> header" where
  "authSwap_RoundTrip token h =
     (if token = [] then h else hdr_Set ''Authorization'' (''Bearer '' @ token) h)"

definition isCredentialHeader :: "string \<Rightarrow> bool" where
  "isCredentialHeader name =
     (let lower = to_lower name
      in lower \<in> {''authorization'', ''cookie'', ''set-cookie''} \<or>
         list_ex (str_contains lower) [''api-key'', ''auth-token'', ''secret'', ''password'', ''bearer''])"

text \<open>\<open>strings.Join\<close>.\<close>

fun str_join :: "string \<Rightarrow> string list \<Rightarrow> string" where
  "str_join sep [] = []"
| "str_join sep [s] = s"
| "str_join sep (s # t # ts) = s @ sep @ str_join sep (t # ts)"

definition RedactHeadersForLog :: "header \<Rightarrow> (string \<times> string) list" where
  "RedactHeadersForLog h =
     map (\<lambda>(name, vals).
       (let joined = str_join '', '' vals
        in (name, if isCredentialHeader name then ''<redacted len='' @ itoa (int (length joined)) @ ''>''
                  else joined))) h"

section \<open>The log level endpoint\<close>

datatype loglevel_answer = LevelBad | LevelNegative int | LevelSet int | LevelFailed

text \<open>\<open>set_ok\<close> is whether the level setter of \<open>bborbe/log\<close> succeeds.\<close>

definition setloglevel :: "bool \<Rightarrow> string \<Rightarrow> loglevel_answer" where
  "setloglevel set_ok path =
     (let levelStr = (if has_prefix path ''/setloglevel/'' then drop (length ''/setloglevel/'') path else path)
      in case atoi levelStr of
           None \<Rightarrow> LevelBad
         | Some level \<Rightarrow>
             if \<not> (- (2 ^ 31) \<le> level \<and> level < 2 ^ 31) then LevelBad
             else if level < 0 then LevelNegative level
             else if set_ok then LevelSet level else LevelFailed)"

section \<open>Filters\<close>

locale header_filter =
  fixes filt :: "http_request \<Rightarrow> response + http_request"
    and hidden :: "string set"
  assumes hides: "filt r = Inr r' \<Longrightarrow> k \<in> hidden \<Longrightarrow> hdr_values (hr_Header r') k = []"
    and keeps: "filt r = Inr r' \<Longrightarrow> k \<notin> hidden \<Longrightarrow> hdr_values (hr_Header r') k = hdr_values (hr_Header r) k"
    and addr: "filt r = Inr r' \<Longrightarrow> hr_RemoteAddr r' = hr_RemoteAddr r"
begin

lemma get_hidden: "filt r = Inr r' \<Longrightarrow> k \<in> hidden \<Longrightarrow> hdr_Get (hr_Header r') k = []"
  using hides by (simp add: hdr_Get_def)

lemma get_kept: "filt r = Inr r' \<Longrightarrow> k \<notin> hidden \<Longrightarrow> hdr_Get (hr_Header r') k = hdr_Get (hr_Header r) k"
  using keeps by (simp add: hdr_Get_def)

end

locale two_filters = outer: header_filter f A + inner: header_filter g B
  for f :: "http_request \<Rightarrow> response + http_request" and A :: "string set"
    and g :: "http_request \<Rightarrow> response + http_request" and B :: "string set"

sublocale two_filters \<subseteq> chain: header_filter "and_then f g" "A \<union> B"
proof unfold_locales
  fix r r' k assume "and_then f g r = Inr r'"
  then obtain m where m: "f r = Inr m" "g m = Inr r'" by (auto simp: and_then_def split: sum.splits)
  show "hdr_values (hr_Header r') k = []" if "k \<in> A \<union> B"
    using that m outer.hides inner.hides inner.keeps by (cases "k \<in> B") auto
  show "hdr_values (hr_Header r') k = hdr_values (hr_Header r) k" if "k \<notin> A \<union> B"
    using that m outer.keeps inner.keeps by simp
  show "hr_RemoteAddr r' = hr_RemoteAddr r" using m outer.addr inner.addr by simp
qed

lemma hdr_values_Del: "hdr_values (hdr_Del k h) k' = (if k' = k then [] else hdr_values h k')"
  by (induction h) (auto simp: hdr_values_def hdr_Del_def)

lemma context_same [simp]:
  "hr_Header (ContextWithPresentedApiKey p r) = hr_Header r" "hr_Header (ContextWithSessionID p r) = hr_Header r"
  "hr_RemoteAddr (ContextWithPresentedApiKey p r) = hr_RemoteAddr r"
  "hr_RemoteAddr (ContextWithSessionID p r) = hr_RemoteAddr r"
  by (simp_all add: ContextWithPresentedApiKey_def ContextWithSessionID_def)

interpretation auth: header_filter "authMiddleware parse_ip allowedKeys" "{''X-Api-Key''}" for parse_ip allowedKeys
  by unfold_locales (auto simp: authMiddleware_def Let_def hdr_values_Del split: if_splits)

interpretation session: header_filter sessionMiddleware "{''X-Session-Id''}"
  by unfold_locales (auto simp: sessionMiddleware_def Let_def hdr_values_Del split: if_splits)

interpretation v1: two_filters "authMiddleware parse_ip allowedKeys" "{''X-Api-Key''}" sessionMiddleware "{''X-Session-Id''}"
  for parse_ip allowedKeys
  by unfold_locales

section \<open>Keys\<close>

lemma ctc: "ConstantTimeCompare x y = of_bool (x = y)"
  by (auto simp: ConstantTimeCompare_def)

lemma or_fold:
  "foldl (\<lambda>m k. Bit_Operations.or m (of_bool (P k) :: int)) (of_bool b) ks = of_bool (b \<or> (\<exists>k \<in> set ks. P k))"
proof (induction ks arbitrary: b)
  case (Cons k ks)
  have "Bit_Operations.or (of_bool b) (of_bool (P k) :: int) = of_bool (b \<or> P k)"
    by (cases b; cases "P k") simp_all
  then show ?case using Cons.IH [of "b \<or> P k"] by simp
qed simp

lemma accepts_iff: "accepts allowedKeys presented \<longleftrightarrow> presented \<in> set allowedKeys"
  using or_fold [of "\<lambda>k. presented = k" False allowedKeys] by (auto simp: accepts_def ctc)

lemma hdr_Get_ne: "hdr_Get h k \<noteq> [] \<Longrightarrow> hdr_values h k \<noteq> []"
  by (auto simp: hdr_Get_def)

section \<open>Properties\<close>

text \<open>
  The auth middleware lets a request through exactly when it comes from a loopback address
  or presents a key of the registry; a key is accepted exactly when it is in the registry,
  in whatever order the keys are compared. Everything else is answered 401. What is let
  through no longer has the header, and the router finds the presented key, checked or from
  loopback, in the context.
\<close>

theorem auth_admits_exactly:
  assumes "hr_presentedKey r = None"
  shows "case authMiddleware parse_ip allowedKeys r of
      Inr r' \<Rightarrow>
        (IsLoopbackRemoteAddr parse_ip (hr_RemoteAddr r) \<or>
           hdr_Get (hr_Header r) ''X-Api-Key'' \<noteq> [] \<and> hdr_Get (hr_Header r) ''X-Api-Key'' \<in> set allowedKeys) \<and>
        hdr_Get (hr_Header r') ''X-Api-Key'' = [] \<and>
        PresentedApiKeyFromContext r' = hdr_Get (hr_Header r) ''X-Api-Key''
    | Inl w \<Rightarrow>
        \<not> IsLoopbackRemoteAddr parse_ip (hr_RemoteAddr r) \<and>
        (hdr_Get (hr_Header r) ''X-Api-Key'' = [] \<or> hdr_Get (hr_Header r) ''X-Api-Key'' \<notin> set allowedKeys) \<and>
        rs_status w = Some 401"
proof (cases "authMiddleware parse_ip allowedKeys r")
  case (Inl w)
  then show ?thesis
    by (auto simp: authMiddleware_def Let_def accepts_iff http_Error_status fresh_response_def split: if_splits)
next
  case (Inr r')
  then show ?thesis
    using auth.get_hidden [OF Inr] assms
    by (auto simp: authMiddleware_def Let_def accepts_iff PresentedApiKeyFromContext_def
        ContextWithPresentedApiKey_def split: if_splits)
qed

definition ex_request :: http_request where
  "ex_request = \<lparr>hr_RemoteAddr = ''1.2.3.4:5'', hr_Header = [(''X-Api-Key'', [''k'']), (''X-Session-Id'', [''s'']),
     (''Accept'', [''a''])], hr_sessionID = None, hr_presentedKey = None\<rparr>"

theorem auth_admits_exactly_witness:
  "(\<exists>r'. authMiddleware (\<lambda>_. None) [''k''] ex_request = Inr r' \<and> PresentedApiKeyFromContext r' = ''k'') \<and>
   (\<exists>w. authMiddleware (\<lambda>_. None) [''x''] ex_request = Inl w \<and> rs_status w = Some 401)"
proof -
  have n: "hr_presentedKey ex_request = None" and
    k: "hdr_Get (hr_Header ex_request) ''X-Api-Key'' = ''k''"
    by (simp_all add: ex_request_def hdr_Get_def hdr_values_def)
  have "\<not> IsLoopbackRemoteAddr (\<lambda>_. None) (hr_RemoteAddr ex_request)"
    by (simp add: IsLoopbackRemoteAddr_def split: option.splits)
  with auth_admits_exactly [OF n, of "\<lambda>_. None" "[''k'']"] auth_admits_exactly [OF n, of "\<lambda>_. None" "[''x'']"]
  show ?thesis by (auto simp: k split: sum.splits)
qed

text \<open>
  Behind both middlewares the router, and with it every upstream, sees neither the caller's
  API key nor the \<open>X-Session-Id\<close> header, and all other headers as they were sent; the session id
  it pins on is that header, or Claude Code's own session header when it is empty.
\<close>

theorem router_sees_no_credentials:
  assumes "and_then (authMiddleware parse_ip allowedKeys) sessionMiddleware r = Inr r'" "hr_sessionID r = None"
  shows "hdr_values (hr_Header r') ''X-Api-Key'' = [] \<and> hdr_values (hr_Header r') ''X-Session-Id'' = [] \<and>
    (\<forall>k. k \<noteq> ''X-Api-Key'' \<and> k \<noteq> ''X-Session-Id'' \<longrightarrow>
       hdr_values (hr_Header r') k = hdr_values (hr_Header r) k) \<and>
    SessionIDFromContext r' =
      (if hdr_Get (hr_Header r) ''X-Session-Id'' = [] then hdr_Get (hr_Header r) ''X-Claude-Code-Session-Id''
       else hdr_Get (hr_Header r) ''X-Session-Id'')"
proof -
  obtain m where m: "authMiddleware parse_ip allowedKeys r = Inr m" "sessionMiddleware m = Inr r'"
    using assms(1) by (auto simp: and_then_def split: sum.splits)
  have g: "hdr_Get (hr_Header m) ''X-Session-Id'' = hdr_Get (hr_Header r) ''X-Session-Id''"
    "hdr_Get (hr_Header m) ''X-Claude-Code-Session-Id'' = hdr_Get (hr_Header r) ''X-Claude-Code-Session-Id''"
    using auth.get_kept [OF m(1)] by simp_all
  have "hr_sessionID m = None"
    using m(1) assms(2) by (auto simp: authMiddleware_def Let_def ContextWithPresentedApiKey_def split: if_splits)
  then have s: "SessionIDFromContext r' =
      (if hdr_Get (hr_Header r) ''X-Session-Id'' = [] then hdr_Get (hr_Header r) ''X-Claude-Code-Session-Id''
       else hdr_Get (hr_Header r) ''X-Session-Id'')"
    using m(2) by (auto simp: sessionMiddleware_def Let_def SessionIDFromContext_def ContextWithSessionID_def g
        split: if_splits)
  show ?thesis
    using v1.chain.hides [OF assms(1), of "''X-Api-Key''"] v1.chain.hides [OF assms(1), of "''X-Session-Id''"]
      v1.chain.keeps [OF assms(1)] s by simp
qed

theorem router_sees_no_credentials_witness:
  "\<exists>r'. and_then (authMiddleware (\<lambda>_. None) [''k'']) sessionMiddleware ex_request = Inr r' \<and>
     hdr_values (hr_Header r') ''X-Api-Key'' = [] \<and> SessionIDFromContext r' = ''s''"
proof -
  obtain r' where r': "and_then (authMiddleware (\<lambda>_. None) [''k'']) sessionMiddleware ex_request = Inr r'"
    by (simp add: and_then_def authMiddleware_def sessionMiddleware_def Let_def accepts_iff ex_request_def
        hdr_Get_def hdr_values_def)
  have "hr_sessionID ex_request = None" by (simp add: ex_request_def)
  from router_sees_no_credentials [OF r' this] r' show ?thesis
    by (auto simp: ex_request_def hdr_Get_def hdr_values_def)
qed

text \<open>
  Log lines do not depend on credentials: two requests whose headers agree except for the
  values of credential headers of the same total length are logged alike.
\<close>

theorem logged_headers_hide_credentials:
  assumes "list_all2 (\<lambda>(n, vs) (n', vs'). n' = n \<and>
      (if isCredentialHeader n then length (str_join '', '' vs') = length (str_join '', '' vs) else vs' = vs)) h h'"
  shows "RedactHeadersForLog h' = RedactHeadersForLog h"
  using assms
  by (induction h h' rule: list_all2_induct) (auto simp: RedactHeadersForLog_def Let_def split: if_splits)

theorem logged_headers_hide_credentials_witness:
  "RedactHeadersForLog [(''X-Api-Key'', [''abc''])] = RedactHeadersForLog [(''X-Api-Key'', [''xyz''])]"
proof (rule logged_headers_hide_credentials)
  have "isCredentialHeader ''X-Api-Key''" by code_simp
  then show "list_all2 (\<lambda>(n, vs) (n', vs'). n' = n \<and>
      (if isCredentialHeader n then length (str_join '', '' vs') = length (str_join '', '' vs) else vs' = vs))
    [(''X-Api-Key'', [''xyz''])] [(''X-Api-Key'', [''abc''])]" by simp
qed

end
