(* ===== verification/Trace.thy ===== *)
theory Trace
  imports Router Access
begin

text \<open>
  Tracing (\<open>trace_state.go\<close>, \<open>trace.go\<close>) and the sampling of bodies for the log
  (\<open>body-sample.go\<close>, the body part of \<open>redact.go\<close>). The trace flag with its timers is a state
  machine: a timer that fires starts a goroutine that has to take the mutex, so between
  firing and expiry other calls may run. The files the middleware writes are the records
  below; writing them is best effort and has no effect on the request.
\<close>

section \<open>The trace flag\<close>

definition TraceTTLDefault :: duration where "TraceTTLDefault = 5 * minute_ns"

datatype timer_phase = Armed | Stopped | Pending | Expired

record trace_state =
  ts_enabled :: bool
  ts_timer :: "nat option"
  ts_ttl :: duration
  ts_timers :: "(time \<times> timer_phase) list"

definition NewTraceStateWithTTL :: "duration \<Rightarrow> trace_state" where
  "NewTraceStateWithTTL ttl = \<lparr>ts_enabled = False, ts_timer = None, ts_ttl = ttl, ts_timers = []\<rparr>"

definition NewTraceState :: trace_state where
  "NewTraceState = NewTraceStateWithTTL TraceTTLDefault"

text \<open>\<open>Timer.Stop\<close> only prevents a timer that has not fired from firing.\<close>

definition stop_timer :: "nat \<Rightarrow> trace_state \<Rightarrow> trace_state" where
  "stop_timer k s =
     (if snd (ts_timers s ! k) = Armed
      then s\<lparr>ts_timers := (ts_timers s)[k := (fst (ts_timers s ! k), Stopped)]\<rparr> else s)"

definition ts_Enable :: "time \<Rightarrow> trace_state \<Rightarrow> trace_state" where
  "ts_Enable now s =
     (let s1 = (case ts_timer s of None \<Rightarrow> s | Some k \<Rightarrow> stop_timer k s)
      in s1\<lparr>ts_enabled := True, ts_timer := Some (length (ts_timers s1)),
            ts_timers := ts_timers s1 @ [(now + ts_ttl s1, Armed)]\<rparr>)"

definition ts_Disable :: "trace_state \<Rightarrow> trace_state" where
  "ts_Disable s =
     (let s1 = (case ts_timer s of None \<Rightarrow> s | Some k \<Rightarrow> (stop_timer k s)\<lparr>ts_timer := None\<rparr>)
      in s1\<lparr>ts_enabled := False\<rparr>)"

definition ts_IsEnabled :: "trace_state \<Rightarrow> bool" where
  "ts_IsEnabled s = ts_enabled s"

definition ts_disableForExpiry :: "nat \<Rightarrow> trace_state \<Rightarrow> trace_state" where
  "ts_disableForExpiry k s =
     ts_Disable (s\<lparr>ts_timers := (ts_timers s)[k := (fst (ts_timers s ! k), Expired)]\<rparr>)"

datatype ts_event = TsEnable time | TsDisable | TsFire nat time | TsExpire nat

definition ts_step :: "trace_state \<Rightarrow> ts_event \<Rightarrow> trace_state option" where
  "ts_step s e =
     (case e of
        TsEnable now \<Rightarrow> Some (ts_Enable now s)
      | TsDisable \<Rightarrow> Some (ts_Disable s)
      | TsFire k now \<Rightarrow>
          if k < length (ts_timers s) \<and> snd (ts_timers s ! k) = Armed \<and> fst (ts_timers s ! k) \<le> now
          then Some (s\<lparr>ts_timers := (ts_timers s)[k := (fst (ts_timers s ! k), Pending)]\<rparr>) else None
      | TsExpire k \<Rightarrow>
          if k < length (ts_timers s) \<and> snd (ts_timers s ! k) = Pending
          then Some (ts_disableForExpiry k s) else None)"

section \<open>The trace middleware\<close>

definition trace_on :: "trace_state \<Rightarrow> bool \<Rightarrow> bool" where
  "trace_on s configAlwaysOn \<longleftrightarrow> ts_IsEnabled s \<or> configAlwaysOn"

text \<open>
  With tracing on the body is read here, without a limit and with the error dropped; the
  router then reads the bytes that arrived.
\<close>

definition trace_body :: "bool \<Rightarrow> router_request \<Rightarrow> router_request" where
  "trace_body on rq = (if on then rq\<lparr>rq_broken := False\<rparr> else rq)"

definition trace_headers :: "header \<Rightarrow> (string \<times> string) list" where
  "trace_headers h =
     map (\<lambda>(name, vals).
       (name, if to_lower name = ''authorization'' \<or> to_lower name = ''x-api-key'' then ''***''
              else str_join '', '' vals)) h"

record trace_response =
  tr_writer :: response
  tr_status :: int
  tr_wroteHeader :: bool
  tr_headers :: "(string \<times> string) list option"
  tr_body :: bytes

definition new_trace_response :: "response \<Rightarrow> trace_response" where
  "new_trace_response w =
     \<lparr>tr_writer = w, tr_status = 0, tr_wroteHeader = False, tr_headers = None, tr_body = []\<rparr>"

definition tr_WriteHeader :: "int \<Rightarrow> trace_response \<Rightarrow> trace_response" where
  "tr_WriteHeader code t =
     (if \<not> tr_wroteHeader t
      then t\<lparr>tr_status := code, tr_wroteHeader := True, tr_headers := Some (rs_headers (tr_writer t)),
             tr_writer := write_header code (tr_writer t)\<rparr>
      else t)"

definition tr_Write :: "bytes \<Rightarrow> trace_response \<Rightarrow> trace_response" where
  "tr_Write b t =
     (let t1 = (if \<not> tr_wroteHeader t then tr_WriteHeader 200 t else t)
      in t1\<lparr>tr_body := tr_body t1 @ b, tr_writer := write_body b (tr_writer t1)\<rparr>)"

definition tr_call :: "trace_response \<Rightarrow> write_call \<Rightarrow> trace_response" where
  "tr_call t c =
     (case c of
        CallSetHeader k v \<Rightarrow> t\<lparr>tr_writer := header_set k v (tr_writer t)\<rparr>
      | CallWriteHeader code \<Rightarrow> tr_WriteHeader code t
      | CallWrite b \<Rightarrow> tr_Write b t)"

lemma tr_call_simps:
  "tr_call t (CallSetHeader k v) = t\<lparr>tr_writer := header_set k v (tr_writer t)\<rparr>"
  "tr_call t (CallWriteHeader code) = tr_WriteHeader code t"
  "tr_call t (CallWrite b) = tr_Write b t"
  by (simp_all add: tr_call_def)

definition call_bytes :: "write_call \<Rightarrow> bytes" where
  "call_bytes c = (case c of CallWrite b \<Rightarrow> b | _ \<Rightarrow> [])"

record trace_record =
  trc_method :: string
  trc_path :: string
  trc_headers :: "(string \<times> string) list"
  trc_body :: bytes
  trc_status :: int
  trc_respHeaders :: "(string \<times> string) list"
  trc_respBody :: bytes

definition trace_ServeHTTP :: "string \<Rightarrow> string \<Rightarrow> header \<Rightarrow> bytes \<Rightarrow> response \<Rightarrow> write_call list \<Rightarrow>
    response \<times> trace_record" where
  "trace_ServeHTTP method path h body w calls =
     (let rec = foldl tr_call (new_trace_response w) calls
      in (tr_writer rec,
          \<lparr>trc_method = method, trc_path = path, trc_headers = trace_headers h, trc_body = body,
           trc_status = (if tr_status rec = 0 then 200 else tr_status rec),
           trc_respHeaders = (case tr_headers rec of None \<Rightarrow> [] | Some hs \<Rightarrow> hs),
           trc_respBody = tr_body rec\<rparr>))"

section \<open>Body samples\<close>

definition BodySampleMaxBytes :: nat where "BodySampleMaxBytes = 4096"

definition readSnippet :: "bytes option \<Rightarrow> nat \<Rightarrow> (bytes \<times> nat) \<times> bytes option" where
  "readSnippet body mx =
     (case body of None \<Rightarrow> (([], 0), None) | Some b \<Rightarrow> ((take mx b, length b), Some b))"

record tee_body =
  tee_max :: nat
  tee_buf :: bytes
  tee_total :: nat
  tee_closed :: bool

definition newTeeBody :: "nat \<Rightarrow> tee_body" where
  "newTeeBody mx = \<lparr>tee_max = mx, tee_buf = [], tee_total = 0, tee_closed = False\<rparr>"

text \<open>A read that returns \<open>p\<close>; closing reports the sample the first time only.\<close>

definition tee_Read :: "bytes \<Rightarrow> tee_body \<Rightarrow> tee_body" where
  "tee_Read p t =
     (let remaining = tee_max t - length (tee_buf t)
      in t\<lparr>tee_total := tee_total t + length p,
           tee_buf := (if 0 < remaining \<and> p \<noteq> [] then tee_buf t @ take remaining p else tee_buf t)\<rparr>)"

definition tee_Close :: "tee_body \<Rightarrow> tee_body \<times> (bytes \<times> nat) option" where
  "tee_Close t = (t\<lparr>tee_closed := True\<rparr>, if tee_closed t then None else Some (tee_buf t, tee_total t))"

section \<open>Bearer tokens in bodies\<close>

definition re_space :: "char \<Rightarrow> bool" where
  "re_space c \<longleftrightarrow> c \<in> {CHR 0x09, CHR 0x0A, CHR 0x0C, CHR 0x0D, CHR 0x20}"

definition token_char :: "char \<Rightarrow> bool" where
  "token_char c \<longleftrightarrow> \<not> re_space c \<and> c \<notin> {CHR 0x2C, CHR 0x3B, CHR 0x22, CHR 0x27, CHR 0x7D, CHR 0x5D}"

text \<open>The length of the match of \<open>bearerRE\<close> at the start of the text.\<close>

definition bearer_match :: "bytes \<Rightarrow> nat option" where
  "bearer_match b =
     (let ws = takeWhile re_space (drop 6 b); tok = takeWhile token_char (drop (6 + length ws) b)
      in if to_lower (take 6 b) = ''bearer'' \<and> ws \<noteq> [] \<and> tok \<noteq> []
         then Some (6 + length ws + length tok) else None)"

function RedactBearerTokensInBody :: "bytes \<Rightarrow> bytes" where
  "RedactBearerTokensInBody [] = []"
| "RedactBearerTokensInBody (c # b) =
     (case bearer_match (c # b) of
        Some n \<Rightarrow> ''Bearer <redacted>'' @ RedactBearerTokensInBody (drop n (c # b))
      | None \<Rightarrow> c # RedactBearerTokensInBody b)"
  by pat_completeness auto
termination
  by (relation "measure length") (auto simp: bearer_match_def Let_def split: if_splits)

section \<open>One live timer\<close>

definition armed :: "trace_state \<Rightarrow> nat \<Rightarrow> bool" where
  "armed s k \<longleftrightarrow> k < length (ts_timers s) \<and> snd (ts_timers s ! k) = Armed"

definition pending :: "trace_state \<Rightarrow> nat \<Rightarrow> bool" where
  "pending s k \<longleftrightarrow> k < length (ts_timers s) \<and> snd (ts_timers s ! k) = Pending"

definition ts_inv :: "trace_state \<Rightarrow> bool" where
  "ts_inv s \<longleftrightarrow> (\<forall>k. armed s k \<longrightarrow> ts_timer s = Some k) \<and>
     (ts_enabled s \<longleftrightarrow> ts_timer s \<noteq> None) \<and>
     (\<forall>k. ts_timer s = Some k \<longrightarrow> armed s k \<or> pending s k)"

lemma armed_stop: "armed (stop_timer k s) j \<longleftrightarrow> armed s j \<and> j \<noteq> k"
  by (cases "j = k") (auto simp: armed_def stop_timer_def)

lemma stop_timer_same [simp]:
  "ts_timer (stop_timer k s) = ts_timer s" "length (ts_timers (stop_timer k s)) = length (ts_timers s)"
  "ts_ttl (stop_timer k s) = ts_ttl s" "pending (stop_timer k s) j = pending s j"
  "ts_enabled (stop_timer k s) = ts_enabled s"
  by (simp_all add: stop_timer_def) (cases "j = k"; auto simp: pending_def)

lemma ts_Disable_armed:
  "ts_inv s \<Longrightarrow> \<not> armed (ts_Disable s) j"
proof (cases "ts_timer s")
  case None
  assume "ts_inv s"
  then show ?thesis using None by (auto simp: ts_inv_def ts_Disable_def armed_def Let_def)
next
  case (Some k)
  assume "ts_inv s"
  then show ?thesis
    using Some armed_stop [of k s j] by (auto simp: ts_inv_def ts_Disable_def armed_def Let_def)
qed

lemma ts_Disable_off [simp]: "\<not> ts_enabled (ts_Disable s)" "ts_timer (ts_Disable s) = None"
  by (simp_all add: ts_Disable_def Let_def split: option.splits)

lemma ts_inv_Disable: "ts_inv s \<Longrightarrow> ts_inv (ts_Disable s)"
  using ts_Disable_armed [of s] by (simp add: ts_inv_def)

text \<open>What \<open>Enable\<close> does first: the timer it holds is stopped.\<close>

definition ts_stopped :: "trace_state \<Rightarrow> trace_state" where
  "ts_stopped s = (case ts_timer s of None \<Rightarrow> s | Some k \<Rightarrow> stop_timer k s)"

lemma ts_stopped_armed: "ts_inv s \<Longrightarrow> \<not> armed (ts_stopped s) j"
  by (cases "ts_timer s") (auto simp: ts_stopped_def ts_inv_def armed_stop)

lemma ts_stopped_same: "pending (ts_stopped s) j = pending s j" "ts_ttl (ts_stopped s) = ts_ttl s"
  by (simp_all add: ts_stopped_def split: option.splits)

lemma ts_Enable_stopped:
  "ts_Enable now s = (ts_stopped s)\<lparr>ts_enabled := True, ts_timer := Some (length (ts_timers (ts_stopped s))),
     ts_timers := ts_timers (ts_stopped s) @ [(now + ts_ttl s, Armed)]\<rparr>"
  by (simp add: ts_Enable_def ts_stopped_def Let_def split: option.splits)

lemma ts_inv_Enable:
  assumes "ts_inv s"
  shows "ts_inv (ts_Enable now s)"
proof -
  define s1 where "s1 = ts_stopped s"
  have no: "\<not> armed s1 j" for j using ts_stopped_armed [OF assms] by (simp add: s1_def)
  note e = ts_Enable_stopped [of now s, folded s1_def]
  have "armed (ts_Enable now s) j \<longleftrightarrow> j = length (ts_timers s1)" for j
    using no [of j] by (auto simp: e armed_def nth_append less_Suc_eq)
  then show ?thesis by (simp add: ts_inv_def e)
qed

lemma ts_inv_step: "ts_inv s \<Longrightarrow> ts_step s e = Some s' \<Longrightarrow> ts_inv s'"
proof -
  assume inv: "ts_inv s" and st: "ts_step s e = Some s'"
  show "ts_inv s'"
  proof (cases e)
    case (TsFire k now)
    then have s': "s' = s\<lparr>ts_timers := (ts_timers s)[k := (fst (ts_timers s ! k), Pending)]\<rparr>"
      and k: "k < length (ts_timers s)"
      using st by (auto simp: ts_step_def split: if_splits)
    have "armed s' j \<longleftrightarrow> armed s j \<and> j \<noteq> k" "pending s' j \<longleftrightarrow> pending s j \<or> j = k" for j
      using k by (auto simp: s' armed_def pending_def nth_list_update)
    then show ?thesis using inv by (auto simp: ts_inv_def s')
  next
    case (TsExpire k)
    let ?t = "s\<lparr>ts_timers := (ts_timers s)[k := (fst (ts_timers s ! k), Expired)]\<rparr>"
    have p: "pending s k" and s': "s' = ts_Disable ?t"
      using st TsExpire by (auto simp: ts_step_def pending_def ts_disableForExpiry_def split: if_splits)
    have t: "armed ?t j \<longleftrightarrow> armed s j" "ts_timer ?t = ts_timer s" for j
      using p by (auto simp: armed_def pending_def nth_list_update)
    have "\<not> armed s' j" for j
    proof (cases "ts_timer s")
      case None
      then show ?thesis using inv t(1) by (auto simp: s' ts_inv_def ts_Disable_def Let_def armed_def)
    next
      case (Some i)
      then show ?thesis
        using inv t(1) [of j] armed_stop [of i ?t j] by (auto simp: s' ts_inv_def ts_Disable_def Let_def armed_def)
    qed
    then show ?thesis by (simp add: ts_inv_def s')
  qed (use inv st in \<open>auto simp: ts_step_def ts_inv_Enable ts_inv_Disable\<close>)
qed

interpretation trace_flag: step_invariant "\<lambda>s. s = NewTraceStateWithTTL ttl" ts_step ts_inv for ttl
proof unfold_locales
  show "ts_inv s" if "s = NewTraceStateWithTTL ttl" for s
    using that by (simp add: ts_inv_def NewTraceStateWithTTL_def armed_def)
qed (rule ts_inv_step)

section \<open>The trace response\<close>

lemma tr_step:
  assumes "tr_wroteHeader t \<longleftrightarrow> rs_status (tr_writer t) \<noteq> None"
  shows "tr_writer (tr_call t c) = rw_call (tr_writer t) c"
    and "tr_wroteHeader (tr_call t c) \<longleftrightarrow> rs_status (tr_writer (tr_call t c)) \<noteq> None"
    and "tr_wroteHeader t \<Longrightarrow> tr_status (tr_call t c) = tr_status t"
  using assms
  by (cases c; auto simp: tr_call_def rw_call_def tr_WriteHeader_def tr_Write_def write_header_def header_set_def
        write_body_def Let_def)+

lemma tr_run_writer:
  "tr_wroteHeader t \<longleftrightarrow> rs_status (tr_writer t) \<noteq> None \<Longrightarrow>
   tr_writer (foldl tr_call t cs) = foldl rw_call (tr_writer t) cs"
proof (induction cs arbitrary: t)
  case (Cons c cs)
  then show ?case using tr_step [OF Cons.prems, of c] by simp
qed simp

lemma tr_call_body: "tr_body (tr_call t c) = tr_body t @ call_bytes c"
  by (cases c) (auto simp: call_bytes_def tr_call_def tr_WriteHeader_def tr_Write_def Let_def)

lemma tr_run_body:
  "tr_body (foldl tr_call t cs) =
     tr_body t @ concat (map call_bytes cs)"
  by (induction cs arbitrary: t) (auto simp: tr_call_body)

lemma tr_wrote: "tr_wroteHeader t \<Longrightarrow> tr_wroteHeader (tr_call t c) \<and> tr_status (tr_call t c) = tr_status t"
  by (cases c) (auto simp: tr_call_def tr_WriteHeader_def tr_Write_def Let_def)

lemma tr_run_wrote: "tr_wroteHeader t \<Longrightarrow> tr_status (foldl tr_call t cs) = tr_status t"
proof (induction cs arbitrary: t)
  case (Cons c cs)
  then show ?case using tr_wrote [OF Cons.prems, of c] by simp
qed simp

lemma tr_run_status_from:
  "\<not> tr_wroteHeader t \<Longrightarrow> tr_status t = 0 \<Longrightarrow> tr_status (foldl tr_call t cs) = first_status cs"
proof (induction cs arbitrary: t)
  case (Cons c cs)
  then show ?case
    using tr_run_wrote [of "tr_call t c" cs]
    by (cases c) (simp_all add: tr_call_simps tr_WriteHeader_def tr_Write_def Let_def)
qed simp

lemma tr_run_status: "tr_status (foldl tr_call (new_trace_response w) cs) = first_status cs"
  by (rule tr_run_status_from) (simp_all add: new_trace_response_def)

section \<open>Scanning for tokens\<close>

text \<open>A match begins with \<open>b\<close>, which none of its other five letters is.\<close>

lemma bearer_letters:
  assumes "to_lower (take 6 (a @ ''Bearer '' @ r)) = ''bearer''" "a \<noteq> []"
  shows "6 \<le> length a"
proof (rule ccontr)
  assume "\<not> 6 \<le> length a"
  then have n: "length a < 6" by simp
  have "lower_char (CHR ''B'') = CHR ''b''" by code_simp
  then have "to_lower (take 6 (a @ ''Bearer '' @ r)) ! length a = CHR ''b''"
    using n by (simp add: to_lower_def nth_append)
  moreover have "0 < length a" using assms(2) by simp
  moreover have "\<forall>i \<in> {1, 2, 3, 4, 5}. ''bearer'' ! i \<noteq> CHR ''b''" by simp
  moreover have "length a = 1 \<or> length a = 2 \<or> length a = 3 \<or> length a = 4 \<or> length a = 5"
    using n \<open>0 < length a\<close> by linarith
  then have "length a \<in> {1, 2, 3, 4, 5}" by blast
  ultimately show False using assms(1) by metis
qed

lemma bearer_match_prefix:
  assumes "bearer_match (a @ ''Bearer '' @ r) = Some n" "a \<noteq> []"
  shows "str_contains (to_lower a) ''bearer''"
proof -
  have l: "to_lower (take 6 (a @ ''Bearer '' @ r)) = ''bearer''"
    using assms(1) by (auto simp: bearer_match_def Let_def split: if_splits)
  from bearer_letters [OF this assms(2)] have "take 6 (a @ ''Bearer '' @ r) = take 6 a" by simp
  then have "to_lower a = [] @ ''bearer'' @ to_lower (drop 6 a)"
    using l by (metis append_Nil append_take_drop_id map_append to_lower_def)
  then show ?thesis unfolding str_contains_iff by blast
qed

lemma str_contains_Cons: "str_contains s pat \<Longrightarrow> str_contains (c # s) pat"
  by (simp add: str_contains_def)

lemma redact_prefix:
  "\<not> str_contains (to_lower pre) ''bearer'' \<Longrightarrow>
   RedactBearerTokensInBody (pre @ ''Bearer '' @ r) = pre @ RedactBearerTokensInBody (''Bearer '' @ r)"
proof (induction pre)
  case (Cons c pre)
  have "bearer_match ((c # pre) @ ''Bearer '' @ r) = None"
    using bearer_match_prefix [of "c # pre" r] Cons.prems by (cases "bearer_match ((c # pre) @ ''Bearer '' @ r)") auto
  moreover have "\<not> str_contains (to_lower pre) ''bearer''"
    using Cons.prems str_contains_Cons [of "to_lower pre"] by (auto simp: to_lower_def)
  ultimately show ?case using Cons.IH by simp
qed simp

lemma redact_token:
  assumes "tok \<noteq> []" "\<forall>c \<in> set tok. token_char c" "post = [] \<or> \<not> token_char (hd post)"
  shows "RedactBearerTokensInBody (''Bearer '' @ tok @ post) = ''Bearer <redacted>'' @ RedactBearerTokensInBody post"
proof -
  have t: "takeWhile token_char (tok @ post) = tok"
    using assms(2,3) by (cases post) (simp_all add: takeWhile_append2)
  have sp: "takeWhile re_space ('' '' @ tok @ post) = '' ''"
    using assms(1,2) by (cases tok) (auto simp: token_char_def re_space_def)
  have "to_lower ''Bearer'' = ''bearer''" by code_simp
  then have "bearer_match (''Bearer '' @ tok @ post) = Some (7 + length tok)"
    using t sp assms(1) by (simp add: bearer_match_def Let_def)
  moreover have "drop (length (''Bearer '' @ tok)) ((''Bearer '' @ tok) @ post) = post"
    by (rule append_eq_conv_conj [THEN iffD1, OF refl, THEN conjunct2, symmetric])
  then have "drop (7 + length tok) (''Bearer '' @ tok @ post) = post"
    by (simp add: numeral_eq_Suc)
  ultimately show ?thesis
    using RedactBearerTokensInBody.simps(2) [of "CHR ''B''" "''earer '' @ tok @ post"]
    by (simp del: drop_append RedactBearerTokensInBody.simps)
qed

lemma tee_reads:
  "tee_buf (foldl (\<lambda>t p. tee_Read p t) t ps) =
     tee_buf t @ take (tee_max t - length (tee_buf t)) (concat ps) \<and>
   tee_total (foldl (\<lambda>t p. tee_Read p t) t ps) = tee_total t + length (concat ps) \<and>
   tee_max (foldl (\<lambda>t p. tee_Read p t) t ps) = tee_max t \<and>
   tee_closed (foldl (\<lambda>t p. tee_Read p t) t ps) = tee_closed t"
proof (induction ps arbitrary: t)
  case (Cons p ps)
  have "tee_buf (tee_Read p t) = tee_buf t @ take (tee_max t - length (tee_buf t)) p"
    by (auto simp: tee_Read_def Let_def)
  moreover have "tee_total (tee_Read p t) = tee_total t + length p" "tee_max (tee_Read p t) = tee_max t"
    "tee_closed (tee_Read p t) = tee_closed t" by (simp_all add: tee_Read_def Let_def)
  ultimately show ?case
    using Cons.IH [of "tee_Read p t"] by (simp add: take_append min_def)
qed simp

section \<open>Properties\<close>

text \<open>
  C35. Whatever sequence of enabling, disabling, firing and expiring happens: at most one timer
  is armed and it is the one the state holds; tracing is on exactly while a timer is held,
  which is then armed or already fired, so tracing that was switched on is always on its way
  to being switched off: firing that timer and running its expiry turns it off.
\<close>

theorem tracing_always_expires:
  assumes "run_steps ts_step (NewTraceStateWithTTL ttl) es = Some s"
  shows "(\<forall>j k. armed s j \<and> armed s k \<longrightarrow> j = k) \<and>
    (ts_IsEnabled s \<longrightarrow> (\<exists>k. ts_timer s = Some k \<and>
       (\<exists>s'. run_steps ts_step s
          (if armed s k then [TsFire k (fst (ts_timers s ! k)), TsExpire k] else [TsExpire k]) = Some s' \<and>
          \<not> ts_IsEnabled s' \<and> (\<forall>j. \<not> armed s' j))))"
proof -
  have inv: "ts_inv s" using trace_flag.reachable_inv [OF refl assms] .
  have one: "j = k" if "armed s j" "armed s k" for j k
    using inv that unfolding ts_inv_def by (metis option.inject)
  moreover have "\<exists>k. ts_timer s = Some k \<and> (\<exists>s'. run_steps ts_step s
       (if armed s k then [TsFire k (fst (ts_timers s ! k)), TsExpire k] else [TsExpire k]) = Some s' \<and>
       \<not> ts_IsEnabled s' \<and> (\<forall>j. \<not> armed s' j))" if on: "ts_IsEnabled s"
  proof -
    obtain k where k: "ts_timer s = Some k" "armed s k \<or> pending s k"
      using inv on by (auto simp: ts_inv_def ts_IsEnabled_def)
    let ?es = "if armed s k then [TsFire k (fst (ts_timers s ! k)), TsExpire k] else [TsExpire k]"
    obtain s' where s': "run_steps ts_step s ?es = Some s'" and off: "ts_timer s' = None"
      using k(2) by (auto simp: ts_step_def armed_def pending_def ts_disableForExpiry_def)
    have "ts_inv s'" using trace_flag.run_inv [OF inv s'] .
    with off have "\<not> ts_IsEnabled s' \<and> (\<forall>j. \<not> armed s' j)" by (auto simp: ts_inv_def ts_IsEnabled_def)
    with k(1) s' show ?thesis by blast
  qed
  ultimately show ?thesis by blast
qed

theorem tracing_always_expires_witness:
  "\<exists>s. run_steps ts_step (NewTraceStateWithTTL 10) [TsEnable 0, TsEnable 3] = Some s \<and> ts_IsEnabled s \<and>
     (\<exists>k. ts_timer s = Some k)"
proof -
  obtain s where s: "run_steps ts_step (NewTraceStateWithTTL 10) [TsEnable 0, TsEnable 3] = Some s" "ts_IsEnabled s"
    by (simp add: ts_step_def ts_Enable_def NewTraceStateWithTTL_def stop_timer_def Let_def ts_IsEnabled_def)
  from tracing_always_expires [OF s(1)] s show ?thesis by blast
qed

text \<open>
  Once enabled, with no earlier timer still to expire, tracing stays on for the whole
  window unless it is disabled: it can only go off after a timer fired at or after the end
  of the window.
\<close>

theorem trace_window_is_full:
  assumes "ts_inv s" "\<forall>k. \<not> pending s k"
    and "run_steps ts_step (ts_Enable t s) es = Some s'"
    and "\<forall>e \<in> set es. (\<exists>k now. e = TsFire k now) \<or> (\<exists>k. e = TsExpire k)"
    and "\<not> ts_IsEnabled s'"
  shows "\<exists>k now. TsFire k now \<in> set es \<and> t + ts_ttl s \<le> now"
proof (cases es)
  case Nil
  then show ?thesis using assms(3,5) by (auto simp: ts_Enable_def Let_def ts_IsEnabled_def)
next
  case (Cons e es')
  define s1 where "s1 = ts_stopped s"
  have no: "\<not> armed s1 j" "\<not> pending s1 j" for j
    using ts_stopped_armed [OF assms(1)] assms(2) by (simp_all add: s1_def ts_stopped_same)
  note e = ts_Enable_stopped [of t s, folded s1_def]
  have q: "\<not> pending (ts_Enable t s) j"
    "armed (ts_Enable t s) j \<Longrightarrow> fst (ts_timers (ts_Enable t s) ! j) = t + ts_ttl s" for j
    using no [of j] by (auto simp: e armed_def pending_def nth_append less_Suc_eq)
  have "ts_step (ts_Enable t s) e \<noteq> None" using assms(3) by (auto simp: Cons split: option.splits)
  moreover have "(\<exists>k now. e = TsFire k now) \<or> (\<exists>k. e = TsExpire k)" using assms(4) by (simp add: Cons)
  ultimately obtain k now where k: "e = TsFire k now" "armed (ts_Enable t s) k"
      "fst (ts_timers (ts_Enable t s) ! k) \<le> now"
    using q(1) by (auto simp: ts_step_def armed_def pending_def split: if_splits)
  then have "t + ts_ttl s \<le> now" using q(2) [OF k(2)] by simp
  with k(1) show ?thesis by (auto simp: Cons)
qed

theorem trace_window_is_full_witness:
  "\<exists>k now. TsFire k now \<in> set [TsFire 0 9, TsExpire 0] \<and> 4 + (5 :: int) \<le> now"
proof -
  let ?s = "NewTraceStateWithTTL 5"
  have "ts_inv ?s" "\<forall>k. \<not> pending ?s k" "ts_ttl ?s = 5"
    using trace_flag.start_inv [of ?s 5] by (simp_all add: pending_def NewTraceStateWithTTL_def)
  moreover obtain s' where "run_steps ts_step (ts_Enable 4 ?s) [TsFire 0 9, TsExpire 0] = Some s'" "\<not> ts_IsEnabled s'"
    by (simp add: ts_step_def ts_Enable_def NewTraceStateWithTTL_def Let_def ts_disableForExpiry_def ts_IsEnabled_def)
  moreover have "\<forall>e \<in> set [TsFire 0 9, TsExpire 0]. (\<exists>k now. e = TsFire k now) \<or> (\<exists>k. e = TsExpire k)" by simp
  ultimately show ?thesis using trace_window_is_full [of ?s 4 "[TsFire 0 9, TsExpire 0]" s'] by metis
qed

text \<open>
  Enabling again just when the window ends can switch tracing off: the old timer has fired
  and its expiry waits for the mutex while \<open>Enable\<close> starts the new window; stopping the old
  timer no longer helps, and the expiry then cancels the new timer and clears the flag at
  the very start of the new window. The comment on \<open>Enable\<close> promises a fresh full window.
\<close>

theorem stale_expiry_cancels_new_window:
  assumes "0 < ttl"
  shows "\<exists>s. run_steps ts_step (NewTraceStateWithTTL ttl)
      [TsEnable 0, TsFire 0 ttl, TsEnable ttl, TsExpire 0] = Some s \<and>
    \<not> ts_IsEnabled s \<and> ts_timers s = [(ttl, Expired), (2 * ttl, Stopped)]"
  by (simp add: ts_step_def ts_Enable_def ts_Disable_def ts_disableForExpiry_def NewTraceStateWithTTL_def
      stop_timer_def Let_def ts_IsEnabled_def)

theorem stale_expiry_cancels_new_window_witness:
  "\<exists>s. run_steps ts_step (NewTraceStateWithTTL 300) [TsEnable 0, TsFire 0 300, TsEnable 300, TsExpire 0] = Some s \<and>
     \<not> ts_IsEnabled s"
  using stale_expiry_cancels_new_window [of 300] by auto


text \<open>
  Tracing does not change the answer, and the record shows it: the client receives what it
  would receive without the wrapper, the recorded status is that of the first header or
  200, the recorded body all bytes written, and the recorded request headers do not depend
  on the values of the authorization and API key headers.
\<close>

theorem trace_is_transparent:
  assumes "rs_status w = None"
    and "list_all2 (\<lambda>(n, vs) (n', vs'). n' = n \<and>
      (to_lower n = ''authorization'' \<or> to_lower n = ''x-api-key'' \<or> vs' = vs)) h h'"
  shows "fst (trace_ServeHTTP meth path h body w calls) = foldl rw_call w calls \<and>
    trc_status (snd (trace_ServeHTTP meth path h body w calls)) =
      (if first_status calls = 0 then 200 else first_status calls) \<and>
    trc_respBody (snd (trace_ServeHTTP meth path h body w calls)) =
      concat (map call_bytes calls) \<and>
    snd (trace_ServeHTTP meth path h' body w calls) = snd (trace_ServeHTTP meth path h body w calls)"
proof -
  have "tr_writer (foldl tr_call (new_trace_response w) calls) = foldl rw_call w calls"
    using tr_run_writer [of "new_trace_response w" calls] assms(1) by (simp add: new_trace_response_def)
  moreover have "trace_headers h' = trace_headers h"
    using assms(2) by (induction h h' rule: list_all2_induct) (auto simp: trace_headers_def)
  ultimately show ?thesis
    using tr_run_status [of w calls] tr_run_body [of "new_trace_response w" calls]
    by (simp add: trace_ServeHTTP_def Let_def) (simp add: new_trace_response_def)
qed

theorem trace_is_transparent_witness:
  "trc_status (snd (trace_ServeHTTP ''POST'' ''/v1/messages'' [(''X-Api-Key'', [''k''])] [] fresh_response
     [CallWrite ''hi'', CallWriteHeader 500])) = 200"
proof -
  have "rs_status fresh_response = None" by (simp add: fresh_response_def)
  moreover have "list_all2 (\<lambda>(n, vs) (n', vs'). n' = n \<and>
      (to_lower n = ''authorization'' \<or> to_lower n = ''x-api-key'' \<or> vs' = vs))
      [(''X-Api-Key'', [''k''])] [(''X-Api-Key'', [''k''])]" by simp
  ultimately show ?thesis
    using trace_is_transparent [of fresh_response "[(''X-Api-Key'', [''k''])]" "[(''X-Api-Key'', [''k''])]"
        "''POST''" "''/v1/messages''" "[]" "[CallWrite ''hi'', CallWriteHeader 500]"] by simp
qed

text \<open>
  Tracing hides broken uploads: the router answers 400 to a body whose connection broke,
  but with tracing on the same request is routed with the bytes that happened to arrive.
\<close>

theorem tracing_forwards_truncated_bodies:
  assumes "rq_broken rq" "length (fst (rq_wire rq)) \<le> MaxRequestBodyBytes"
  shows "router_read (trace_body False rq) = Inl (StopError 400 ''read body failed'') \<and>
    router_read (trace_body True rq) = Inr (rq_wire rq)"
  using assms by (simp add: router_read_def trace_body_def)

theorem tracing_forwards_truncated_bodies_witness:
  "router_read (trace_body True (ex_rq\<lparr>rq_broken := True\<rparr>)) = Inr (ex_body ''o'')"
  using tracing_forwards_truncated_bodies [of "ex_rq\<lparr>rq_broken := True\<rparr>"]
  by (simp add: ex_rq_def ex_body_def)

text \<open>
  The sample of a response body is its first 4 KiB and its full length, in whatever pieces
  it is read, and it is reported once however often the body is closed.
\<close>

theorem body_sample_is_prefix:
  "snd (tee_Close (foldl (\<lambda>t p. tee_Read p t) (newTeeBody BodySampleMaxBytes) ps)) =
      Some (take BodySampleMaxBytes (concat ps), length (concat ps)) \<and>
   snd (tee_Close (fst (tee_Close (foldl (\<lambda>t p. tee_Read p t) (newTeeBody BodySampleMaxBytes) ps)))) = None"
  using tee_reads [of "newTeeBody BodySampleMaxBytes" ps] by (simp add: tee_Close_def newTeeBody_def)


text \<open>
  A bearer token in a logged body is replaced whole, up to the first delimiter, when the
  text before it does not contain the keyword itself; the text before stays and the text
  after is redacted in turn, so the log does not depend on the token.
\<close>

theorem bearer_token_redacted:
  assumes "tok \<noteq> []" "\<forall>c \<in> set tok. token_char c" "post = [] \<or> \<not> token_char (hd post)"
    and "\<not> str_contains (to_lower pre) ''bearer''"
  shows "RedactBearerTokensInBody (pre @ ''Bearer '' @ tok @ post) =
    pre @ ''Bearer <redacted>'' @ RedactBearerTokensInBody post"
  using redact_prefix [OF assms(4), of "tok @ post"] redact_token [OF assms(1-3)] by simp

theorem bearer_token_redacted_witness:
  "RedactBearerTokensInBody (''a '' @ ''Bearer '' @ ''sk-1'' @ '' z'') =
     ''a '' @ ''Bearer <redacted>'' @ RedactBearerTokensInBody '' z''"
proof (rule bearer_token_redacted)
  show "\<not> str_contains (to_lower ''a '') ''bearer''" by code_simp
qed (simp_all add: token_char_def re_space_def)

text \<open>
  The keyword twice in a row leaks the token: the second keyword is taken for the token of
  the first. The comment promises that every token after the keyword is replaced.
\<close>

theorem repeated_keyword_leaks_token:
  "RedactBearerTokensInBody ''Bearer Bearer secret'' = ''Bearer <redacted> secret''"
  by code_simp

end
