(* ===== verification/Transport.thy ===== *)
theory Transport
  imports Trace
begin

text \<open>
  The way out (\<open>anthropic-proxy.go\<close>, \<open>logging-roundtripper.go\<close>, as \<open>buildUpstreamMembers\<close> nests
  them): the token swap outside, the logging round trip inside, the transport innermost. The
  transport is an argument: what it answers to headers and a body, an error or a status with
  the pieces its body is read in. The reverse proxy itself is \<open>bborbe/http\<close>'s; the
  repository's part of it is the answer to an upstream error.
\<close>

section \<open>The code\<close>

definition proxy_error :: "response \<Rightarrow> response" where
  "proxy_error w = write_body ''upstream unavailable'' (write_header 502 w)"

text \<open>A request body: the bytes that arrive and whether the connection breaks after them.\<close>

type_synonym out_body = "(bytes \<times> bool) option"

datatype log_line =
    UpstreamStart
  | UpstreamHeaders "(string \<times> string) list"
  | UpstreamReqBody nat bytes
  | UpstreamEndError
  | UpstreamEndStatus int
  | UpstreamRespBody nat bytes

definition sample_request :: "out_body \<Rightarrow> log_line list \<times> out_body" where
  "sample_request body =
     (case body of
        None \<Rightarrow> ([], None)
      | Some (b, broken) \<Rightarrow>
          (case readSnippet (Some b) BodySampleMaxBytes of
             ((head, len), b') \<Rightarrow>
               ([UpstreamReqBody len (RedactBearerTokensInBody head)], map_option (\<lambda>x. (x, False)) b')))"

text \<open>The caller reads the whole body and closes it; the sample is logged at the close.\<close>

definition sample_response :: "bytes list \<Rightarrow> log_line list" where
  "sample_response pieces =
     (case snd (tee_Close (foldl (\<lambda>t p. tee_Read p t) (newTeeBody BodySampleMaxBytes) pieces)) of
        None \<Rightarrow> []
      | Some (d, len) \<Rightarrow> [UpstreamRespBody len (RedactBearerTokensInBody d)])"

definition lines_if :: "bool \<Rightarrow> 'a list \<Rightarrow> 'a list" where
  "lines_if b xs = (if b then xs else [])"

definition logging_RoundTrip :: "int \<Rightarrow> bool \<Rightarrow> bool \<Rightarrow> (header \<Rightarrow> out_body \<Rightarrow> 'e + int \<times> bytes list) \<Rightarrow>
    header \<Rightarrow> out_body \<Rightarrow> log_line list \<times> ('e + int \<times> bytes list)" where
  "logging_RoundTrip level sampleReq sampleResp inner h body =
     (let start = lines_if (4 \<le> level) [UpstreamStart] @ lines_if (3 \<le> level) [UpstreamHeaders (RedactHeadersForLog h)];
          (reqLog, body') = (if 4 \<le> level \<and> sampleReq then sample_request body else ([], body))
      in case inner h body' of
           Inl e \<Rightarrow> (start @ reqLog @ lines_if (4 \<le> level) [UpstreamEndError], Inl e)
         | Inr (status, pieces) \<Rightarrow>
             (start @ reqLog @ lines_if (4 \<le> level) [UpstreamEndStatus status] @
                lines_if (4 \<le> level \<and> sampleResp) (sample_response pieces),
              Inr (status, pieces)))"

definition upstream_RoundTrip :: "string \<Rightarrow> int \<Rightarrow> bool \<Rightarrow> bool \<Rightarrow> (header \<Rightarrow> out_body \<Rightarrow> 'e + int \<times> bytes list) \<Rightarrow>
    header \<Rightarrow> out_body \<Rightarrow> log_line list \<times> ('e + int \<times> bytes list)" where
  "upstream_RoundTrip token level sampleReq sampleResp inner h body =
     logging_RoundTrip level sampleReq sampleResp inner (authSwap_RoundTrip token h) body"

section \<open>Properties\<close>

lemma sample_request_body:
  "(case body of None \<Rightarrow> True | Some (b, broken) \<Rightarrow> \<not> broken) \<Longrightarrow> snd (sample_request body) = body"
  by (auto simp: sample_request_def readSnippet_def split: option.splits)

lemma authorization_swapped: "token \<noteq> [] \<Longrightarrow> map_of (authSwap_RoundTrip token h) ''Authorization'' = Some [''Bearer '' @ token]"
  by (simp add: authSwap_RoundTrip_def hdr_Set_def)

lemma swap_keeps_others: "k \<noteq> ''Authorization'' \<Longrightarrow> hdr_values (authSwap_RoundTrip token h) k = hdr_values h k"
  using hdr_values_Del [of "''Authorization''" h k]
  by (simp add: authSwap_RoundTrip_def hdr_Set_def) (simp add: hdr_values_def)

text \<open>
  Logging changes nothing: at every verbosity and with every sampling decision the upstream
  gets the same headers and body and the caller the same answer, for a request body that
  arrives whole. With a configured token the upstream gets exactly that token, whatever the client
  sent as authorization, and every other header as it was; below verbosity 3 nothing is logged.
\<close>

theorem logging_is_transparent:
  assumes "case body of None \<Rightarrow> True | Some (b, broken) \<Rightarrow> \<not> broken"
  shows "snd (upstream_RoundTrip token level sampleReq sampleResp inner h body) =
      inner (authSwap_RoundTrip token h) body \<and>
    (token \<noteq> [] \<longrightarrow> hdr_values (authSwap_RoundTrip token h) ''Authorization'' = [''Bearer '' @ token]) \<and>
    (\<forall>k. k \<noteq> ''Authorization'' \<longrightarrow> hdr_values (authSwap_RoundTrip token h) k = hdr_values h k) \<and>
    (level < 3 \<longrightarrow> fst (upstream_RoundTrip token level sampleReq sampleResp inner h body) = [])"
proof -
  have "snd (upstream_RoundTrip token level sampleReq sampleResp inner h body) = inner (authSwap_RoundTrip token h) body"
    using sample_request_body [OF assms]
    by (auto simp: upstream_RoundTrip_def logging_RoundTrip_def Let_def split: sum.splits prod.splits)
  moreover have "fst (upstream_RoundTrip token level sampleReq sampleResp inner h body) = []" if "level < 3"
    using that by (auto simp: upstream_RoundTrip_def logging_RoundTrip_def lines_if_def Let_def split: sum.splits)
  ultimately show ?thesis
    using authorization_swapped swap_keeps_others by (simp add: hdr_values_def)
qed

theorem logging_is_transparent_witness:
  "snd (upstream_RoundTrip ''t'' 4 True True (\<lambda>h b. if b = Some (''x'', False) then Inr (200, []) else Inl ()) [] (Some (''x'', False))) =
     Inr (200, [])"
  using logging_is_transparent [of "Some (''x'', False)" "''t''" 4 True True
      "\<lambda>h b. if b = Some (''x'', False) then Inr (200, []) else Inl ()" "[]"] by simp

end
