(* ===== verification/Backpressure.thy ===== *)
theory Backpressure
  imports Response
begin

text \<open>
  The TTFT backpressure controller (\<open>ttft-backpressure.go\<close>): once per 60-second window the
  effective cold-prefill budget is halved, grown or held. Seconds are exact rationals
  where the code has \<open>float64\<close>; token counts wrap as Go's \<open>int\<close>.
\<close>

section \<open>The code\<close>

definition backpressureWindowSeconds :: int where "backpressureWindowSeconds = 60"
definition backpressureCleanMedianSeconds :: rat where "backpressureCleanMedianSeconds = 8"
definition backpressureGrowthStep :: int where "backpressureGrowthStep = 8192"
definition backpressureFloorDivisor :: int where "backpressureFloorDivisor = 16"

record backpressure =
  bp_ceiling :: int
  bp_threshold :: rat
  bp_floor :: int
  bp_budget :: int
  bp_started :: bool
  bp_windowIndex :: int
  bp_samples :: "rat list"
  bp_failed :: bool
  bp_gauge :: "int list"

definition NewTTFTBackpressure :: "int \<Rightarrow> int \<Rightarrow> backpressure option" where
  "NewTTFTBackpressure ceilingTokens thresholdSeconds =
     (if thresholdSeconds \<le> 0 \<or> ceilingTokens \<le> 0 then None
      else
        (let f = go_div ceilingTokens backpressureFloorDivisor;
             floor = (if f < 1 then 1 else f)
         in Some \<lparr>bp_ceiling = ceilingTokens, bp_threshold = of_int thresholdSeconds, bp_floor = floor,
                  bp_budget = ceilingTokens, bp_started = False, bp_windowIndex = 0,
                  bp_samples = [], bp_failed = False, bp_gauge = [ceilingTokens]\<rparr>))"

definition bp_Budget :: "backpressure option \<Rightarrow> int" where
  "bp_Budget b = (case b of None \<Rightarrow> 0 | Some c \<Rightarrow> bp_budget c)"

definition backpressureMedian :: "rat list \<Rightarrow> rat" where
  "backpressureMedian samples =
     (if samples = [] then 0
      else
        (let sorted = sort samples; mid = length sorted div 2
         in if length sorted mod 2 = 1 then sorted ! mid
            else (sorted ! (mid - 1) + sorted ! mid) / 2))"

definition evaluateLocked :: "backpressure \<Rightarrow> backpressure" where
  "evaluateLocked b =
     (let median = backpressureMedian (bp_samples b);
          next =
            (if bp_failed b \<or> bp_threshold b < median then
               (let h = go_div (bp_budget b) 2 in if h < bp_floor b then bp_floor b else h)
             else if median < backpressureCleanMedianSeconds then
               (let g = wrap64 (bp_budget b + backpressureGrowthStep)
                in if bp_ceiling b < g then bp_ceiling b else g)
             else bp_budget b)
      in if next = bp_budget b then b
         else b\<lparr>bp_budget := next, bp_gauge := bp_gauge b @ [next]\<rparr>)"

definition rollLocked :: "time \<Rightarrow> backpressure \<Rightarrow> backpressure" where
  "rollLocked now b =
     (let w = go_div (now div second_ns) backpressureWindowSeconds;
          b1 = (if bp_started b \<and> w \<noteq> bp_windowIndex b
                then (evaluateLocked b)\<lparr>bp_samples := [], bp_failed := False\<rparr> else b)
      in b1\<lparr>bp_started := True, bp_windowIndex := w\<rparr>)"

definition ObserveColdTTFT :: "time \<Rightarrow> rat \<Rightarrow> backpressure \<Rightarrow> backpressure" where
  "ObserveColdTTFT now seconds b =
     (let b1 = rollLocked now b in b1\<lparr>bp_samples := bp_samples b1 @ [seconds]\<rparr>)"

definition ObserveStatus :: "time \<Rightarrow> int \<Rightarrow> backpressure \<Rightarrow> backpressure" where
  "ObserveStatus now status b =
     (let b1 = rollLocked now b in if 500 \<le> status then b1\<lparr>bp_failed := True\<rparr> else b1)"

datatype bp_event = ColdTTFT time rat | Status time int

definition bp_step :: "backpressure \<Rightarrow> bp_event \<Rightarrow> backpressure option" where
  "bp_step b e =
     Some (case e of ColdTTFT now s \<Rightarrow> ObserveColdTTFT now s b | Status now st \<Rightarrow> ObserveStatus now st b)"

section \<open>Bounds\<close>

text \<open>A ceiling for which the growth step cannot wrap.\<close>

definition bp_ok :: "int \<Rightarrow> int \<Rightarrow> bool" where
  "bp_ok c t \<longleftrightarrow> 0 < c \<and> 0 < t \<and> c < 2 ^ 63 - 8192"

definition bp_inv :: "int \<Rightarrow> backpressure \<Rightarrow> bool" where
  "bp_inv c b \<longleftrightarrow>
     bp_ceiling b = c \<and> bp_floor b = max 1 (c div 16) \<and> bp_floor b \<le> bp_budget b \<and> bp_budget b \<le> c \<and>
     bp_gauge b \<noteq> [] \<and> last (bp_gauge b) = bp_budget b"

lemma bp_inv_frame [simp]:
  "bp_inv c (b\<lparr>bp_samples := s\<rparr>) = bp_inv c b" "bp_inv c (b\<lparr>bp_failed := f\<rparr>) = bp_inv c b"
  "bp_inv c (b\<lparr>bp_started := f\<rparr>) = bp_inv c b" "bp_inv c (b\<lparr>bp_windowIndex := i\<rparr>) = bp_inv c b"
  by (simp_all add: bp_inv_def)

lemma bp_invD:
  assumes "bp_inv c b"
  shows "bp_ceiling b = c" "max 1 (c div 16) \<le> bp_budget b" "1 \<le> bp_floor b" "bp_floor b \<le> bp_budget b"
    "bp_budget b \<le> c" "last (bp_gauge b) = bp_budget b" "1 \<le> bp_budget b"
proof -
  have f: "bp_ceiling b = c" "bp_floor b = max 1 (c div 16)" "bp_floor b \<le> bp_budget b" "bp_budget b \<le> c"
    "last (bp_gauge b) = bp_budget b"
    using assms unfolding bp_inv_def by blast+
  then show "bp_ceiling b = c" "max 1 (c div 16) \<le> bp_budget b" "bp_floor b \<le> bp_budget b" "bp_budget b \<le> c"
    "last (bp_gauge b) = bp_budget b" by simp_all
  show one: "1 \<le> bp_floor b" using f(2) by simp
  with f(3) show "1 \<le> bp_budget b" by linarith
qed

text \<open>The decision without wrap-around.\<close>

lemma evaluateLocked_budget:
  assumes "bp_inv c b" "c < 2 ^ 63 - 8192"
  defines "med \<equiv> backpressureMedian (bp_samples b)"
  shows "bp_budget (evaluateLocked b) =
    (if bp_failed b \<or> bp_threshold b < med then max (bp_floor b) (bp_budget b div 2)
     else if med < 8 then min c (bp_budget b + 8192) else bp_budget b)"
proof -
  note b = bp_invD(7,5,1) [OF assms(1)]
  then have "wrap64 (bp_budget b + 8192) = bp_budget b + 8192"
    using assms(2) by (intro wrap64_id) simp_all
  moreover have "bp_budget b div 2 < bp_budget b" using b(1) by simp
  ultimately show ?thesis
    using b by (simp add: evaluateLocked_def Let_def med_def backpressureCleanMedianSeconds_def
        backpressureGrowthStep_def max_def min_def)
qed

lemma evaluateLocked_fields:
  "bp_ceiling (evaluateLocked b) = bp_ceiling b" "bp_floor (evaluateLocked b) = bp_floor b"
  "bp_gauge b \<noteq> [] \<Longrightarrow> last (bp_gauge b) = bp_budget b \<Longrightarrow>
     bp_gauge (evaluateLocked b) \<noteq> [] \<and> last (bp_gauge (evaluateLocked b)) = bp_budget (evaluateLocked b)"
  by (simp_all add: evaluateLocked_def Let_def)

lemma evaluateLocked_inv:
  assumes "bp_inv c b" "c < 2 ^ 63 - 8192"
  shows "bp_inv c (evaluateLocked b)"
proof -
  let ?n = "bp_budget (evaluateLocked b)"
  note b = bp_invD(3-5) [OF assms(1)]
  then have "bp_floor b \<le> max (bp_floor b) (bp_budget b div 2)" "max (bp_floor b) (bp_budget b div 2) \<le> c"
    "bp_floor b \<le> min c (bp_budget b + 8192)" by linarith+
  then have "bp_floor b \<le> ?n" "?n \<le> c"
    using b unfolding evaluateLocked_budget [OF assms] by auto
  with assms(1) evaluateLocked_fields [of b] show ?thesis by (simp add: bp_inv_def)
qed

lemma rollLocked_inv: "bp_inv c b \<Longrightarrow> c < 2 ^ 63 - 8192 \<Longrightarrow> bp_inv c (rollLocked now b)"
  by (simp add: rollLocked_def Let_def evaluateLocked_inv)

interpretation backpressure: step_invariant "\<lambda>b. bp_ok c t \<and> NewTTFTBackpressure c t = Some b" bp_step
  "\<lambda>b. bp_ok c t \<and> bp_inv c b" for c t
proof unfold_locales
  show "bp_ok c t \<and> bp_inv c b" if "bp_ok c t \<and> NewTTFTBackpressure c t = Some b" for b
    using that
    by (auto simp: NewTTFTBackpressure_def bp_ok_def bp_inv_def backpressureFloorDivisor_def Let_def
        split: if_splits)
  show "bp_ok c t \<and> bp_inv c s'" if "bp_ok c t \<and> bp_inv c s" "bp_step s e = Some s'" for s e s'
    using that rollLocked_inv [of c s]
    by (cases e) (auto simp: bp_step_def ObserveColdTTFT_def ObserveStatus_def Let_def bp_ok_def)
qed

section \<open>Recovery\<close>

text \<open>Statuses below 500 in distinct consecutive windows: every window left is clean.\<close>

fun quiet :: "int \<Rightarrow> (time \<times> int) list \<Rightarrow> bool" where
  "quiet w [] \<longleftrightarrow> True"
| "quiet w ((t, st) # obs) \<longleftrightarrow>
     go_div (t div second_ns) 60 \<noteq> w \<and> st < 500 \<and> quiet (go_div (t div second_ns) 60) obs"

definition observe_statuses :: "(time \<times> int) list \<Rightarrow> backpressure \<Rightarrow> backpressure" where
  "observe_statuses obs b = fold (\<lambda>(t, st). ObserveStatus t st) obs b"

lemma quiet_step:
  assumes "bp_inv c b" "c < 2 ^ 63 - 8192" "bp_started b" "bp_samples b = []" "\<not> bp_failed b"
    "0 < bp_threshold b" "go_div (t div second_ns) 60 \<noteq> bp_windowIndex b" "st < 500"
  shows "bp_budget (ObserveStatus t st b) = min c (bp_budget b + 8192)"
    "bp_samples (ObserveStatus t st b) = []" "\<not> bp_failed (ObserveStatus t st b)"
    "bp_started (ObserveStatus t st b)" "bp_threshold (ObserveStatus t st b) = bp_threshold b"
    "bp_windowIndex (ObserveStatus t st b) = go_div (t div second_ns) 60"
    "bp_inv c (ObserveStatus t st b)"
proof -
  have e: "ObserveStatus t st b = (evaluateLocked b)\<lparr>bp_samples := [], bp_failed := False,
      bp_started := True, bp_windowIndex := go_div (t div second_ns) 60\<rparr>"
    using assms by (simp add: ObserveStatus_def rollLocked_def Let_def backpressureWindowSeconds_def)
  show "bp_budget (ObserveStatus t st b) = min c (bp_budget b + 8192)"
    using evaluateLocked_budget [OF assms(1,2)] assms(4-6) by (simp add: e backpressureMedian_def)
  show "bp_threshold (ObserveStatus t st b) = bp_threshold b"
    by (simp add: e evaluateLocked_def Let_def)
  show "bp_inv c (ObserveStatus t st b)" using evaluateLocked_inv [OF assms(1,2)] by (simp add: e)
  show "bp_samples (ObserveStatus t st b) = []" "\<not> bp_failed (ObserveStatus t st b)"
    "bp_started (ObserveStatus t st b)"
    "bp_windowIndex (ObserveStatus t st b) = go_div (t div second_ns) 60" by (simp_all add: e)
qed

lemma quiet_recovers:
  assumes "bp_inv c b" "c < 2 ^ 63 - 8192" "bp_started b" "bp_samples b = []" "\<not> bp_failed b"
    "0 < bp_threshold b" "quiet (bp_windowIndex b) obs"
  shows "bp_budget (observe_statuses obs b) = min c (bp_budget b + 8192 * int (length obs))"
  using assms
proof (induction obs arbitrary: b)
  case Nil
  then show ?case by (simp add: observe_statuses_def bp_inv_def)
next
  case (Cons o' obs)
  obtain t st where o: "o' = (t, st)" by (cases o')
  from Cons.prems(7) have q: "go_div (t div second_ns) 60 \<noteq> bp_windowIndex b" "st < 500"
    "quiet (go_div (t div second_ns) 60) obs" by (simp_all add: o)
  note step = quiet_step [OF Cons.prems(1-6) q(1,2)]
  have "bp_budget (observe_statuses obs (ObserveStatus t st b)) =
      min c (bp_budget (ObserveStatus t st b) + 8192 * int (length obs))"
    using step Cons.prems(2,6) q(3) by (intro Cons.IH) simp_all
  then show ?case by (simp add: o observe_statuses_def step(1))
qed

section \<open>Properties\<close>

text \<open>
  C37. Whatever is observed, the effective budget stays between the floor (a sixteenth of
  the configured ceiling, at least 1, so the budget check is never switched off) and the
  ceiling, and the exported gauge shows the current budget.
\<close>

theorem budget_between_floor_and_ceiling:
  assumes "0 < c" "0 < t" "c < 2 ^ 63 - 8192" "NewTTFTBackpressure c t = Some b0"
    and "run_steps bp_step b0 es = Some b"
  shows "max 1 (c div 16) \<le> bp_Budget (Some b) \<and> bp_Budget (Some b) \<le> c \<and> last (bp_gauge b) = bp_Budget (Some b)"
proof -
  have "bp_inv c b" using backpressure.reachable_inv [of c t b0 es b] assms by (simp add: bp_ok_def)
  from bp_invD [OF this] show ?thesis by (simp add: bp_Budget_def)
qed

theorem budget_between_floor_and_ceiling_witness:
  "\<exists>b0 b. NewTTFTBackpressure 100 10 = Some b0 \<and>
     run_steps bp_step b0 [Status 0 500, Status (61 * second_ns) 200] = Some b \<and>
     bp_Budget (Some b) = 50 \<and> 6 \<le> bp_Budget (Some b)"
proof -
  let ?b0 = "the (NewTTFTBackpressure 100 10)"
  have b0: "NewTTFTBackpressure 100 10 = Some ?b0" by (simp add: NewTTFTBackpressure_def Let_def)
  have "\<exists>b. run_steps bp_step ?b0 [Status 0 500, Status (61 * second_ns) 200] = Some b \<and>
      bp_Budget (Some b) = 50"
    by (simp add: NewTTFTBackpressure_def bp_step_def ObserveStatus_def rollLocked_def evaluateLocked_def
        Let_def second_ns_def backpressureWindowSeconds_def backpressureFloorDivisor_def bp_Budget_def)
  then obtain b where b: "run_steps bp_step ?b0 [Status 0 500, Status (61 * second_ns) 200] = Some b"
    "bp_Budget (Some b) = 50" by metis
  from budget_between_floor_and_ceiling [OF _ _ _ b0 b(1)] b b0 show ?thesis by auto
qed

text \<open>
  After pressure ends the budget recovers: each further window without failures and
  without slow cold requests adds 8192 tokens until the ceiling is reached.
\<close>

theorem budget_recovers:
  assumes "bp_inv c b" "c < 2 ^ 63 - 8192" "bp_started b" "bp_samples b = []" "\<not> bp_failed b"
    and "0 < bp_threshold b" "quiet (bp_windowIndex b) obs" "c \<le> bp_budget b + 8192 * int (length obs)"
  shows "bp_Budget (Some (observe_statuses obs b)) = c"
  using quiet_recovers [OF assms(1-7)] assms(8) by (simp add: bp_Budget_def)

theorem budget_recovers_witness:
  "bp_Budget (Some (observe_statuses [(60 * second_ns, 200), (120 * second_ns, 404)]
     \<lparr>bp_ceiling = 10000, bp_threshold = 10, bp_floor = 625, bp_budget = 625, bp_started = True,
      bp_windowIndex = 0, bp_samples = [], bp_failed = False, bp_gauge = [625]\<rparr>)) = 10000"
  by (rule budget_recovers) (simp_all add: bp_inv_def second_ns_def)

end
