(* ===== verification/ColdGate.thy ===== *)
theory ColdGate
  imports Backpressure
begin

text \<open>
  The cold-start admission gate (\<open>cold-start-gate.go\<close>): a request of a session not seen
  recently reserves a prefill estimate and a token of a per-minute rate bucket before it is
  forwarded. \<open>cold\<close> is the state under the mutex, \<open>cold_gate\<close> adds the bounded queue, the
  counters and the requests inside \<open>ServeHTTP\<close>; an event is one critical section of one
  request. The timers of a waiting request are the events that wake it or end its wait.
\<close>

section \<open>Constants\<close>

definition coldGateDefaultSessionWindow :: duration where "coldGateDefaultSessionWindow = 600 * second_ns"
definition coldGateDeltaMarker :: bytes where "coldGateDeltaMarker = ''content_block_delta''"
definition coldGateRateTokenCap :: int where "coldGateRateTokenCap = 1"
definition coldGateQueueCapacity :: nat where "coldGateQueueCapacity = 32"
definition coldGateMaxWait :: duration where "coldGateMaxWait = 30 * second_ns"

section \<open>The state under the mutex\<close>

record cold =
  cg_budget :: int
  cg_bp :: "backpressure option"
  cg_window :: duration
  cg_rate :: int
  cg_maxWait :: duration
  cg_seen :: "string \<rightharpoonup> time"
  cg_lastPrune :: "time option"
  cg_inFlightTokens :: int
  cg_rateTokens :: int
  cg_rateLastRefill :: time

definition cg_estimate :: "int \<Rightarrow> int" where
  "cg_estimate contentLength =
     (if contentLength \<le> 0 then 0 else go_div (wrap64 (contentLength * 2)) 7)"

definition retryAfterSeconds :: "cold \<Rightarrow> int" where
  "retryAfterSeconds g =
     (let s = go_div (cg_maxWait g) second_ns; s1 = (if s < 1 then 1 else s)
      in if 60 < s1 then 60 else s1)"

definition effectiveBudget :: "cold \<Rightarrow> int" where
  "effectiveBudget g = (case cg_bp g of Some b \<Rightarrow> bp_Budget (Some b) | None \<Rightarrow> cg_budget g)"

definition refillLocked :: "time \<Rightarrow> cold \<Rightarrow> cold" where
  "refillLocked now g =
     (if cg_rate g \<le> 0 then g
      else if coldGateRateTokenCap \<le> cg_rateTokens g then g\<lparr>cg_rateLastRefill := now\<rparr>
      else
        (let earned = go_div (wrap64 ((now - cg_rateLastRefill g) * cg_rate g)) minute_ns
         in if earned \<le> 0 then g
            else
              g\<lparr>cg_rateTokens := (if coldGateRateTokenCap < cg_rateTokens g + earned
                                  then coldGateRateTokenCap else cg_rateTokens g + earned),
                cg_rateLastRefill := cg_rateLastRefill g + go_div (wrap64 (earned * minute_ns)) (cg_rate g)\<rparr>))"

definition rateWaitLocked :: "time \<Rightarrow> cold \<Rightarrow> duration" where
  "rateWaitLocked now g =
     (if cg_rate g \<le> 0 \<or> 1 \<le> cg_rateTokens g then 0
      else
        (let perToken = go_div minute_ns (cg_rate g);
             earned = go_div (wrap64 ((now - cg_rateLastRefill g) * cg_rate g)) minute_ns;
             next = cg_rateLastRefill g + wrap64 ((earned + 1) * perToken);
             wait = next - now
         in if wait \<le> 0 then perToken else wait))"

definition cg_pruneLocked :: "time \<Rightarrow> cold \<Rightarrow> cold" where
  "cg_pruneLocked now g =
     (let i = go_div (cg_window g) 8; interval = (if i < second_ns then second_ns else i)
      in if (case cg_lastPrune g of None \<Rightarrow> False | Some t \<Rightarrow> now - t < interval) then g
         else g\<lparr>cg_lastPrune := Some now,
                cg_seen := (\<lambda>id. case cg_seen g id of None \<Rightarrow> None
                                 | Some seenAt \<Rightarrow> if cg_window g \<le> now - seenAt then None else Some seenAt)\<rparr>)"

datatype cold_verdict = AdmittedWarm | AdmittedCold | BlockedBudget | BlockedRate

definition cg_warm :: "string \<Rightarrow> time \<Rightarrow> cold \<Rightarrow> bool" where
  "cg_warm sessionID now g \<longleftrightarrow>
     sessionID \<noteq> [] \<and> (case cg_seen g sessionID of None \<Rightarrow> False | Some seenAt \<Rightarrow> now - seenAt < cg_window g)"

definition tryAdmitLocked :: "string \<Rightarrow> int \<Rightarrow> time \<Rightarrow> cold \<Rightarrow> cold \<times> cold_verdict" where
  "tryAdmitLocked sessionID estimate now g =
     (if cg_warm sessionID now g
      then (g\<lparr>cg_seen := (cg_seen g)(sessionID \<mapsto> now)\<rparr>, AdmittedWarm)
      else if 0 < effectiveBudget g \<and> 0 < cg_inFlightTokens g \<and>
              effectiveBudget g < cg_inFlightTokens g + estimate
      then (g, BlockedBudget)
      else
        (let g1 = refillLocked now g
         in if 0 < cg_rate g1 \<and> cg_rateTokens g1 < 1 then (g1, BlockedRate)
            else
              (g1\<lparr>cg_inFlightTokens := cg_inFlightTokens g1 + estimate,
                  cg_rateTokens := (if 0 < cg_rate g1 then cg_rateTokens g1 - 1 else cg_rateTokens g1),
                  cg_seen := (if sessionID \<noteq> [] then (cg_seen g1)(sessionID \<mapsto> now) else cg_seen g1)\<rparr>,
               AdmittedCold)))"

text \<open>The body of the release closure.\<close>

definition cg_release :: "int \<Rightarrow> cold \<Rightarrow> cold" where
  "cg_release estimate g =
     g\<lparr>cg_inFlightTokens := cg_inFlightTokens g -
         (if cg_inFlightTokens g < estimate then cg_inFlightTokens g else estimate)\<rparr>"

section \<open>The gate\<close>

text \<open>
  A request: waiting in the queue for the reason it was blocked on last; admitted and about
  to give back its queue slot; forwarded without a reservation; forwarded with one, with
  the instant of dispatch and whether the reservation was released; finished.
\<close>

datatype cg_phase =
    CgWaiting cold_verdict
  | CgLeaving bool
  | CgPlain
  | CgCold time bool
  | CgDone

record cg_req =
  cq_session :: string
  cq_estimate :: int
  cq_phase :: cg_phase
  cq_rec :: status_recorder
  cq_slot :: rejection_slot

record cold_gate =
  gate_cold :: cold
  gate_queue :: nat
  gate_reqs :: "cg_req list"
  gate_delayed :: nat
  gate_refused :: nat
  gate_ttft :: "duration list"

definition NewColdStartGateWithBackpressure ::
  "int \<Rightarrow> backpressure option \<Rightarrow> duration \<Rightarrow> int \<Rightarrow> duration \<Rightarrow> time \<Rightarrow> cold_gate option" where
  "NewColdStartGateWithBackpressure budgetTokens bp sessionWindow newSessionsPerMinute maxWait now =
     (if budgetTokens \<le> 0 \<and> newSessionsPerMinute \<le> 0 then None
      else Some \<lparr>gate_cold =
          \<lparr>cg_budget = budgetTokens, cg_bp = bp,
           cg_window = (if sessionWindow \<le> 0 then coldGateDefaultSessionWindow else sessionWindow),
           cg_rate = newSessionsPerMinute,
           cg_maxWait = (if maxWait \<le> 0 then coldGateMaxWait else maxWait),
           cg_seen = Map.empty, cg_lastPrune = None, cg_inFlightTokens = 0,
           cg_rateTokens = coldGateRateTokenCap, cg_rateLastRefill = now\<rparr>,
         gate_queue = 0, gate_reqs = [], gate_delayed = 0, gate_refused = 0, gate_ttft = []\<rparr>)"

definition NewColdStartGate :: "int \<Rightarrow> duration \<Rightarrow> int \<Rightarrow> duration \<Rightarrow> time \<Rightarrow> cold_gate option" where
  "NewColdStartGate budgetTokens = NewColdStartGateWithBackpressure budgetTokens None"

definition cg_InFlight :: "cold_gate \<Rightarrow> int" where
  "cg_InFlight s = cg_inFlightTokens (gate_cold s)"

definition cg_upd :: "nat \<Rightarrow> (cg_req \<Rightarrow> cg_req) \<Rightarrow> cold_gate \<Rightarrow> cold_gate" where
  "cg_upd i f s = s\<lparr>gate_reqs := (gate_reqs s)[i := f (gate_reqs s ! i)]\<rparr>"

text \<open>\<open>refuse\<close>: nothing is written or counted for a client that is already gone.\<close>

definition cg_refuse :: "nat \<Rightarrow> bool \<Rightarrow> cold_gate \<Rightarrow> cold_gate" where
  "cg_refuse i gone s =
     (if gone then cg_upd i (\<lambda>r. r\<lparr>cq_phase := CgDone\<rparr>) s
      else
        (let (w, slot) = writeRateLimited (retryAfterSeconds (gate_cold s)) rejectionReasonColdStart
               (sr_writer (cq_rec (gate_reqs s ! i)), cq_slot (gate_reqs s ! i))
         in (cg_upd i (\<lambda>r. r\<lparr>cq_phase := CgDone, cq_rec := (cq_rec r)\<lparr>sr_writer := w\<rparr>, cq_slot := slot\<rparr>) s)
              \<lparr>gate_refused := gate_refused s + 1\<rparr>))"

text \<open>Where an admitted request goes: forwarded plainly, or with the release-observing recorder.\<close>

definition cg_forward_phase :: "bool \<Rightarrow> int \<Rightarrow> time \<Rightarrow> cg_phase" where
  "cg_forward_phase warm estimate now = (if warm \<or> estimate = 0 then CgPlain else CgCold now False)"

definition cg_arrive :: "string \<Rightarrow> int \<Rightarrow> response \<times> rejection_slot \<Rightarrow> bool \<Rightarrow> time \<Rightarrow> cold_gate \<Rightarrow> cold_gate" where
  "cg_arrive sessionID contentLength w gone now s =
     (let est = cg_estimate contentLength;
          (g, v) = tryAdmitLocked sessionID est now (cg_pruneLocked now (gate_cold s));
          req = (\<lambda>ph. \<lparr>cq_session = sessionID, cq_estimate = est, cq_phase = ph,
                       cq_rec = sr_new (fst w), cq_slot = snd w\<rparr>);
          add = (\<lambda>ph s. s\<lparr>gate_reqs := gate_reqs s @ [req ph]\<rparr>);
          s1 = s\<lparr>gate_cold := g\<rparr>
      in if v = AdmittedWarm then add (cg_forward_phase True est now) s1
         else if v = AdmittedCold then add (cg_forward_phase False est now) s1
         else if gate_queue s < coldGateQueueCapacity
           then add (CgWaiting v) (s1\<lparr>gate_queue := gate_queue s + 1\<rparr>)
         else cg_refuse (length (gate_reqs s)) gone (add CgDone s1))"

text \<open>A waiter wakes (broadcast or refill timer) and tries again.\<close>

definition cg_wake :: "nat \<Rightarrow> time \<Rightarrow> cold_gate \<Rightarrow> cold_gate" where
  "cg_wake i now s =
     (let r = gate_reqs s ! i;
          (g, v) = tryAdmitLocked (cq_session r) (cq_estimate r) now (cg_pruneLocked now (gate_cold s));
          s1 = s\<lparr>gate_cold := g\<rparr>
      in if v = AdmittedWarm then cg_upd i (\<lambda>r. r\<lparr>cq_phase := CgLeaving True\<rparr>) s1
         else if v = AdmittedCold
           then (cg_upd i (\<lambda>r. r\<lparr>cq_phase := CgLeaving False\<rparr>) s1)\<lparr>gate_delayed := gate_delayed s + 1\<rparr>
         else cg_upd i (\<lambda>r. r\<lparr>cq_phase := CgWaiting v\<rparr>) s1)"

text \<open>
  A write of a cold request: the bytes pass through; the first chunk that carries the
  marker releases the reservation and records the time to the first token.
\<close>

definition cg_on_delta :: "nat \<Rightarrow> time \<Rightarrow> time \<Rightarrow> cold_gate \<Rightarrow> cold_gate" where
  "cg_on_delta i dispatchAt now s =
     (let g1 = cg_release (cq_estimate (gate_reqs s ! i)) (gate_cold s);
          g2 = g1\<lparr>cg_bp := map_option (ObserveColdTTFT now (of_int (now - dispatchAt) / of_int second_ns)) (cg_bp g1)\<rparr>
      in (cg_upd i (\<lambda>r. r\<lparr>cq_phase := CgCold dispatchAt True\<rparr>) s)
           \<lparr>gate_cold := g2, gate_ttft := gate_ttft s @ [now - dispatchAt]\<rparr>)"

definition cg_write :: "nat \<Rightarrow> write_call \<Rightarrow> time \<Rightarrow> cold_gate \<Rightarrow> cold_gate" where
  "cg_write i c now s =
     (let s1 = cg_upd i (\<lambda>r. r\<lparr>cq_rec := sr_call (cq_rec r) c\<rparr>) s
      in case (c, cq_phase (gate_reqs s ! i)) of
           (CallWrite b, CgCold dispatchAt False) \<Rightarrow>
             if str_contains b coldGateDeltaMarker then cg_on_delta i dispatchAt now s1 else s1
         | _ \<Rightarrow> s1)"

text \<open>The wrapped handler returns: its status is observed, then the deferred release runs.\<close>

definition cg_finish :: "nat \<Rightarrow> cold_gate \<Rightarrow> cold_gate" where
  "cg_finish i s =
     (let r = gate_reqs s ! i;
          g = (case cq_phase r of CgCold _ False \<Rightarrow> cg_release (cq_estimate r) (gate_cold s)
               | _ \<Rightarrow> gate_cold s)
      in (cg_upd i (\<lambda>r. r\<lparr>cq_phase := CgDone\<rparr>) s)\<lparr>gate_cold := g\<rparr>)"

definition cg_returns :: "nat \<Rightarrow> time \<Rightarrow> cold_gate \<Rightarrow> cold_gate" where
  "cg_returns i now s =
     (let g = gate_cold s
      in cg_finish i (s\<lparr>gate_cold := g\<lparr>cg_bp :=
           map_option (ObserveStatus now (sr_status (cq_rec (gate_reqs s ! i)))) (cg_bp g)\<rparr>\<rparr>))"

datatype cg_event =
    CgArrive string int "response \<times> rejection_slot" bool time
  | CgWake nat time
  | CgLeave nat time
  | CgDeadline nat bool
  | CgClientDone nat
  | CgWrite nat write_call time
  | CgReturns nat time
  | CgPanics nat

definition cg_act :: "cg_event \<Rightarrow> nat \<Rightarrow> cold_gate \<Rightarrow> cold_gate option" where
  "cg_act e i s =
     (if \<not> i < length (gate_reqs s) then None
      else case (cq_phase (gate_reqs s ! i), e) of
        (CgWaiting v, CgWake _ now) \<Rightarrow> Some (cg_wake i now s)
      | (CgWaiting v, CgDeadline _ gone) \<Rightarrow> Some (cg_refuse i gone (s\<lparr>gate_queue := gate_queue s - 1\<rparr>))
      | (CgWaiting v, CgClientDone _) \<Rightarrow>
          Some (cg_upd i (\<lambda>r. r\<lparr>cq_phase := CgDone\<rparr>) (s\<lparr>gate_queue := gate_queue s - 1\<rparr>))
      | (CgLeaving warm, CgLeave _ now) \<Rightarrow>
          Some (cg_upd i (\<lambda>r. r\<lparr>cq_phase := cg_forward_phase warm (cq_estimate r) now\<rparr>)
                  (s\<lparr>gate_queue := gate_queue s - 1\<rparr>))
      | (CgPlain, CgWrite _ c now) \<Rightarrow> Some (cg_write i c now s)
      | (CgCold d rel, CgWrite _ c now) \<Rightarrow> Some (cg_write i c now s)
      | (CgPlain, CgReturns _ now) \<Rightarrow> Some (cg_returns i now s)
      | (CgCold d rel, CgReturns _ now) \<Rightarrow> Some (cg_returns i now s)
      | (CgPlain, CgPanics _) \<Rightarrow> Some (cg_finish i s)
      | (CgCold d rel, CgPanics _) \<Rightarrow> Some (cg_finish i s)
      | _ \<Rightarrow> None)"

definition cg_step :: "cold_gate \<Rightarrow> cg_event \<Rightarrow> cold_gate option" where
  "cg_step s e =
     (case e of
        CgArrive sid n w gone now \<Rightarrow> Some (cg_arrive sid n w gone now s)
      | CgWake i now \<Rightarrow> cg_act e i s
      | CgLeave i now \<Rightarrow> cg_act e i s
      | CgDeadline i gone \<Rightarrow> cg_act e i s
      | CgClientDone i \<Rightarrow> cg_act e i s
      | CgWrite i c now \<Rightarrow> cg_act e i s
      | CgReturns i now \<Rightarrow> cg_act e i s
      | CgPanics i \<Rightarrow> cg_act e i s)"

section \<open>Reservations and queue slots\<close>

fun reserves :: "cg_phase \<Rightarrow> bool" where
  "reserves (CgLeaving warm) = (\<not> warm)"
| "reserves (CgCold d released) = (\<not> released)"
| "reserves _ = False"

fun queues :: "cg_phase \<Rightarrow> bool" where
  "queues (CgWaiting v) = True"
| "queues (CgLeaving warm) = True"
| "queues _ = False"

definition reserved :: "cg_req \<Rightarrow> int" where
  "reserved r = (if reserves (cq_phase r) then cq_estimate r else 0)"

definition queue_count :: "cold_gate \<Rightarrow> nat" where
  "queue_count s = length (filter (\<lambda>r. queues (cq_phase r)) (gate_reqs s))"

definition cg_inv :: "cold_gate \<Rightarrow> bool" where
  "cg_inv s \<longleftrightarrow>
     cg_inFlightTokens (gate_cold s) = sum_list (map reserved (gate_reqs s)) \<and>
     gate_queue s = queue_count s \<and> gate_queue s \<le> coldGateQueueCapacity \<and>
     (\<forall>r \<in> set (gate_reqs s). 0 \<le> cq_estimate r)"

lemma sum_list_int_update:
  "i < length xs \<Longrightarrow> sum_list (map f (xs[i := y])) = sum_list (map f xs) + f y - (f (xs ! i) :: int)"
proof (induction xs arbitrary: i)
  case (Cons x xs)
  then show ?case by (cases i) auto
qed simp

lemma sum_list_ge_member:
  "\<forall>x \<in> set xs. 0 \<le> (f x :: int) \<Longrightarrow> i < length xs \<Longrightarrow> f (xs ! i) \<le> sum_list (map f xs)"
proof (induction xs arbitrary: i)
  case (Cons x xs)
  have "0 \<le> sum_list (map f xs)" using Cons.prems(1) by (intro sum_list_nonneg) auto
  with Cons show ?case by (cases i) force+
qed simp

lemma reserved_nonneg: "cg_inv s \<Longrightarrow> \<forall>r \<in> set (gate_reqs s). 0 \<le> reserved r"
  by (simp add: cg_inv_def reserved_def)

lemma refillLocked_frame [simp]:
  "cg_inFlightTokens (refillLocked now g) = cg_inFlightTokens g" "cg_rate (refillLocked now g) = cg_rate g"
  "cg_bp (refillLocked now g) = cg_bp g" "cg_budget (refillLocked now g) = cg_budget g"
  "cg_seen (refillLocked now g) = cg_seen g" "cg_window (refillLocked now g) = cg_window g"
  by (simp_all add: refillLocked_def Let_def)

lemma pruneLocked_frame [simp]:
  "cg_inFlightTokens (cg_pruneLocked now g) = cg_inFlightTokens g" "cg_rate (cg_pruneLocked now g) = cg_rate g"
  "cg_bp (cg_pruneLocked now g) = cg_bp g" "cg_budget (cg_pruneLocked now g) = cg_budget g"
  "cg_rateTokens (cg_pruneLocked now g) = cg_rateTokens g"
  "cg_rateLastRefill (cg_pruneLocked now g) = cg_rateLastRefill g"
  by (simp_all add: cg_pruneLocked_def Let_def split: option.splits)

lemma tryAdmit_inFlight:
  "tryAdmitLocked sid est now g = (g', v) \<Longrightarrow>
   cg_inFlightTokens g' = cg_inFlightTokens g + (if v = AdmittedCold then est else 0)"
  by (auto simp: tryAdmitLocked_def Let_def split: if_splits)

text \<open>An admission that charges tokens finds nothing in flight, or stays within the budget.\<close>

lemma tryAdmit_within:
  "tryAdmitLocked sid est now g = (g', AdmittedCold) \<Longrightarrow>
   0 < effectiveBudget g \<longrightarrow> cg_inFlightTokens g \<le> 0 \<or> cg_inFlightTokens g' \<le> effectiveBudget g"
  by (auto simp: tryAdmitLocked_def Let_def split: if_splits)

definition cg_granted :: "cold_gate \<Rightarrow> cold_gate \<Rightarrow> bool" where
  "cg_granted s s' \<longleftrightarrow> (0 < effectiveBudget (gate_cold s) \<longrightarrow>
     cg_inFlightTokens (gate_cold s) \<le> 0 \<or>
     cg_inFlightTokens (gate_cold s') \<le> effectiveBudget (gate_cold s))"

lemma effectiveBudget_prune [simp]: "effectiveBudget (cg_pruneLocked now g) = effectiveBudget g"
  by (cases "cg_bp g") (simp_all add: effectiveBudget_def)

lemma estimate_nonneg: "n < 2 ^ 62 \<Longrightarrow> 0 \<le> cg_estimate n"
  by (auto simp: cg_estimate_def wrap64_id pos_imp_zdiv_nonneg_iff)

text \<open>One request moves on: tokens and queue slots move with it.\<close>

definition cg_moves :: "nat \<Rightarrow> cg_req \<Rightarrow> cold_gate \<Rightarrow> cold_gate \<Rightarrow> bool" where
  "cg_moves i r' s s' \<longleftrightarrow>
     gate_reqs s' = (gate_reqs s)[i := r'] \<and> cq_estimate r' = cq_estimate (gate_reqs s ! i) \<and>
     cg_inFlightTokens (gate_cold s') = cg_inFlightTokens (gate_cold s) + reserved r' - reserved (gate_reqs s ! i) \<and>
     int (gate_queue s') = int (gate_queue s) + of_bool (queues (cq_phase r')) - of_bool (queues (cq_phase (gate_reqs s ! i)))"

lemma cg_moves_inv:
  assumes "cg_inv s" "i < length (gate_reqs s)" "cg_moves i r' s s'"
    "queues (cq_phase r') \<longrightarrow> queues (cq_phase (gate_reqs s ! i))"
  shows "cg_inv s'"
proof -
  have m: "gate_reqs s' = (gate_reqs s)[i := r']" "cq_estimate r' = cq_estimate (gate_reqs s ! i)"
    "cg_inFlightTokens (gate_cold s') = cg_inFlightTokens (gate_cold s) + reserved r' - reserved (gate_reqs s ! i)"
    "int (gate_queue s') = int (gate_queue s) + of_bool (queues (cq_phase r')) - of_bool (queues (cq_phase (gate_reqs s ! i)))"
    using assms(3) by (simp_all add: cg_moves_def)
  have inv: "cg_inFlightTokens (gate_cold s) = sum_list (map reserved (gate_reqs s))"
    "gate_queue s = queue_count s" "gate_queue s \<le> coldGateQueueCapacity"
    "\<forall>r \<in> set (gate_reqs s). 0 \<le> cq_estimate r" using assms(1) by (simp_all add: cg_inv_def)
  have "sum_list (map reserved (gate_reqs s')) = cg_inFlightTokens (gate_cold s')"
    using inv(1) m(3) assms(2) unfolding m(1) by (simp only: sum_list_int_update)
  moreover have "int (queue_count s') = int (queue_count s) + of_bool (queues (cq_phase r'))
      - of_bool (queues (cq_phase (gate_reqs s ! i)))"
    using assms(2) by (simp add: queue_count_def m(1) length_filter_update)
  moreover have "gate_queue s' \<le> gate_queue s" using m(4) assms(4)
    by (cases "queues (cq_phase r')"; cases "queues (cq_phase (gate_reqs s ! i))") simp_all
  moreover have "\<forall>r \<in> set (gate_reqs s'). 0 \<le> cq_estimate r"
    using set_update_subset_insert [of "gate_reqs s" i r'] inv(4) m(2) assms(2) by (auto simp: m(1))
  ultimately show ?thesis using inv(2,3) m(4) by (simp add: cg_inv_def del: of_bool_eq_iff)
qed

lemma queue_pos:
  assumes "cg_inv s" "i < length (gate_reqs s)" "queues (cq_phase (gate_reqs s ! i))"
  shows "0 < gate_queue s"
  using length_filter_pos [of i "gate_reqs s" "\<lambda>r. queues (cq_phase r)"] assms
  by (simp add: cg_inv_def queue_count_def)

lemma release_exact:
  assumes "cg_inv s" "i < length (gate_reqs s)" "reserves (cq_phase (gate_reqs s ! i))"
  shows "cg_inFlightTokens (cg_release (cq_estimate (gate_reqs s ! i)) (gate_cold s)) =
         cg_inFlightTokens (gate_cold s) - reserved (gate_reqs s ! i)"
proof -
  have "reserved (gate_reqs s ! i) \<le> sum_list (map reserved (gate_reqs s))"
    using reserved_nonneg [OF assms(1)] assms(2) by (rule sum_list_ge_member)
  then show ?thesis using assms(1,3) by (simp add: cg_release_def reserved_def cg_inv_def)
qed

lemma cg_upd_fields [simp]:
  "gate_cold (cg_upd i f s) = gate_cold s" "gate_queue (cg_upd i f s) = gate_queue s"
  "gate_reqs (cg_upd i f s) = (gate_reqs s)[i := f (gate_reqs s ! i)]"
  "gate_refused (cg_upd i f s) = gate_refused s" "gate_delayed (cg_upd i f s) = gate_delayed s"
  "gate_ttft (cg_upd i f s) = gate_ttft s"
  by (simp_all add: cg_upd_def)

lemma cg_refuse_fields:
  "gate_cold (cg_refuse i gone s) = gate_cold s" "gate_queue (cg_refuse i gone s) = gate_queue s"
  "\<exists>r'. gate_reqs (cg_refuse i gone s) = (gate_reqs s)[i := r'] \<and> cq_phase r' = CgDone \<and>
     cq_estimate r' = cq_estimate (gate_reqs s ! i) \<and> cq_session r' = cq_session (gate_reqs s ! i)"
  by (auto simp: cg_refuse_def Let_def split: prod.splits)

lemma cg_wake_moves:
  assumes "i < length (gate_reqs s)" "queues (cq_phase (gate_reqs s ! i))"
    "\<not> reserves (cq_phase (gate_reqs s ! i))"
  shows "\<exists>r'. cg_moves i r' s (cg_wake i now s) \<and> queues (cq_phase r') \<and>
    (reserved r' = 0 \<or> cg_granted s (cg_wake i now s))"
proof -
  let ?r = "gate_reqs s ! i"
  obtain g v where t: "tryAdmitLocked (cq_session ?r) (cq_estimate ?r) now (cg_pruneLocked now (gate_cold s)) = (g, v)"
    by (cases "tryAdmitLocked (cq_session ?r) (cq_estimate ?r) now (cg_pruneLocked now (gate_cold s))")
  have f: "cg_inFlightTokens g = cg_inFlightTokens (gate_cold s) + (if v = AdmittedCold then cq_estimate ?r else 0)"
    using tryAdmit_inFlight [OF t] by simp
  let ?ph = "case v of AdmittedWarm \<Rightarrow> CgLeaving True | AdmittedCold \<Rightarrow> CgLeaving False | _ \<Rightarrow> CgWaiting v"
  have "cg_moves i (?r\<lparr>cq_phase := ?ph\<rparr>) s (cg_wake i now s)"
    using f assms by (cases v) (simp_all add: cg_wake_def t cg_moves_def reserved_def Let_def)
  moreover have "queues (cq_phase (?r\<lparr>cq_phase := ?ph\<rparr>))" by (cases v) simp_all
  moreover have "reserved (?r\<lparr>cq_phase := ?ph\<rparr>) = 0 \<or> cg_granted s (cg_wake i now s)"
  proof (cases "v = AdmittedCold")
    case True
    then have "gate_cold (cg_wake i now s) = g" by (simp add: cg_wake_def t Let_def)
    then show ?thesis using tryAdmit_within [OF t [unfolded True]] by (simp add: cg_granted_def)
  next
    case False
    then show ?thesis by (cases v) (simp_all add: reserved_def)
  qed
  ultimately show ?thesis by blast
qed

lemma cg_write_moves:
  assumes "cg_inv s" "i < length (gate_reqs s)" "cq_phase (gate_reqs s ! i) = CgPlain \<or> (\<exists>d rel. cq_phase (gate_reqs s ! i) = CgCold d rel)"
  shows "\<exists>r'. cg_moves i r' s (cg_write i c now s) \<and> \<not> queues (cq_phase r') \<and>
    reserved r' \<le> reserved (gate_reqs s ! i)"
proof -
  let ?r = "gate_reqs s ! i"
  let ?r1 = "?r\<lparr>cq_rec := sr_call (cq_rec ?r) c\<rparr>"
  show ?thesis
  proof (cases "\<exists>b d. c = CallWrite b \<and> cq_phase ?r = CgCold d False \<and> str_contains b coldGateDeltaMarker")
    case True
    then obtain b d where c: "c = CallWrite b" "cq_phase ?r = CgCold d False" "str_contains b coldGateDeltaMarker"
      by blast
    have "cg_inFlightTokens (cg_release (cq_estimate ?r) (gate_cold s)) =
        cg_inFlightTokens (gate_cold s) - reserved ?r"
      using release_exact [OF assms(1,2)] c(2) by simp
    then have "cg_moves i (?r1\<lparr>cq_phase := CgCold d True\<rparr>) s (cg_write i c now s)"
      using c assms(2) by (simp add: cg_write_def cg_on_delta_def cg_moves_def reserved_def Let_def)
    moreover have "0 \<le> reserved ?r" using reserved_nonneg [OF assms(1)] assms(2) by simp
    ultimately show ?thesis
      by (intro exI [of _ "?r1\<lparr>cq_phase := CgCold d True\<rparr>"]) (simp add: reserved_def)
  next
    case False
    then have "cg_write i c now s = cg_upd i (\<lambda>r. r\<lparr>cq_rec := sr_call (cq_rec r) c\<rparr>) s"
      by (auto simp: cg_write_def Let_def split: write_call.splits cg_phase.splits bool.splits)
    then have "cg_moves i ?r1 s (cg_write i c now s)"
      using assms(2) by (simp add: cg_moves_def reserved_def)
    with assms(3) show ?thesis by (intro exI [of _ ?r1]) (auto simp: reserved_def)
  qed
qed

lemma cg_finish_moves:
  assumes "cg_inv s" "i < length (gate_reqs s)" "cq_phase (gate_reqs s ! i) = CgPlain \<or> (\<exists>d rel. cq_phase (gate_reqs s ! i) = CgCold d rel)"
  shows "cg_moves i ((gate_reqs s ! i)\<lparr>cq_phase := CgDone\<rparr>) s (cg_finish i s)"
  using assms release_exact [OF assms(1,2)]
  by (auto simp: cg_finish_def cg_moves_def reserved_def Let_def split: bool.splits)

lemma cg_actE:
  assumes "cg_act e i s = Some s'" "cg_inv s"
  obtains r' where "i < length (gate_reqs s)" "cg_moves i r' s s'"
    "queues (cq_phase r') \<longrightarrow> queues (cq_phase (gate_reqs s ! i))"
    "reserved r' \<le> reserved (gate_reqs s ! i) \<or> reserved (gate_reqs s ! i) = 0 \<and> cg_granted s s'"
proof -
  have i: "i < length (gate_reqs s)" using assms(1) by (auto simp: cg_act_def split: if_splits)
  have nn: "0 \<le> reserved (gate_reqs s ! i)" using reserved_nonneg [OF assms(2)] i by simp
  note step = assms(1) [unfolded cg_act_def]
  note fwd = cg_write_moves [OF assms(2) i] cg_finish_moves [OF assms(2) i]
  have fin: "\<exists>r'. cg_moves i r' s (cg_finish i s) \<and> \<not> queues (cq_phase r') \<and> reserved r' \<le> reserved (gate_reqs s ! i)"
    "\<exists>r'. cg_moves i r' s (cg_returns i now s) \<and> \<not> queues (cq_phase r') \<and> reserved r' \<le> reserved (gate_reqs s ! i)"
    if ph: "cq_phase (gate_reqs s ! i) = CgPlain \<or> (\<exists>d rel. cq_phase (gate_reqs s ! i) = CgCold d rel)" for now
  proof -
    show "\<exists>r'. cg_moves i r' s (cg_finish i s) \<and> \<not> queues (cq_phase r') \<and> reserved r' \<le> reserved (gate_reqs s ! i)"
      using fwd(2) [OF ph] nn by (intro exI [of _ "(gate_reqs s ! i)\<lparr>cq_phase := CgDone\<rparr>"]) (simp add: reserved_def)
    define t where "t b = s\<lparr>gate_cold := (gate_cold s)\<lparr>cg_bp := b\<rparr>\<rparr>" for b
    have "cg_inv (t b)" for b using assms(2) by (simp add: cg_inv_def queue_count_def t_def)
    then have "cg_moves i ((gate_reqs s ! i)\<lparr>cq_phase := CgDone\<rparr>) (t b) (cg_finish i (t b))" for b
      using cg_finish_moves [of "t b" i] i ph by (simp add: t_def)
    then have "cg_moves i ((gate_reqs s ! i)\<lparr>cq_phase := CgDone\<rparr>) s (cg_returns i now s)"
      by (simp add: cg_returns_def cg_moves_def Let_def t_def)
    then show "\<exists>r'. cg_moves i r' s (cg_returns i now s) \<and> \<not> queues (cq_phase r') \<and> reserved r' \<le> reserved (gate_reqs s ! i)"
      using nn by (intro exI [of _ "(gate_reqs s ! i)\<lparr>cq_phase := CgDone\<rparr>"]) (simp add: reserved_def)
  qed
  show thesis
  proof (cases "cq_phase (gate_reqs s ! i)")
    case (CgWaiting v)
    have q: "0 < gate_queue s" using queue_pos [OF assms(2) i] CgWaiting by simp
    show thesis
    proof (cases e)
      case (CgWake j now)
      with step i CgWaiting have "s' = cg_wake i now s" by simp
      moreover have "reserved (gate_reqs s ! i) = 0" using CgWaiting by (simp add: reserved_def)
      moreover obtain r' where "cg_moves i r' s (cg_wake i now s)" "queues (cq_phase r')"
        "reserved r' = 0 \<or> cg_granted s (cg_wake i now s)"
        using cg_wake_moves [OF i, of now] CgWaiting by auto
      ultimately show thesis using that [of r'] i CgWaiting by auto
    next
      case (CgDeadline j gone)
      with step i CgWaiting have s': "s' = cg_refuse i gone (s\<lparr>gate_queue := gate_queue s - 1\<rparr>)" by simp
      obtain r' where "gate_reqs s' = (gate_reqs s)[i := r']" "cq_phase r' = CgDone"
        "cq_estimate r' = cq_estimate (gate_reqs s ! i)"
        using cg_refuse_fields(3) [of i gone "s\<lparr>gate_queue := gate_queue s - 1\<rparr>"] s' by auto
      with that [of r'] i q CgWaiting show thesis
        by (simp add: cg_moves_def s' cg_refuse_fields reserved_def)
    next
      case (CgClientDone j)
      with step i CgWaiting that [of "(gate_reqs s ! i)\<lparr>cq_phase := CgDone\<rparr>"] q show thesis
        by (simp add: cg_moves_def reserved_def) auto
    qed (use step i CgWaiting in simp_all)
  next
    case (CgLeaving warm)
    have q: "0 < gate_queue s" using queue_pos [OF assms(2) i] CgLeaving by simp
    obtain j now where "e = CgLeave j now" using step i CgLeaving by (auto split: cg_event.splits)
    with step i CgLeaving q that [of "(gate_reqs s ! i)\<lparr>cq_phase := cg_forward_phase warm (cq_estimate (gate_reqs s ! i)) now\<rparr>"]
    show thesis using nn by (cases warm) (auto simp: cg_moves_def reserved_def cg_forward_phase_def)
  next
    case CgPlain
    with step i fwd(1) fin that show thesis by (auto split: cg_event.splits)
  next
    case (CgCold d rel)
    with step i fwd(1) fin that show thesis by (auto split: cg_event.splits)
  next
    case CgDone
    with step i show thesis by simp
  qed
qed

lemma cg_arrive_inv:
  assumes "cg_inv s" "n < 2 ^ 62"
  shows "cg_inv (cg_arrive sid n w gone now s)"
proof -
  let ?est = "cg_estimate n"
  obtain g v where t: "tryAdmitLocked sid ?est now (cg_pruneLocked now (gate_cold s)) = (g, v)"
    by (cases "tryAdmitLocked sid ?est now (cg_pruneLocked now (gate_cold s))")
  have f: "cg_inFlightTokens g = cg_inFlightTokens (gate_cold s) + (if v = AdmittedCold then ?est else 0)"
    using tryAdmit_inFlight [OF t] by simp
  have e: "0 \<le> ?est" using estimate_nonneg [OF assms(2)] .
  define req where "req ph = \<lparr>cq_session = sid, cq_estimate = ?est, cq_phase = ph,
      cq_rec = sr_new (fst w), cq_slot = snd w\<rparr>" for ph
  have add: "cg_inv (s\<lparr>gate_cold := g, gate_queue := q, gate_reqs := gate_reqs s @ [req ph]\<rparr>)"
    if "q = gate_queue s + of_bool (queues ph)" "q \<le> coldGateQueueCapacity"
      "cg_inFlightTokens g = cg_inFlightTokens (gate_cold s) + reserved (req ph)" for ph q
    using that assms(1) e by (auto simp: cg_inv_def queue_count_def req_def)
  have le: "gate_queue s \<le> coldGateQueueCapacity" using assms(1) by (simp add: cg_inv_def)
  have fwd: "cg_inv (s\<lparr>gate_cold := g, gate_reqs := gate_reqs s @ [req (cg_forward_phase warm ?est now)]\<rparr>)"
    if "v = (if warm then AdmittedWarm else AdmittedCold)" for warm
    using add [of "gate_queue s" "cg_forward_phase warm ?est now"] that le f
    by (simp add: cg_forward_phase_def reserved_def req_def split: if_splits)
  consider (warm) "v = AdmittedWarm" | (cold) "v = AdmittedCold"
    | (wait) "v \<noteq> AdmittedWarm" "v \<noteq> AdmittedCold" "gate_queue s < coldGateQueueCapacity"
    | (full) "v \<noteq> AdmittedWarm" "v \<noteq> AdmittedCold" "\<not> gate_queue s < coldGateQueueCapacity" by blast
  then show ?thesis
  proof cases
    case warm
    with fwd [of True] show ?thesis by (simp add: cg_arrive_def t Let_def req_def)
  next
    case cold
    with fwd [of False] show ?thesis by (simp add: cg_arrive_def t Let_def req_def)
  next
    case wait
    with add [of "gate_queue s + 1" "CgWaiting v"] f show ?thesis
      by (simp add: cg_arrive_def t Let_def req_def reserved_def)
  next
    case full
    let ?s = "s\<lparr>gate_cold := g, gate_reqs := gate_reqs s @ [req CgDone]\<rparr>"
    have s': "cg_arrive sid n w gone now s = cg_refuse (length (gate_reqs s)) gone ?s"
      using full by (simp add: cg_arrive_def t Let_def req_def)
    have inv: "cg_inv ?s" using add [of "gate_queue s" CgDone] full f le by (simp add: reserved_def req_def)
    obtain r' where r': "gate_reqs (cg_refuse (length (gate_reqs s)) gone ?s) = (gate_reqs ?s)[length (gate_reqs s) := r']"
      "cq_phase r' = CgDone" "cq_estimate r' = cq_estimate (gate_reqs ?s ! length (gate_reqs s))"
      using cg_refuse_fields(3) [of "length (gate_reqs s)" gone ?s] by blast
    then have "cg_moves (length (gate_reqs s)) r' ?s (cg_arrive sid n w gone now s)"
      by (simp add: s' cg_moves_def cg_refuse_fields reserved_def req_def)
    from cg_moves_inv [OF inv _ this] r'(2) show ?thesis by simp
  qed
qed

text \<open>Bodies whose length, doubled, is an \<open>int64\<close>.\<close>

fun cg_sane :: "cg_event \<Rightarrow> bool" where
  "cg_sane (CgArrive sid n w gone now) \<longleftrightarrow> n < 2 ^ 62"
| "cg_sane _ \<longleftrightarrow> True"

lemma cg_step_cases:
  assumes "cg_step s e = Some s'"
  obtains sid n w gone now where "e = CgArrive sid n w gone now" "s' = cg_arrive sid n w gone now s"
  | i where "cg_act e i s = Some s'"
  using assms by (cases e) (auto simp: cg_step_def)

interpretation coldgate: step_invariant "\<lambda>s. NewColdStartGateWithBackpressure b bp win rate mw t0 = Some s"
  "\<lambda>s e. if cg_sane e then cg_step s e else None" cg_inv for b bp win rate mw t0
proof unfold_locales
  show "cg_inv s" if "NewColdStartGateWithBackpressure b bp win rate mw t0 = Some s" for s
    using that by (auto simp: NewColdStartGateWithBackpressure_def cg_inv_def queue_count_def split: if_splits)
  fix s e s' assume inv: "cg_inv s" and st: "(if cg_sane e then cg_step s e else None) = Some s'"
  then have sane: "cg_sane e" and step: "cg_step s e = Some s'" by (auto split: if_splits)
  from step show "cg_inv s'"
  proof (cases rule: cg_step_cases)
    case (1 sid n w gone now)
    with inv sane cg_arrive_inv show ?thesis by simp
  next
    case (2 i)
    then obtain r' where "i < length (gate_reqs s)" "cg_moves i r' s s'"
      "queues (cq_phase r') \<longrightarrow> queues (cq_phase (gate_reqs s ! i))"
      using cg_actE [OF _ inv] by metis
    with inv show ?thesis by (rule cg_moves_inv)
  qed
qed

lemma run_steps_guard:
  "\<forall>e \<in> set es. P e \<Longrightarrow> run_steps (\<lambda>s e. if P e then step s e else None) s es = run_steps step s es"
  by (induction es arbitrary: s) (auto split: option.splits)

section \<open>The budget\<close>

text \<open>
  The budget of the moment is the configured one or the controller's, which never exceeds it. The
  tokens in flight exceed the configured budget only when one request holds them all.
\<close>

definition holders :: "cold_gate \<Rightarrow> nat" where
  "holders s = length (filter (\<lambda>r. 0 < reserved r) (gate_reqs s))"

definition budget_ok :: "int \<Rightarrow> cold \<Rightarrow> bool" where
  "budget_ok b g \<longleftrightarrow>
     0 < b \<and> (case cg_bp g of None \<Rightarrow> cg_budget g = b | Some c \<Rightarrow> bp_inv b c \<and> b < 2 ^ 63 - 8192)"

definition cg_budget_inv :: "int \<Rightarrow> cold_gate \<Rightarrow> bool" where
  "cg_budget_inv b s \<longleftrightarrow>
     cg_inv s \<and> budget_ok b (gate_cold s) \<and> (cg_inFlightTokens (gate_cold s) \<le> b \<or> holders s \<le> 1)"

lemma budget_ok_frame:
  "cg_bp g' = cg_bp g \<Longrightarrow> cg_budget g' = cg_budget g \<Longrightarrow> budget_ok b g \<Longrightarrow> budget_ok b g'"
  by (auto simp: budget_ok_def split: option.splits)

lemma effectiveBudget_bounds:
  "budget_ok b g \<Longrightarrow> 1 \<le> effectiveBudget g \<and> effectiveBudget g \<le> b"
  using bp_invD(5,7) by (auto simp: budget_ok_def effectiveBudget_def bp_Budget_def split: option.splits)

text \<open>What the controller observes keeps its budget within the bounds.\<close>

lemma observed_inv:
  assumes "bp_inv b c" "b < 2 ^ 63 - 8192"
  shows "bp_inv b (ObserveColdTTFT now t c)" "bp_inv b (ObserveStatus now st c)"
  using rollLocked_inv [OF assms] by (simp_all add: ObserveColdTTFT_def ObserveStatus_def Let_def)

lemma budget_ok_observed:
  assumes "budget_ok b g" "cg_budget g' = cg_budget g"
    and "cg_bp g' = map_option (ObserveColdTTFT now t) (cg_bp g) \<or> cg_bp g' = map_option (ObserveStatus now st) (cg_bp g)"
  shows "budget_ok b g'"
  using assms observed_inv [of b _ now] by (cases "cg_bp g") (auto simp: budget_ok_def)

lemma tryAdmit_frame:
  "tryAdmitLocked sid est now g = (g', v) \<Longrightarrow> cg_bp g' = cg_bp g \<and> cg_budget g' = cg_budget g"
  by (auto simp: tryAdmitLocked_def Let_def split: if_splits)

lemma cg_refuse_cold [simp]: "gate_cold (cg_refuse i gone s) = gate_cold s"
  by (rule cg_refuse_fields)

lemma cg_wake_frame:
  "cg_bp (gate_cold (cg_wake i now s)) = cg_bp (gate_cold s) \<and>
   cg_budget (gate_cold (cg_wake i now s)) = cg_budget (gate_cold s)"
proof -
  let ?r = "gate_reqs s ! i"
  obtain g v where t: "tryAdmitLocked (cq_session ?r) (cq_estimate ?r) now (cg_pruneLocked now (gate_cold s)) = (g, v)"
    by (cases "tryAdmitLocked (cq_session ?r) (cq_estimate ?r) now (cg_pruneLocked now (gate_cold s))")
  have "gate_cold (cg_wake i now s) = g" by (simp add: cg_wake_def t Let_def)
  with tryAdmit_frame [OF t] show ?thesis by simp
qed

lemma cg_forward_budget:
  assumes "budget_ok b (gate_cold s)"
  shows "budget_ok b (gate_cold (cg_write i c now s))" "budget_ok b (gate_cold (cg_finish i s))"
    "budget_ok b (gate_cold (cg_returns i now s))"
proof -
  have fin: "budget_ok b (gate_cold (cg_finish i t))" if "budget_ok b (gate_cold t)" for t
    by (rule budget_ok_frame [OF _ _ that])
       (auto simp: cg_finish_def cg_release_def Let_def split: cg_phase.splits bool.splits)
  from fin [OF assms] show "budget_ok b (gate_cold (cg_finish i s))" .
  have "budget_ok b ((gate_cold s)\<lparr>cg_bp := map_option (ObserveStatus now st) (cg_bp (gate_cold s))\<rparr>)" for st
    by (rule budget_ok_observed [OF assms]) auto
  then show "budget_ok b (gate_cold (cg_returns i now s))" unfolding cg_returns_def Let_def by (intro fin) simp
  have "budget_ok b (gate_cold (cg_on_delta i d now t))" if "gate_cold t = gate_cold s" for d t
    using budget_ok_observed [OF assms, of "gate_cold (cg_on_delta i d now t)" now "of_int (now - d) / of_int second_ns"] that
    by (simp add: cg_on_delta_def cg_release_def Let_def)
  then show "budget_ok b (gate_cold (cg_write i c now s))"
    using assms by (auto simp: cg_write_def Let_def split: write_call.splits cg_phase.splits bool.splits)
qed

lemma cg_act_frame:
  assumes "cg_act e i s = Some s'" "budget_ok b (gate_cold s)"
  shows "budget_ok b (gate_cold s')"
proof -
  have i: "i < length (gate_reqs s)" using assms(1) by (auto simp: cg_act_def split: if_splits)
  note step = assms(1) [unfolded cg_act_def] and fr = cg_forward_budget [OF assms(2)]
  have wake: "budget_ok b (gate_cold (cg_wake j now s))" for j now
    using cg_wake_frame budget_ok_frame [OF _ _ assms(2)] by blast
  show ?thesis
  proof (cases "cq_phase (gate_reqs s ! i)")
    case (CgWaiting v)
    with step i assms(2) wake show ?thesis by (auto split: cg_event.splits)
  next
    case (CgLeaving warm)
    with step i assms(2) show ?thesis by (auto split: cg_event.splits)
  next
    case CgPlain
    with step i fr show ?thesis by (auto split: cg_event.splits)
  next
    case (CgCold d rel)
    with step i fr show ?thesis by (auto split: cg_event.splits)
  next
    case CgDone
    with step i show ?thesis by simp
  qed
qed

lemma holders_zero:
  assumes "cg_inv s" "cg_inFlightTokens (gate_cold s) \<le> 0"
  shows "holders s = 0"
proof -
  have "\<not> 0 < reserved r" if r: "r \<in> set (gate_reqs s)" for r
  proof -
    obtain i where "i < length (gate_reqs s)" "r = gate_reqs s ! i" using r by (auto simp: in_set_conv_nth)
    then have "reserved r \<le> sum_list (map reserved (gate_reqs s))"
      using sum_list_ge_member [OF reserved_nonneg [OF assms(1)]] by blast
    with assms show ?thesis by (simp add: cg_inv_def)
  qed
  then show ?thesis by (simp add: holders_def filter_empty_conv)
qed

lemma cg_act_budget:
  assumes "cg_budget_inv b s" "cg_act e i s = Some s'"
  shows "cg_budget_inv b s'"
proof -
  have inv: "cg_inv s" and bud: "budget_ok b (gate_cold s)"
    and or': "cg_inFlightTokens (gate_cold s) \<le> b \<or> holders s \<le> 1"
    using assms(1) by (simp_all add: cg_budget_inv_def)
  note eff = effectiveBudget_bounds [OF bud]
  obtain r' where i: "i < length (gate_reqs s)" and mv: "cg_moves i r' s s'"
    and q: "queues (cq_phase r') \<longrightarrow> queues (cq_phase (gate_reqs s ! i))"
    and res: "reserved r' \<le> reserved (gate_reqs s ! i) \<or> reserved (gate_reqs s ! i) = 0 \<and> cg_granted s s'"
    by (rule cg_actE [OF assms(2) inv])
  have h: "int (holders s') = int (holders s) + of_bool (0 < reserved r') - of_bool (0 < reserved (gate_reqs s ! i))"
    using i mv by (simp add: holders_def cg_moves_def length_filter_update)
  have tok: "cg_inFlightTokens (gate_cold s') = cg_inFlightTokens (gate_cold s) + reserved r' - reserved (gate_reqs s ! i)"
    using mv by (simp add: cg_moves_def)
  have "cg_inFlightTokens (gate_cold s') \<le> b \<or> holders s' \<le> 1"
    using res
  proof
    assume le: "reserved r' \<le> reserved (gate_reqs s ! i)"
    then have "holders s' \<le> holders s"
      using h by (cases "0 < reserved r'"; cases "0 < reserved (gate_reqs s ! i)") simp_all
    with or' tok le show ?thesis by linarith
  next
    assume g: "reserved (gate_reqs s ! i) = 0 \<and> cg_granted s s'"
    then have "cg_inFlightTokens (gate_cold s) \<le> 0 \<or> cg_inFlightTokens (gate_cold s') \<le> b"
      using eff by (auto simp: cg_granted_def)
    then show ?thesis
    proof
      assume "cg_inFlightTokens (gate_cold s) \<le> 0"
      then have "holders s = 0" by (rule holders_zero [OF inv])
      then have "int (holders s') \<le> 1" using h by (cases "0 < reserved r'") simp_all
      then show ?thesis by linarith
    qed simp
  qed
  with cg_moves_inv [OF inv i mv q] cg_act_frame [OF assms(2) bud] show ?thesis
    by (simp add: cg_budget_inv_def)
qed

lemma cg_arrive_adds:
  "\<exists>r. gate_reqs (cg_arrive sid n w gone now s) = gate_reqs s @ [r] \<and>
     cg_inFlightTokens (gate_cold (cg_arrive sid n w gone now s)) = cg_inFlightTokens (gate_cold s) + reserved r \<and>
     (reserved r = 0 \<or> cg_granted s (cg_arrive sid n w gone now s)) \<and>
     cg_bp (gate_cold (cg_arrive sid n w gone now s)) = cg_bp (gate_cold s) \<and>
     cg_budget (gate_cold (cg_arrive sid n w gone now s)) = cg_budget (gate_cold s)"
proof -
  let ?est = "cg_estimate n" and ?s' = "cg_arrive sid n w gone now s"
  obtain g v where t: "tryAdmitLocked sid ?est now (cg_pruneLocked now (gate_cold s)) = (g, v)"
    by (cases "tryAdmitLocked sid ?est now (cg_pruneLocked now (gate_cold s))")
  have f: "cg_inFlightTokens g = cg_inFlightTokens (gate_cold s) + (if v = AdmittedCold then ?est else 0)"
    using tryAdmit_inFlight [OF t] by simp
  have fr: "cg_bp g = cg_bp (gate_cold s)" "cg_budget g = cg_budget (gate_cold s)"
    using tryAdmit_frame [OF t] by simp_all
  have cold: "gate_cold ?s' = g" by (simp add: cg_arrive_def t Let_def)
  let ?req = "\<lambda>ph. \<lparr>cq_session = sid, cq_estimate = ?est, cq_phase = ph,
      cq_rec = sr_new (fst w), cq_slot = snd w\<rparr>"
  have "\<exists>r. gate_reqs ?s' = gate_reqs s @ [r] \<and> reserved r = (if v = AdmittedCold then ?est else 0)"
  proof (cases v)
    case AdmittedWarm
    then show ?thesis
      by (intro exI [of _ "?req (cg_forward_phase True ?est now)"])
         (simp add: cg_arrive_def t Let_def reserved_def cg_forward_phase_def)
  next
    case AdmittedCold
    then show ?thesis
      by (intro exI [of _ "?req (cg_forward_phase False ?est now)"])
         (simp add: cg_arrive_def t Let_def reserved_def cg_forward_phase_def)
  next
    case BlockedBudget
    obtain r' where "gate_reqs (cg_refuse (length (gate_reqs s)) gone (s\<lparr>gate_cold := g, gate_reqs := gate_reqs s @ [?req CgDone]\<rparr>))
        = gate_reqs s @ [r']" "cq_phase r' = CgDone"
      using cg_refuse_fields(3) [of "length (gate_reqs s)" gone "s\<lparr>gate_cold := g, gate_reqs := gate_reqs s @ [?req CgDone]\<rparr>"]
      by auto
    with BlockedBudget show ?thesis
      by (cases "gate_queue s < coldGateQueueCapacity") (auto simp: cg_arrive_def t Let_def reserved_def)
  next
    case BlockedRate
    obtain r' where "gate_reqs (cg_refuse (length (gate_reqs s)) gone (s\<lparr>gate_cold := g, gate_reqs := gate_reqs s @ [?req CgDone]\<rparr>))
        = gate_reqs s @ [r']" "cq_phase r' = CgDone"
      using cg_refuse_fields(3) [of "length (gate_reqs s)" gone "s\<lparr>gate_cold := g, gate_reqs := gate_reqs s @ [?req CgDone]\<rparr>"]
      by auto
    with BlockedRate show ?thesis
      by (cases "gate_queue s < coldGateQueueCapacity") (auto simp: cg_arrive_def t Let_def reserved_def)
  qed
  then obtain r where r: "gate_reqs ?s' = gate_reqs s @ [r]" "reserved r = (if v = AdmittedCold then ?est else 0)"
    by blast
  moreover have "reserved r = 0 \<or> cg_granted s ?s'"
  proof (cases "v = AdmittedCold")
    case True
    show ?thesis using tryAdmit_within [OF t [unfolded True]] by (simp add: cg_granted_def cold)
  qed (simp add: r(2))
  ultimately show ?thesis using f fr cold by (intro exI [of _ r]) simp
qed

lemma cg_arrive_budget:
  assumes "cg_budget_inv b s" "n < 2 ^ 62"
  shows "cg_budget_inv b (cg_arrive sid n w gone now s)"
proof -
  let ?s' = "cg_arrive sid n w gone now s"
  have inv: "cg_inv s" and bud: "budget_ok b (gate_cold s)"
    and or': "cg_inFlightTokens (gate_cold s) \<le> b \<or> holders s \<le> 1"
    using assms(1) by (simp_all add: cg_budget_inv_def)
  note eff = effectiveBudget_bounds [OF bud]
  obtain r where r: "gate_reqs ?s' = gate_reqs s @ [r]"
    "cg_inFlightTokens (gate_cold ?s') = cg_inFlightTokens (gate_cold s) + reserved r"
    "reserved r = 0 \<or> cg_granted s ?s'" and fr: "cg_bp (gate_cold ?s') = cg_bp (gate_cold s)"
    "cg_budget (gate_cold ?s') = cg_budget (gate_cold s)"
    using cg_arrive_adds [of sid n w gone now s] by metis
  have h: "holders ?s' = holders s + of_bool (0 < reserved r)" by (simp add: holders_def r(1))
  have "cg_inFlightTokens (gate_cold ?s') \<le> b \<or> holders ?s' \<le> 1"
    using r(3)
  proof
    assume "reserved r = 0"
    with or' h r(2) show ?thesis by simp
  next
    assume "cg_granted s ?s'"
    then have "cg_inFlightTokens (gate_cold s) \<le> 0 \<or> cg_inFlightTokens (gate_cold ?s') \<le> b"
      using eff by (auto simp: cg_granted_def)
    then show ?thesis
    proof
      assume "cg_inFlightTokens (gate_cold s) \<le> 0"
      then have "holders s = 0" by (rule holders_zero [OF inv])
      then show ?thesis using h by simp
    qed simp
  qed
  with cg_arrive_inv [OF inv assms(2)] budget_ok_frame [OF fr bud] show ?thesis by (simp add: cg_budget_inv_def)
qed

text \<open>As the factory wires it: the controller's ceiling is the configured budget.\<close>

interpretation coldbudget: step_invariant
  "\<lambda>s. 0 < b \<and> (th \<le> 0 \<or> b < 2 ^ 63 - 8192) \<and>
     NewColdStartGateWithBackpressure b (NewTTFTBackpressure b th) win rate mw t0 = Some s"
  "\<lambda>s e. if cg_sane e then cg_step s e else None" "cg_budget_inv b" for b th win rate mw t0
proof unfold_locales
  fix s assume start: "0 < b \<and> (th \<le> 0 \<or> b < 2 ^ 63 - 8192) \<and>
     NewColdStartGateWithBackpressure b (NewTTFTBackpressure b th) win rate mw t0 = Some s"
  have "bp_inv b c \<and> b < 2 ^ 63 - 8192" if "NewTTFTBackpressure b th = Some c" for c
    using that start backpressure.start_inv [of b th c] by (auto simp: bp_ok_def NewTTFTBackpressure_def split: if_splits)
  then show "cg_budget_inv b s"
    using start coldgate.start_inv [of b "NewTTFTBackpressure b th" win rate mw t0 s]
    by (auto simp: NewColdStartGateWithBackpressure_def cg_budget_inv_def budget_ok_def split: if_splits option.splits)
next
  fix s e s' assume inv: "cg_budget_inv b s" and st: "(if cg_sane e then cg_step s e else None) = Some s'"
  then have sane: "cg_sane e" and step: "cg_step s e = Some s'" by (auto split: if_splits)
  from step show "cg_budget_inv b s'"
  proof (cases rule: cg_step_cases)
    case (1 sid n w gone now)
    with inv sane cg_arrive_budget show ?thesis by simp
  next
    case (2 i)
    with inv cg_act_budget show ?thesis by blast
  qed
qed

text \<open>Only an admission adds tokens, and an admission is granted by the budget of that moment.\<close>

lemma cg_step_granted:
  assumes "cg_inv s" "cg_step s e = Some s'" "cg_InFlight s < cg_InFlight s'"
  shows "cg_granted s s'"
  using assms(2)
proof (cases rule: cg_step_cases)
  case (1 sid n w gone now)
  obtain r where "cg_inFlightTokens (gate_cold s') = cg_inFlightTokens (gate_cold s) + reserved r"
    "reserved r = 0 \<or> cg_granted s s'"
    using cg_arrive_adds [of sid n w gone now s] 1(2) by metis
  then show ?thesis using assms(3) by (auto simp: cg_InFlight_def)
next
  case (2 i)
  obtain r' where "cg_moves i r' s s'"
    "reserved r' \<le> reserved (gate_reqs s ! i) \<or> reserved (gate_reqs s ! i) = 0 \<and> cg_granted s s'"
    by (rule cg_actE [OF 2 assms(1)])
  then show ?thesis using assms(3) by (auto simp: cg_InFlight_def cg_moves_def)
qed

section \<open>The rate bucket\<close>

datatype cold_op = TryAdmit string int time | Release int | Prune time

text \<open>A sequence of critical sections; the count is of cold admissions.\<close>

fun cold_ops :: "cold_op list \<Rightarrow> cold \<Rightarrow> cold \<times> nat" where
  "cold_ops [] g = (g, 0)"
| "cold_ops (op # ops) g =
     (case op of
        TryAdmit sid est now \<Rightarrow>
          (case tryAdmitLocked sid est now g of
             (g', v) \<Rightarrow> (case cold_ops ops g' of (g'', n) \<Rightarrow> (g'', if v = AdmittedCold then n + 1 else n)))
      | Release est \<Rightarrow> cold_ops ops (cg_release est g)
      | Prune now \<Rightarrow> cold_ops ops (cg_pruneLocked now g))"

text \<open>The clock does not run backwards and ends at \<open>t\<close>.\<close>

fun clocked :: "time \<Rightarrow> cold_op list \<Rightarrow> time \<Rightarrow> bool" where
  "clocked t0 [] t \<longleftrightarrow> t0 \<le> t"
| "clocked t0 (op # ops) t \<longleftrightarrow>
     (case op of TryAdmit sid est now \<Rightarrow> t0 \<le> now \<and> clocked now ops t
      | Release est \<Rightarrow> clocked t0 ops t | Prune now \<Rightarrow> clocked t0 ops t)"

lemma clocked_le: "clocked t0 ops t \<Longrightarrow> t0 \<le> t"
  by (induction ops arbitrary: t0) (force split: cold_op.splits)+

definition bucket_ok :: "int \<Rightarrow> cold \<Rightarrow> bool" where
  "bucket_ok P g \<longleftrightarrow> 0 < P \<and> 0 < cg_rate g \<and> minute_ns = cg_rate g * P \<and>
     0 \<le> cg_rateTokens g \<and> cg_rateTokens g \<le> 1"

lemma earned_eq:
  assumes "bucket_ok P g" "0 \<le> d" "d * cg_rate g < 2 ^ 63"
  shows "go_div (wrap64 (d * cg_rate g)) minute_ns = d div P"
proof -
  have m: "minute_ns = cg_rate g * P" and r: "0 < cg_rate g" and p: "0 < P"
    using assms(1) by (simp_all add: bucket_ok_def)
  have nn: "0 \<le> d * cg_rate g" using assms(2) r by simp
  then have "wrap64 (d * cg_rate g) = d * cg_rate g" using assms(3) by (intro wrap64_id) linarith+
  moreover have "d * cg_rate g div (cg_rate g * P) = d div P"
    using r by (simp add: mult.commute [of d])
  ultimately show ?thesis using r p nn by (simp add: m)
qed

lemma advance_eq:
  assumes "bucket_ok P g" "0 \<le> k" "k * minute_ns < 2 ^ 63"
  shows "go_div (wrap64 (k * minute_ns)) (cg_rate g) = k * P"
proof -
  have m: "minute_ns = cg_rate g * P" and r: "0 < cg_rate g" and p: "0 < P"
    using assms(1) by (simp_all add: bucket_ok_def)
  have nn: "0 \<le> k * minute_ns" using assms(2) minute_ns_pos by (intro mult_nonneg_nonneg) linarith+
  then have "wrap64 (k * minute_ns) = k * minute_ns" using assms(3) by (intro wrap64_id) linarith+
  moreover have "k * minute_ns div cg_rate g = k * P" using r by (simp add: m)
  ultimately show ?thesis using nn r by simp
qed

lemma refill_eq:
  assumes "bucket_ok P g" "cg_rateLastRefill g \<le> now" "(now - cg_rateLastRefill g) * cg_rate g < 2 ^ 63"
  shows "refillLocked now g =
    (if cg_rateTokens g = 1 then g\<lparr>cg_rateLastRefill := now\<rparr>
     else if now - cg_rateLastRefill g < P then g
     else g\<lparr>cg_rateTokens := 1,
            cg_rateLastRefill := cg_rateLastRefill g + (now - cg_rateLastRefill g) div P * P\<rparr>)"
proof -
  let ?d = "now - cg_rateLastRefill g"
  have ok: "0 < P" "0 < cg_rate g" "0 \<le> cg_rateTokens g" "cg_rateTokens g \<le> 1" "minute_ns = cg_rate g * P"
    using assms(1) by (simp_all add: bucket_ok_def)
  have d: "0 \<le> ?d" using assms(2) by simp
  note earned = earned_eq [OF assms(1) d assms(3)]
  show ?thesis
  proof (cases "cg_rateTokens g = 1")
    case True
    then show ?thesis using ok by (simp add: refillLocked_def coldGateRateTokenCap_def)
  next
    case False
    then have zero: "cg_rateTokens g = 0" using ok by simp
    have lt: "?d div P \<le> 0 \<longleftrightarrow> ?d < P"
      using d ok(1) by (auto simp: pos_imp_zdiv_pos_iff not_less simp flip: not_less)
    have "?d div P * minute_ns = (?d div P * P) * cg_rate g" by (simp add: ok(5))
    also have "\<dots> \<le> ?d * cg_rate g"
    proof (rule mult_right_mono)
      show "?d div P * P \<le> ?d"
        using div_mult_mod_eq [of ?d P] pos_mod_sign [OF ok(1), of ?d] by linarith
    qed (use ok(2) in simp)
    finally have "?d div P * minute_ns < 2 ^ 63" using assms(3) by linarith
    then have adv: "go_div (wrap64 (?d div P * minute_ns)) (cg_rate g) = ?d div P * P"
      using d ok(1) by (intro advance_eq [OF assms(1)]) (simp_all add: pos_imp_zdiv_nonneg_iff)
    have pos: "\<not> cg_rate g \<le> 0" "\<not> 1 \<le> cg_rateTokens g" using ok(2) zero by simp_all
    show ?thesis
    proof (cases "?d < P")
      case True
      then show ?thesis
        unfolding refillLocked_def Let_def earned coldGateRateTokenCap_def using pos zero lt by simp
    next
      case False
      then have "\<not> ?d div P \<le> 0" using lt by simp
      moreover from this have "(if 1 < cg_rateTokens g + ?d div P then 1 else cg_rateTokens g + ?d div P) = 1"
        using zero by simp
      ultimately show ?thesis
        unfolding refillLocked_def Let_def earned coldGateRateTokenCap_def adv
        using pos False zero by (simp only: if_False simp_thms) simp
    qed
  qed
qed

text \<open>What one attempt pays into and takes out of the bucket.\<close>

lemma tryAdmit_bucket:
  assumes "bucket_ok P g" "cg_rateLastRefill g \<le> now" "(now - cg_rateLastRefill g) * cg_rate g < 2 ^ 63"
    and "tryAdmitLocked sid est now g = (g', v)"
  shows "bucket_ok P g'" "cg_rate g' = cg_rate g" "cg_rateLastRefill g \<le> cg_rateLastRefill g'"
    "cg_rateLastRefill g' \<le> now"
    "of_bool (v = AdmittedCold) * P + cg_rateTokens g' * P
       \<le> cg_rateTokens g * P + (cg_rateLastRefill g' - cg_rateLastRefill g)"
proof -
  let ?a = "cg_rateLastRefill g" and ?d = "now - cg_rateLastRefill g" and ?g1 = "refillLocked now g"
  have ok: "0 < P" "0 < cg_rate g" "0 \<le> cg_rateTokens g" "cg_rateTokens g \<le> 1" "minute_ns = cg_rate g * P"
    using assms(1) by (simp_all add: bucket_ok_def)
  have dv: "?d div P * P \<le> ?d" "0 \<le> ?d div P" "0 \<le> ?d div P * P"
  proof -
    show "?d div P * P \<le> ?d" using div_mult_mod_eq [of ?d P] pos_mod_sign [OF ok(1), of ?d] by linarith
    show "0 \<le> ?d div P" "0 \<le> ?d div P * P" using assms(2) ok(1) by (simp_all add: pos_imp_zdiv_nonneg_iff)
  qed
  have r1: "0 \<le> cg_rateTokens ?g1 \<and> cg_rateTokens ?g1 \<le> 1 \<and> ?a \<le> cg_rateLastRefill ?g1 \<and> cg_rateLastRefill ?g1 \<le> now \<and>
      cg_rateTokens ?g1 * P \<le> cg_rateTokens g * P + (cg_rateLastRefill ?g1 - ?a)"
  proof (cases "cg_rateTokens g = 1")
    case True
    then show ?thesis using refill_eq [OF assms(1-3)] assms(2) by simp
  next
    case False
    then have zero: "cg_rateTokens g = 0" using ok(3,4) by simp
    show ?thesis
    proof (cases "?d < P")
      case True
      then show ?thesis using refill_eq [OF assms(1-3)] assms(2) zero by simp
    next
      case far: False
      then have "1 \<le> ?d div P" using ok(1) by (simp add: pos_imp_zdiv_pos_iff int_one_le_iff_zero_less)
      then have "P \<le> ?d div P * P" using ok(1) by simp
      then show ?thesis using refill_eq [OF assms(1-3)] False far zero dv by simp
    qed
  qed
  have res: "bucket_ok P g' \<and> cg_rate g' = cg_rate g \<and> ?a \<le> cg_rateLastRefill g' \<and> cg_rateLastRefill g' \<le> now \<and>
    of_bool (v = AdmittedCold) * P + cg_rateTokens g' * P \<le> cg_rateTokens g * P + (cg_rateLastRefill g' - ?a)"
  proof (cases v)
    case AdmittedWarm
    then have "g' = g\<lparr>cg_seen := (cg_seen g)(sid \<mapsto> now)\<rparr>"
      using assms(4) by (auto simp: tryAdmitLocked_def Let_def split: if_splits)
    then show ?thesis using AdmittedWarm assms(1,2) by (simp add: bucket_ok_def)
  next
    case BlockedBudget
    then have "g' = g" using assms(4) by (auto simp: tryAdmitLocked_def Let_def split: if_splits)
    then show ?thesis using BlockedBudget assms(1,2) by simp
  next
    case BlockedRate
    then have "g' = ?g1" using assms(4) by (auto simp: tryAdmitLocked_def Let_def split: if_splits)
    then show ?thesis using BlockedRate r1 ok by (simp add: bucket_ok_def)
  next
    case AdmittedCold
    then have c: "1 \<le> cg_rateTokens ?g1" "cg_rateTokens g' = cg_rateTokens ?g1 - 1"
      "cg_rateLastRefill g' = cg_rateLastRefill ?g1" "cg_rate g' = cg_rate g"
      using assms(4) ok(2) by (auto simp: tryAdmitLocked_def Let_def split: if_splits)
    then have "cg_rateTokens ?g1 = 1" using r1 by linarith
    then show ?thesis using c r1 ok AdmittedCold by (auto simp: bucket_ok_def)
  qed
  then show "bucket_ok P g'" "cg_rate g' = cg_rate g" "?a \<le> cg_rateLastRefill g'"
    "cg_rateLastRefill g' \<le> now"
    "of_bool (v = AdmittedCold) * P + cg_rateTokens g' * P \<le> cg_rateTokens g * P + (cg_rateLastRefill g' - ?a)"
    by blast+
qed

lemma bucket_frame:
  "cg_rateTokens (cg_release est g) = cg_rateTokens g" "cg_rateLastRefill (cg_release est g) = cg_rateLastRefill g"
  "cg_rate (cg_release est g) = cg_rate g" "bucket_ok P (cg_release est g) = bucket_ok P g"
  "bucket_ok P (cg_pruneLocked now g) = bucket_ok P g"
  by (simp_all add: cg_release_def bucket_ok_def)

lemma cold_ops_bucket:
  assumes "bucket_ok P g" "cg_rateLastRefill g \<le> t0" "clocked t0 ops t"
    "(t - cg_rateLastRefill g) * cg_rate g < 2 ^ 63" "cold_ops ops g = (g', n)"
  shows "bucket_ok P g' \<and> cg_rateLastRefill g' \<le> t \<and>
    int n * P + cg_rateTokens g' * P \<le> cg_rateTokens g * P + (cg_rateLastRefill g' - cg_rateLastRefill g)"
  using assms
proof (induction ops arbitrary: g t0 n)
  case Nil
  then show ?case by simp
next
  case (Cons op ops)
  show ?case
  proof (cases op)
    case (TryAdmit sid est now)
    obtain g1 v where t: "tryAdmitLocked sid est now g = (g1, v)"
      by (cases "tryAdmitLocked sid est now g")
    obtain n1 where rest: "cold_ops ops g1 = (g', n1)" and n: "n = (if v = AdmittedCold then n1 + 1 else n1)"
      using Cons.prems(5) by (cases "cold_ops ops g1") (auto simp: TryAdmit t)
    have ck: "t0 \<le> now" "clocked now ops t" using Cons.prems(3) by (simp_all add: TryAdmit)
    have le: "cg_rateLastRefill g \<le> now" "now \<le> t" using Cons.prems(2) ck clocked_le by force+
    have r: "0 < cg_rate g" using Cons.prems(1) by (simp add: bucket_ok_def)
    have "(now - cg_rateLastRefill g) * cg_rate g \<le> (t - cg_rateLastRefill g) * cg_rate g"
      using le r by (intro mult_right_mono) simp_all
    then have now: "(now - cg_rateLastRefill g) * cg_rate g < 2 ^ 63" using Cons.prems(4) by linarith
    note b = tryAdmit_bucket [OF Cons.prems(1) le(1) now t]
    have "(t - cg_rateLastRefill g1) * cg_rate g1 \<le> (t - cg_rateLastRefill g) * cg_rate g"
      using b(2,3) r by (simp add: mult_right_mono)
    then have "(t - cg_rateLastRefill g1) * cg_rate g1 < 2 ^ 63" using Cons.prems(4) by linarith
    from Cons.IH [OF b(1,4) ck(2) this rest] b(5) n show ?thesis by (auto simp: distrib_right)
  next
    case (Release est)
    with Cons.prems Cons.IH [of "cg_release est g" t0 n] show ?thesis by (simp add: bucket_frame)
  next
    case (Prune now)
    with Cons.prems Cons.IH [of "cg_pruneLocked now g" t0 n] show ?thesis by (simp add: bucket_frame)
  qed
qed

lemma warm_prune: "cg_warm sid now (cg_pruneLocked now g) = cg_warm sid now g"
  by (auto simp: cg_warm_def cg_pruneLocked_def Let_def split: option.splits)

lemma refill_prune:
  "cg_rateTokens (refillLocked now (cg_pruneLocked now' g)) = cg_rateTokens (refillLocked now g)"
  by (simp add: refillLocked_def Let_def)

section \<open>Properties\<close>

definition ex_cold :: "int \<Rightarrow> int \<Rightarrow> cold" where
  "ex_cold b rate = \<lparr>cg_budget = b, cg_bp = None, cg_window = 600 * second_ns, cg_rate = rate,
     cg_maxWait = 30 * second_ns, cg_seen = Map.empty, cg_lastPrune = None, cg_inFlightTokens = 0,
     cg_rateTokens = 1, cg_rateLastRefill = 0\<rparr>"

lemma ex_cold_gate:
  "NewColdStartGate b 0 rate 0 0 = Some \<lparr>gate_cold = ex_cold b rate, gate_queue = 0, gate_reqs = [],
     gate_delayed = 0, gate_refused = 0, gate_ttft = []\<rparr>" if "0 < b \<or> 0 < rate"
  using that by (auto simp: NewColdStartGate_def NewColdStartGateWithBackpressure_def ex_cold_def
      coldGateDefaultSessionWindow_def coldGateMaxWait_def coldGateRateTokenCap_def)

definition ex_cg_arrive :: "string \<Rightarrow> int \<Rightarrow> time \<Rightarrow> cg_event" where
  "ex_cg_arrive sid n now = CgArrive sid n (fresh_response, Some []) False now"

lemmas cg_eval =
  ex_cg_arrive_def cg_step_def cg_arrive_def cg_act_def cg_wake_def cg_upd_def cg_write_def cg_on_delta_def
  cg_finish_def cg_returns_def cg_release_def cg_estimate_def tryAdmitLocked_def cg_warm_def
  effectiveBudget_def refillLocked_def cg_pruneLocked_def ex_cold_def coldGateRateTokenCap_def
  coldGateQueueCapacity_def cg_forward_phase_def wrap64_def second_ns_def Let_def

text \<open>
  C14. In every run of the gate, with any interleaving: the token count is exactly the sum
  of the estimates of the admitted cold requests that have not released their reservation,
  so each reservation is freed exactly once, and the number of occupied queue slots is the
  number of requests waiting or about to leave the queue, at most 32.
\<close>

theorem cold_reservations_exact:
  assumes "NewColdStartGateWithBackpressure b bp win rate mw t0 = Some s0"
    and "run_steps cg_step s0 es = Some s" "\<forall>e \<in> set es. cg_sane e"
  shows "cg_InFlight s = sum_list (map reserved (gate_reqs s)) \<and>
         gate_queue s = length (filter (\<lambda>r. queues (cq_phase r)) (gate_reqs s)) \<and> gate_queue s \<le> 32"
proof -
  have "cg_inv s"
    using coldgate.reachable_inv [OF assms(1), of es s] run_steps_guard [OF assms(3), of cg_step s0] assms(2)
    by simp
  then show ?thesis by (simp add: cg_inv_def cg_InFlight_def queue_count_def coldGateQueueCapacity_def)
qed

theorem cold_reservations_exact_witness:
  "\<exists>s0 s. NewColdStartGateWithBackpressure 1000 None 0 0 0 0 = Some s0 \<and>
     run_steps cg_step s0 [ex_cg_arrive ''a'' 700 1, ex_cg_arrive ''b'' 3500 2] = Some s \<and>
     map cq_phase (gate_reqs s) = [CgCold 1 False, CgWaiting BlockedBudget] \<and>
     cg_InFlight s = sum_list (map reserved (gate_reqs s))"
proof -
  let ?s0 = "\<lparr>gate_cold = ex_cold 1000 0, gate_queue = 0, gate_reqs = [],
     gate_delayed = 0, gate_refused = 0, gate_ttft = []\<rparr>"
  let ?es = "[ex_cg_arrive ''a'' 700 1, ex_cg_arrive ''b'' 3500 2]"
  have s0: "NewColdStartGateWithBackpressure 1000 None 0 0 0 0 = Some ?s0"
    using ex_cold_gate [of 1000 0] by (simp add: NewColdStartGate_def)
  have "\<exists>s. run_steps cg_step ?s0 ?es = Some s \<and> map cq_phase (gate_reqs s) = [CgCold 1 False, CgWaiting BlockedBudget]"
    by (simp add: cg_eval)
  then obtain s where s: "run_steps cg_step ?s0 ?es = Some s"
    "map cq_phase (gate_reqs s) = [CgCold 1 False, CgWaiting BlockedBudget]" by metis
  have "\<forall>e \<in> set ?es. cg_sane e" by (simp add: ex_cg_arrive_def)
  with cold_reservations_exact [OF s0 s(1)] s s0 show ?thesis by metis
qed

text \<open>
  C15. The budget of the moment decides: with or without the backpressure controller, the tokens in
  flight only grow by a request that found nothing in flight, or that stays within the effective budget
  together with those in flight. So several cold requests together never hold more than the
  configured budget, and the effective budget is always between 1 and it; a budget that shrinks while
  requests are in flight takes nothing back from them. The budget is positive and, for a gate with the
  controller, below \<open>2 ^ 63 - 8192\<close>.
\<close>

theorem cold_budget_respected:
  assumes "0 < b" "th \<le> 0 \<or> b < 2 ^ 63 - 8192"
    and "NewColdStartGateWithBackpressure b (NewTTFTBackpressure b th) win rate mw t0 = Some s0"
    and "run_steps cg_step s0 es = Some s" "\<forall>e \<in> set es. cg_sane e"
  shows "(cg_InFlight s \<le> b \<or> length (filter (\<lambda>r. 0 < reserved r) (gate_reqs s)) \<le> 1) \<and>
    1 \<le> effectiveBudget (gate_cold s) \<and> effectiveBudget (gate_cold s) \<le> b \<and>
    (\<forall>e s'. cg_step s e = Some s' \<and> cg_InFlight s < cg_InFlight s' \<longrightarrow>
       cg_InFlight s = 0 \<or> cg_InFlight s' \<le> effectiveBudget (gate_cold s))"
proof -
  have inv: "cg_budget_inv b s"
    using coldbudget.reachable_inv [of b th win rate mw t0 s0 es s] run_steps_guard [OF assms(5), of cg_step s0]
      assms(1-4) by simp
  then have b: "1 \<le> effectiveBudget (gate_cold s) \<and> effectiveBudget (gate_cold s) \<le> b" and i: "cg_inv s"
    using effectiveBudget_bounds by (auto simp: cg_budget_inv_def)
  have "0 \<le> cg_InFlight s"
    using i reserved_nonneg [OF i] sum_list_nonneg [of "map reserved (gate_reqs s)"]
    by (auto simp: cg_inv_def cg_InFlight_def)
  then have "cg_InFlight s = 0 \<or> cg_InFlight s' \<le> effectiveBudget (gate_cold s)"
    if "cg_step s e = Some s'" "cg_InFlight s < cg_InFlight s'" for e s'
    using cg_step_granted [OF i that] b by (auto simp: cg_granted_def cg_InFlight_def)
  then have "\<forall>e s'. cg_step s e = Some s' \<and> cg_InFlight s < cg_InFlight s' \<longrightarrow>
      cg_InFlight s = 0 \<or> cg_InFlight s' \<le> effectiveBudget (gate_cold s)" by blast
  moreover have "cg_InFlight s \<le> b \<or> length (filter (\<lambda>r. 0 < reserved r) (gate_reqs s)) \<le> 1"
    using inv by (simp add: cg_budget_inv_def cg_InFlight_def holders_def)
  ultimately show ?thesis using b by blast
qed

text \<open>
  A controller in force: a failed request halves the budget of 1000, and the next two sessions share 500.
\<close>

definition ex_halved :: "cg_event list" where
  "ex_halved =
     [ex_cg_arrive ''a'' 70 1, CgWrite 0 (CallWriteHeader 500) 2, CgReturns 0 3,
      ex_cg_arrive ''b'' 700 (61 * second_ns), CgWrite 1 (CallWriteHeader 200) (61 * second_ns),
      CgReturns 1 (61 * second_ns), ex_cg_arrive ''c'' 1400 (62 * second_ns)]"

theorem cold_budget_respected_witness:
  "\<exists>s0 s s'. NewColdStartGateWithBackpressure 1000 (NewTTFTBackpressure 1000 10) 0 0 0 0 = Some s0 \<and>
     run_steps cg_step s0 ex_halved = Some s \<and> effectiveBudget (gate_cold s) = 500 \<and> cg_InFlight s = 400 \<and>
     cg_step s (ex_cg_arrive ''d'' 350 (63 * second_ns)) = Some s' \<and> cg_InFlight s' = 500 \<and>
     cg_InFlight s' \<le> effectiveBudget (gate_cold s)"
proof -
  let ?s0 = "the (NewColdStartGateWithBackpressure 1000 (NewTTFTBackpressure 1000 10) 0 0 0 0)"
  have s0: "NewColdStartGateWithBackpressure 1000 (NewTTFTBackpressure 1000 10) 0 0 0 0 = Some ?s0"
    by (simp add: NewColdStartGateWithBackpressure_def)
  have "case run_steps cg_step ?s0 ex_halved of None \<Rightarrow> False
    | Some s \<Rightarrow> effectiveBudget (gate_cold s) = 500 \<and> cg_InFlight s = 400 \<and>
        (case cg_step s (ex_cg_arrive ''d'' 350 (63 * second_ns)) of None \<Rightarrow> False | Some s' \<Rightarrow> cg_InFlight s' = 500)"
    by code_simp
  then obtain s s' where s: "run_steps cg_step ?s0 ex_halved = Some s" "effectiveBudget (gate_cold s) = 500"
    "cg_InFlight s = 400" "cg_step s (ex_cg_arrive ''d'' 350 (63 * second_ns)) = Some s'" "cg_InFlight s' = 500"
    by (auto split: option.splits)
  have "\<forall>e \<in> set ex_halved. cg_sane e" by (simp add: ex_halved_def ex_cg_arrive_def)
  with cold_budget_respected [OF _ _ s0 s(1)]
  have "\<forall>e t. cg_step s e = Some t \<and> cg_InFlight s < cg_InFlight t \<longrightarrow>
      cg_InFlight s = 0 \<or> cg_InFlight t \<le> effectiveBudget (gate_cold s)" by simp blast
  moreover have "cg_InFlight s < cg_InFlight s'" using s(3,5) by simp
  ultimately have "cg_InFlight s = 0 \<or> cg_InFlight s' \<le> effectiveBudget (gate_cold s)" using s(4) by metis
  with s s0 show ?thesis by auto
qed

text \<open>
  C38. The new-session rate holds over every period: between an instant at which the bucket
  holds \<open>tok\<close> tokens and its anchor is \<open>a\<close>, and the instant \<open>t\<close>, at most
  \<open>tok + (t - a) * rate / 60s\<close> cold requests are admitted, however attempts, releases and
  prunes interleave (for a rate that divides the minute and a clock that does not run
  backwards, without overflow of the 64-bit product).
\<close>

theorem cold_rate_bound:
  assumes "0 < cg_rate g" "cg_rate g dvd minute_ns" "0 \<le> cg_rateTokens g" "cg_rateTokens g \<le> 1"
    and "clocked (cg_rateLastRefill g) ops t" "(t - cg_rateLastRefill g) * cg_rate g < 2 ^ 63"
    and "cold_ops ops g = (g', n)"
  shows "int n * minute_ns \<le> cg_rateTokens g * minute_ns + (t - cg_rateLastRefill g) * cg_rate g"
proof -
  obtain P where P: "minute_ns = cg_rate g * P" using assms(2) by (auto elim: dvdE)
  then have "0 < P" using minute_ns_pos assms(1) by (metis zero_less_mult_pos)
  then have ok: "bucket_ok P g" using assms P by (simp add: bucket_ok_def)
  have "bucket_ok P g'" "cg_rateLastRefill g' \<le> t"
    "int n * P + cg_rateTokens g' * P \<le> cg_rateTokens g * P + (cg_rateLastRefill g' - cg_rateLastRefill g)"
    using cold_ops_bucket [OF ok order_refl assms(5-7)] by blast+
  moreover from this(1) have "0 \<le> cg_rateTokens g' * P" by (simp add: bucket_ok_def)
  ultimately have "int n * P \<le> cg_rateTokens g * P + (t - cg_rateLastRefill g)" by linarith
  then have "cg_rate g * (int n * P) \<le> cg_rate g * (cg_rateTokens g * P + (t - cg_rateLastRefill g))"
    using assms(1) by (intro mult_left_mono) simp_all
  then show ?thesis by (simp add: P algebra_simps)
qed

theorem cold_rate_bound_witness:
  "int (snd (cold_ops [TryAdmit ''a'' 1 0, TryAdmit ''b'' 1 0, TryAdmit ''c'' 1 (15 * second_ns)] (ex_cold 0 4)))
     * minute_ns \<le> 1 * minute_ns + 15 * second_ns * 4"
proof -
  let ?ops = "[TryAdmit ''a'' 1 0, TryAdmit ''b'' 1 0, TryAdmit ''c'' 1 (15 * second_ns)]"
  obtain g' n where r: "cold_ops ?ops (ex_cold 0 4) = (g', n)" by (cases "cold_ops ?ops (ex_cold 0 4)")
  have "int n * minute_ns \<le> cg_rateTokens (ex_cold 0 4) * minute_ns
      + (15 * second_ns - cg_rateLastRefill (ex_cold 0 4)) * cg_rate (ex_cold 0 4)"
    by (rule cold_rate_bound [OF _ _ _ _ _ _ r])
       (simp_all add: ex_cold_def minute_ns_def second_ns_def)
  then show ?thesis unfolding r by (simp add: ex_cold_def)
qed

text \<open>
  Admissions are not spaced by the refill interval: at 4 new sessions per minute (one
  token every 15 seconds) two of them are admitted one second apart, because the anchor of
  the bucket lags behind the admission.
\<close>

theorem cold_admissions_not_spaced:
  "snd (cold_ops [TryAdmit ''a'' 1 0, TryAdmit ''b'' 1 (29 * second_ns)] (ex_cold 0 4)) = 2 \<and>
   snd (cold_ops [TryAdmit ''a'' 1 0, TryAdmit ''b'' 1 (29 * second_ns), TryAdmit ''c'' 1 (30 * second_ns)]
     (ex_cold 0 4)) = 3"
  by (simp add: cg_eval minute_ns_def)

text \<open>
  A request blocked by the rate sleeps exactly as long as it has to: it is woken at the
  first instant at which the lazy refill yields a token (for a rate that divides the
  minute, without overflow).
\<close>

theorem rate_wait_exact:
  assumes "0 < cg_rate g" "cg_rate g dvd minute_ns" "cg_rateTokens g = 0" "cg_rateLastRefill g \<le> now"
    and "cg_rateTokens (refillLocked now g) = 0"
    and "(now + minute_ns - cg_rateLastRefill g) * cg_rate g < 2 ^ 63"
  shows "cg_rateTokens (refillLocked (now + rateWaitLocked now g) g) = 1 \<and>
         (\<forall>t. now \<le> t \<and> t < now + rateWaitLocked now g \<longrightarrow> cg_rateTokens (refillLocked t g) = 0)"
proof -
  let ?a = "cg_rateLastRefill g"
  obtain P where P: "minute_ns = cg_rate g * P" using assms(2) by (auto elim: dvdE)
  then have P0: "0 < P" using minute_ns_pos assms(1) by (metis zero_less_mult_pos)
  then have ok: "bucket_ok P g" using assms P by (simp add: bucket_ok_def)
  have "1 * P \<le> cg_rate g * P" using assms(1) P0 by (intro mult_right_mono) linarith+
  then have Pm: "P \<le> minute_ns" using P by simp
  have fit: "(t - ?a) * cg_rate g < 2 ^ 63" if "t \<le> now + minute_ns" for t
  proof -
    have "(t - ?a) * cg_rate g \<le> (now + minute_ns - ?a) * cg_rate g"
      using that assms(1) by (intro mult_right_mono) simp_all
    with assms(6) show ?thesis by linarith
  qed
  have now: "(now - ?a) * cg_rate g < 2 ^ 63" using fit [of now] minute_ns_pos by simp
  have near: "now - ?a < P"
    using assms(3,5) refill_eq [OF ok assms(4) now] by (simp split: if_splits)
  have "(now - ?a) div P = 0" using near assms(4) by (intro div_pos_pos_trivial) simp_all
  then have e: "go_div (wrap64 ((now - ?a) * cg_rate g)) minute_ns = 0"
    using earned_eq [OF ok _ now] assms(4) by simp
  have "minute_ns div cg_rate g = P" unfolding P using assms(1) by simp
  then have per: "go_div minute_ns (cg_rate g) = P"
    using go_div_nonneg [of minute_ns "cg_rate g"] minute_ns_pos assms(1) by linarith
  have "minute_ns < 2 ^ 63" by (simp add: minute_ns_def second_ns_def)
  then have "wrap64 P = P" using P0 Pm by (intro wrap64_id) linarith+
  then have w: "rateWaitLocked now g = ?a + P - now"
    using assms(1,3) near by (simp add: rateWaitLocked_def Let_def e per)
  have at: "cg_rateTokens (refillLocked t g) = (if t - ?a < P then 0 else 1)" if "now \<le> t" "t \<le> now + minute_ns" for t
    using refill_eq [OF ok _ fit [OF that(2)]] that(1) assms(3,4) by simp
  have "now + rateWaitLocked now g \<le> now + minute_ns" using w assms(4) Pm by linarith
  with at [of "now + rateWaitLocked now g"] near w at show ?thesis by auto
qed

theorem rate_wait_exact_witness:
  "cg_rateTokens (refillLocked (5 + rateWaitLocked 5 ((ex_cold 0 4)\<lparr>cg_rateTokens := 0\<rparr>))
     ((ex_cold 0 4)\<lparr>cg_rateTokens := 0\<rparr>)) = 1"
  using rate_wait_exact [of "(ex_cold 0 4)\<lparr>cg_rateTokens := 0\<rparr>" 5]
  by (simp add: ex_cold_def minute_ns_def second_ns_def refillLocked_def Let_def wrap64_def
      coldGateRateTokenCap_def)

text \<open>
  For other rates the wait is a nanosecond short: at 7 new sessions per minute the woken
  request finds no token, and the next wait it computes is a whole further interval.
\<close>

theorem rate_wait_misses_token:
  "rateWaitLocked 0 ((ex_cold 0 7)\<lparr>cg_rateTokens := 0\<rparr>) = 8571428571 \<and>
   cg_rateTokens (refillLocked 8571428571 ((ex_cold 0 7)\<lparr>cg_rateTokens := 0\<rparr>)) = 0 \<and>
   rateWaitLocked 8571428571 ((ex_cold 0 7)\<lparr>cg_rateTokens := 0\<rparr>) = 8571428571"
  by (simp add: rateWaitLocked_def refillLocked_def ex_cold_def minute_ns_def second_ns_def Let_def
      wrap64_def coldGateRateTokenCap_def)

text \<open>
  A gate with only the rate enabled still counts reservations: after one cold request
  with a body of 700 bytes its in-flight token count is 200, not 0.
\<close>

theorem rate_only_gate_counts_tokens:
  "\<exists>s0 s. NewColdStartGate 0 0 4 0 0 = Some s0 \<and>
     run_steps cg_step s0 [ex_cg_arrive ''a'' 700 1] = Some s \<and> cg_InFlight s = 200"
proof -
  let ?s0 = "\<lparr>gate_cold = ex_cold 0 4, gate_queue = 0, gate_reqs = [],
     gate_delayed = 0, gate_refused = 0, gate_ttft = []\<rparr>"
  have "NewColdStartGate 0 0 4 0 0 = Some ?s0" using ex_cold_gate [of 0 4] by simp
  moreover have "\<exists>s. run_steps cg_step ?s0 [ex_cg_arrive ''a'' 700 1] = Some s \<and> cg_InFlight s = 200"
    by (simp add: cg_eval cg_InFlight_def)
  ultimately show ?thesis by metis
qed

text \<open>
  Pruning the seen map only reclaims memory: pruning at the instant of an admission
  attempt changes neither its verdict nor the tokens in flight nor the rate bucket after it.
\<close>

theorem prune_changes_no_verdict:
  "snd (tryAdmitLocked sid est now (cg_pruneLocked now g)) = snd (tryAdmitLocked sid est now g) \<and>
   cg_inFlightTokens (fst (tryAdmitLocked sid est now (cg_pruneLocked now g))) =
     cg_inFlightTokens (fst (tryAdmitLocked sid est now g)) \<and>
   cg_rateTokens (fst (tryAdmitLocked sid est now (cg_pruneLocked now g))) =
     cg_rateTokens (fst (tryAdmitLocked sid est now g))"
proof -
  let ?p = "cg_pruneLocked now g"
  consider (warm) "cg_warm sid now g"
    | (budget) "\<not> cg_warm sid now g" "0 < effectiveBudget g \<and> 0 < cg_inFlightTokens g \<and> effectiveBudget g < cg_inFlightTokens g + est"
    | (rest) "\<not> cg_warm sid now g" "\<not> (0 < effectiveBudget g \<and> 0 < cg_inFlightTokens g \<and> effectiveBudget g < cg_inFlightTokens g + est)"
    by blast
  then show ?thesis
  proof cases
    case warm
    then show ?thesis by (simp add: tryAdmitLocked_def warm_prune)
  next
    case budget
    then show ?thesis unfolding tryAdmitLocked_def warm_prune effectiveBudget_prune pruneLocked_frame by simp
  next
    case rest
    have "cg_rate (refillLocked now ?p) = cg_rate (refillLocked now g)"
      "cg_inFlightTokens (refillLocked now ?p) = cg_inFlightTokens (refillLocked now g)" by simp_all
    with rest show ?thesis
      unfolding tryAdmitLocked_def warm_prune effectiveBudget_prune pruneLocked_frame Let_def refill_prune
      by (cases "0 < cg_rate (refillLocked now g) \<and> cg_rateTokens (refillLocked now g) < 1")
         (simp_all add: refill_prune)
  qed
qed

text \<open>
  A cold request the gate refuses is answered 429 with the static body and a whole
  number of seconds between 1 and 60 in \<open>Retry-After\<close>, its slot names the gate, and the
  refusal is counted once; a client that is already gone gets nothing and is not counted.
\<close>

theorem cold_refusal_answer:
  assumes "i < length (gate_reqs s)" "sr_writer (cq_rec (gate_reqs s ! i)) = fresh_response"
    and "cq_slot (gate_reqs s ! i) = Some []"
  shows "\<exists>n. 1 \<le> n \<and> n \<le> 60 \<and>
    sr_writer (cq_rec (gate_reqs (cg_refuse i gone s) ! i)) =
      (if gone then fresh_response
       else \<lparr>rs_headers = [(''Retry-After'', itoa n), (''Content-Type'', ''application/json'')],
              rs_status = Some 429, rs_body = limiter429Body\<rparr>) \<and>
    cq_slot (gate_reqs (cg_refuse i gone s) ! i) = Some (if gone then [] else ''cold_start'') \<and>
    gate_refused (cg_refuse i gone s) = gate_refused s + (if gone then 0 else 1)"
proof -
  let ?n = "retryAfterSeconds (gate_cold s)"
  have n: "1 \<le> ?n" "?n \<le> 60" by (simp_all add: retryAfterSeconds_def Let_def)
  then show ?thesis
    using assms
    by (intro exI [of _ ?n]) (simp add: cg_refuse_def writeRateLimited_fresh rejection_reasons)
qed

theorem cold_refusal_answer_witness:
  "rs_status (sr_writer (cq_rec (gate_reqs (cg_refuse 0 False
      \<lparr>gate_cold = ex_cold 5 0, gate_queue = 0, gate_reqs =
        [\<lparr>cq_session = [], cq_estimate = 0, cq_phase = CgDone, cq_rec = sr_new fresh_response, cq_slot = Some []\<rparr>],
       gate_delayed = 0, gate_refused = 0, gate_ttft = []\<rparr>) ! 0))) = Some 429"
  using cold_refusal_answer [of 0 "\<lparr>gate_cold = ex_cold 5 0, gate_queue = 0, gate_reqs =
        [\<lparr>cq_session = [], cq_estimate = 0, cq_phase = CgDone, cq_rec = sr_new fresh_response, cq_slot = Some []\<rparr>],
       gate_delayed = 0, gate_refused = 0, gate_ttft = []\<rparr>" False]
  by (auto simp: sr_new_def)

end
