(* ===== verification/ColdWake.thy ===== *)
theory ColdWake
  imports ColdGate
begin

text \<open>
  Who wakes the waiters of the cold-start gate (\<open>cold-start-gate.go\<close>: the select of \<open>admit\<close>,
  \<open>armRefillLocked\<close>, \<open>broadcastLocked\<close>). The machine of \<open>ColdGate\<close> lets a waiter wake at any time;
  here it wakes only when the notify channel it took under the mutex has been closed, or when its own
  refill timer is due. Every run is a run of \<open>ColdGate\<close>'s machine, so all that is proved there
  holds here too.
\<close>

section \<open>Channels and timers\<close>

text \<open>The channel is numbered by the broadcasts so far. A waiter holds a number and perhaps a timer.\<close>

record cold_queue =
  cw_gate :: cold_gate
  cw_notify :: nat
  cw_waits :: "(nat \<times> time option) list"

definition armRefillLocked :: "cold_verdict \<Rightarrow> time \<Rightarrow> cold \<Rightarrow> time option" where
  "armRefillLocked blockedReason now g =
     (if blockedReason \<noteq> BlockedRate then None
      else (let wait = rateWaitLocked now g in if wait \<le> 0 then None else Some (now + wait)))"

definition broadcastLocked :: "nat \<Rightarrow> nat" where
  "broadcastLocked notify = notify + 1"

text \<open>The release closure of a request runs its body once: at the first delta, or when the handler is done.\<close>

definition unreleased :: "nat \<Rightarrow> cold_gate \<Rightarrow> bool" where
  "unreleased i s \<longleftrightarrow> i < length (gate_reqs s) \<and> (case cq_phase (gate_reqs s ! i) of CgCold d released \<Rightarrow> \<not> released | _ \<Rightarrow> False)"

definition releases :: "cg_event \<Rightarrow> cold_gate \<Rightarrow> bool" where
  "releases e s \<longleftrightarrow>
     (case e of
        CgWrite i c now \<Rightarrow> unreleased i s \<and> (case c of CallWrite b \<Rightarrow> str_contains b coldGateDeltaMarker | _ \<Rightarrow> False)
      | CgReturns i now \<Rightarrow> unreleased i s
      | CgPanics i \<Rightarrow> unreleased i s
      | _ \<Rightarrow> False)"

definition signalled :: "nat \<Rightarrow> cold_queue \<Rightarrow> bool" where
  "signalled i s \<longleftrightarrow> fst (cw_waits s ! i) < cw_notify s"

definition may_wake :: "nat \<Rightarrow> time \<Rightarrow> cold_queue \<Rightarrow> bool" where
  "may_wake i now s \<longleftrightarrow> i < length (cw_waits s) \<and>
     (signalled i s \<or> (case snd (cw_waits s ! i) of None \<Rightarrow> False | Some due \<Rightarrow> due \<le> now))"

text \<open>The loop head: the channel and the timer a request that is blocked takes with it.\<close>

definition loop_head :: "nat \<Rightarrow> time \<Rightarrow> nat \<Rightarrow> cold_gate \<Rightarrow> (nat \<times> time option) list \<Rightarrow> (nat \<times> time option) list" where
  "loop_head i now notify s ws =
     (case cq_phase (gate_reqs s ! i) of
        CgWaiting v \<Rightarrow> ws[i := (notify, armRefillLocked v now (gate_cold s))]
      | _ \<Rightarrow> ws)"

definition cw_step :: "cold_queue \<Rightarrow> cg_event \<Rightarrow> cold_queue option" where
  "cw_step s e =
     (if case e of CgWake i now \<Rightarrow> \<not> may_wake i now s | _ \<Rightarrow> False then None
      else case cg_step (cw_gate s) e of
        None \<Rightarrow> None
      | Some g \<Rightarrow>
          (let n = (if releases e (cw_gate s) then broadcastLocked (cw_notify s) else cw_notify s)
           in Some \<lparr>cw_gate = g, cw_notify = n,
                cw_waits = (case e of
                    CgArrive sid len w gone now \<Rightarrow>
                      loop_head (length (cw_waits s)) now n g (cw_waits s @ [(n, None)])
                  | CgWake i now \<Rightarrow> loop_head i now n g (cw_waits s)
                  | _ \<Rightarrow> cw_waits s)\<rparr>))"

definition cw_start :: "cold_gate \<Rightarrow> cold_queue" where
  "cw_start s = \<lparr>cw_gate = s, cw_notify = 0, cw_waits = []\<rparr>"

section \<open>Refinement\<close>

lemma cw_step_gate: "cw_step s e = Some s' \<Longrightarrow> cg_step (cw_gate s) e = Some (cw_gate s')"
  by (auto simp: cw_step_def Let_def split: if_splits option.splits)

lemma cw_run_gate: "run_steps (cw_step) s es = Some s' \<Longrightarrow> run_steps cg_step (cw_gate s) es = Some (cw_gate s')"
  by (induction es arbitrary: s) (auto split: option.splits dest!: cw_step_gate)

section \<open>What a step does to the tokens\<close>

lemma tryAdmit_rate: "tryAdmitLocked sid est now g = (g', v) \<Longrightarrow> cg_rate g' = cg_rate g"
  by (auto simp: tryAdmitLocked_def Let_def split: if_splits)

lemma prune_rate [simp]: "cg_rate (cg_pruneLocked now g) = cg_rate g"
  by (simp add: cg_pruneLocked_def Let_def)

lemma blocked_by_budget:
  "tryAdmitLocked sid est now g = (g', BlockedBudget) \<Longrightarrow> 0 < cg_inFlightTokens g'"
  by (auto simp: tryAdmitLocked_def Let_def split: if_splits)

lemma blocked_by_rate:
  "tryAdmitLocked sid est now g = (g', BlockedRate) \<Longrightarrow> 0 < cg_rate g' \<and> cg_rateTokens g' < 1"
  by (auto simp: tryAdmitLocked_def Let_def split: if_splits)

lemma armed_when_blocked:
  assumes "0 < cg_rate g" "cg_rateTokens g < 1" "cg_rate g \<le> minute_ns"
  shows "armRefillLocked BlockedRate now g \<noteq> None"
proof -
  have "1 \<le> minute_ns div cg_rate g" using assms(1,3) by (simp add: pos_imp_zdiv_pos_iff int_one_le_iff_zero_less)
  then have "0 < go_div minute_ns (cg_rate g)"
    using assms(1) by (simp add: go_div_def minute_ns_def second_ns_def)
  then show ?thesis
    using assms by (simp add: armRefillLocked_def rateWaitLocked_def Let_def)
qed

fun ev_index :: "cg_event \<Rightarrow> nat option" where
  "ev_index (CgArrive sid n w gone now) = None"
| "ev_index (CgWake i now) = Some i"
| "ev_index (CgLeave i now) = Some i"
| "ev_index (CgDeadline i gone) = Some i"
| "ev_index (CgClientDone i) = Some i"
| "ev_index (CgWrite i c now) = Some i"
| "ev_index (CgReturns i now) = Some i"
| "ev_index (CgPanics i) = Some i"

lemma cg_step_act:
  assumes "cg_step s e = Some s'"
  obtains sid n w gone now where "e = CgArrive sid n w gone now" "s' = cg_arrive sid n w gone now s"
  | i where "ev_index e = Some i" "cg_act e i s = Some s'"
  using assms by (cases e) (auto simp: cg_step_def)

text \<open>The phase of the request that acted.\<close>

lemma cg_refuse_phase [simp]:
  "i < length (gate_reqs s) \<Longrightarrow> cq_phase (gate_reqs (cg_refuse i gone s) ! i) = CgDone"
  using cg_refuse_fields(3) [of i gone s] by auto

lemma cg_finish_phase [simp]:
  "i < length (gate_reqs s) \<Longrightarrow> cq_phase (gate_reqs (cg_finish i s) ! i) = CgDone"
  "i < length (gate_reqs s) \<Longrightarrow> cq_phase (gate_reqs (cg_returns i now s) ! i) = CgDone"
  by (simp_all add: cg_finish_def cg_returns_def Let_def)

lemma act_reserves:
  assumes "cg_act e i s = Some s'" "ev_index e = Some i" "\<not> releases e s"
    and "reserves (cq_phase (gate_reqs s ! i))" "cq_estimate (gate_reqs s ! i) \<noteq> 0"
  shows "reserves (cq_phase (gate_reqs s' ! i))"
proof -
  have i: "i < length (gate_reqs s)" using assms(1) by (auto simp: cg_act_def split: if_splits)
  show ?thesis
  proof (cases "cq_phase (gate_reqs s ! i)")
    case (CgLeaving warm)
    then show ?thesis using assms i by (cases e) (auto simp: cg_act_def cg_forward_phase_def)
  next
    case (CgCold d rel)
    then have un: "unreleased i s" using assms(4) i by (simp add: unreleased_def)
    then obtain c now where e: "e = CgWrite i c now" "cg_write i c now s = s'"
      using assms(1-3) CgCold i by (cases e) (auto simp: cg_act_def releases_def)
    then show ?thesis
      using CgCold i un assms(3,4)
      by (auto simp: cg_write_def releases_def Let_def split: write_call.splits bool.splits)
  qed (use assms(4) in simp_all)
qed

lemma act_waits:
  assumes "cg_act e i s = Some s'" "ev_index e = Some i" "\<forall>now. e \<noteq> CgWake i now"
  shows "cq_phase (gate_reqs s' ! i) \<noteq> CgWaiting v"
proof -
  have i: "i < length (gate_reqs s)" using assms(1) by (auto simp: cg_act_def split: if_splits)
  show ?thesis
  proof (cases "cq_phase (gate_reqs s ! i)")
    case (CgCold d rel)
    then show ?thesis using assms i
      by (cases e) (auto simp: cg_act_def cg_write_def cg_on_delta_def Let_def split: write_call.splits bool.splits if_splits)
  next
    case CgPlain
    then show ?thesis using assms i by (cases e) (auto simp: cg_act_def cg_write_def Let_def split: write_call.splits)
  next
    case (CgWaiting v)
    then show ?thesis using assms i by (cases e) (simp_all add: cg_act_def, auto)
  next
    case (CgLeaving warm)
    then show ?thesis using assms i by (cases e) (auto simp: cg_act_def cg_forward_phase_def split: if_splits)
  next
    case CgDone
    then show ?thesis using assms(1) i by (cases e) (simp_all add: cg_act_def)
  qed
qed

lemma act_tokens:
  assumes "cg_inv s" "cg_act e i s = Some s'" "ev_index e = Some i" "\<not> releases e s"
  shows "cg_inFlightTokens (gate_cold s) \<le> cg_inFlightTokens (gate_cold s')"
proof -
  obtain r' where r: "i < length (gate_reqs s)" "cg_moves i r' s s'" using cg_actE [OF assms(2,1)] by metis
  then have new: "gate_reqs s' ! i = r'" "cq_estimate r' = cq_estimate (gate_reqs s ! i)" by (simp_all add: cg_moves_def)
  have "0 \<le> cq_estimate (gate_reqs s ! i)" using assms(1) r(1) by (simp add: cg_inv_def)
  then have "reserved (gate_reqs s ! i) \<le> reserved r'"
    using act_reserves [OF assms(2-4)] new by (auto simp: reserved_def)
  then show ?thesis using r(2) by (simp add: cg_moves_def)
qed

lemma act_others:
  assumes "cg_inv s" "cg_act e i s = Some s'"
  shows "length (gate_reqs s') = length (gate_reqs s)" "j \<noteq> i \<Longrightarrow> gate_reqs s' ! j = gate_reqs s ! j"
    "i < length (gate_reqs s)"
  by (rule cg_actE [OF assms(2,1)]; simp add: cg_moves_def)+

lemma act_rate:
  assumes "cg_act e i s = Some s'"
  shows "cg_rate (gate_cold s') = cg_rate (gate_cold s)"
  using assms
  by (cases "cq_phase (gate_reqs s ! i)"; cases e)
     (auto simp: cg_act_def cg_wake_def cg_write_def cg_on_delta_def cg_finish_def cg_returns_def cg_release_def Let_def
       dest: tryAdmit_rate split: if_splits prod.splits write_call.splits bool.splits)

section \<open>The invariant\<close>

text \<open>
  Of a waiter that was not signalled since its last look: if the budget blocked it, tokens are in flight; if
  the rate did, its timer is armed.
\<close>

definition waiter_ok :: "cold_queue \<Rightarrow> nat \<Rightarrow> cold_verdict \<Rightarrow> bool" where
  "waiter_ok s i v \<longleftrightarrow>
     fst (cw_waits s ! i) \<le> cw_notify s \<and>
     (v = BlockedBudget \<and> fst (cw_waits s ! i) = cw_notify s \<and> 0 < cg_inFlightTokens (gate_cold (cw_gate s)) \<or>
      v = BlockedRate \<and> snd (cw_waits s ! i) \<noteq> None \<or> signalled i s)"

definition cw_inv :: "cold_queue \<Rightarrow> bool" where
  "cw_inv s \<longleftrightarrow>
     cg_inv (cw_gate s) \<and> cg_rate (gate_cold (cw_gate s)) \<le> minute_ns \<and>
     length (cw_waits s) = length (gate_reqs (cw_gate s)) \<and>
     (\<forall>i < length (gate_reqs (cw_gate s)). \<forall>v.
        cq_phase (gate_reqs (cw_gate s) ! i) = CgWaiting v \<longrightarrow> waiter_ok s i v)"

lemma loop_head_length [simp]: "length (loop_head i now n s ws) = length ws"
  by (simp add: loop_head_def split: cg_phase.splits)

lemma loop_head_other [simp]: "j \<noteq> i \<Longrightarrow> loop_head i now n s ws ! j = ws ! j"
  by (simp add: loop_head_def split: cg_phase.splits)

lemma loop_head_waiting:
  "i < length ws \<Longrightarrow> cq_phase (gate_reqs s ! i) = CgWaiting v \<Longrightarrow>
   loop_head i now n s ws ! i = (n, armRefillLocked v now (gate_cold s))"
  by (simp add: loop_head_def)

text \<open>A request that has just looked at the gate and is blocked.\<close>

lemma looked_ok:
  assumes "tryAdmitLocked sid est now g = (g', v)" "v \<in> {BlockedBudget, BlockedRate}"
    and "cg_rate g' \<le> minute_ns"
  shows "v = BlockedBudget \<and> 0 < cg_inFlightTokens g' \<or> v = BlockedRate \<and> armRefillLocked v now g' \<noteq> None"
  using assms blocked_by_budget blocked_by_rate armed_when_blocked by blast

lemma wake_waiting:
  assumes "i < length (gate_reqs s)" "cq_phase (gate_reqs (cg_wake i now s) ! i) = CgWaiting v"
  shows "\<exists>sid est g0. tryAdmitLocked sid est now g0 = (gate_cold (cg_wake i now s), v) \<and> v \<in> {BlockedBudget, BlockedRate}"
proof -
  let ?r = "gate_reqs s ! i"
  obtain g w where t: "tryAdmitLocked (cq_session ?r) (cq_estimate ?r) now (cg_pruneLocked now (gate_cold s)) = (g, w)"
    by (cases "tryAdmitLocked (cq_session ?r) (cq_estimate ?r) now (cg_pruneLocked now (gate_cold s))")
  then show ?thesis using assms by (cases w) (auto simp: cg_wake_def Let_def)
qed

lemma arrive_waiting:
  assumes "cq_phase (gate_reqs (cg_arrive sid n w gone now s) ! length (gate_reqs s)) = CgWaiting v"
  shows "\<exists>est g0. tryAdmitLocked sid est now g0 = (gate_cold (cg_arrive sid n w gone now s), v) \<and> v \<in> {BlockedBudget, BlockedRate}"
proof -
  obtain g u where t: "tryAdmitLocked sid (cg_estimate n) now (cg_pruneLocked now (gate_cold s)) = (g, u)"
    by (cases "tryAdmitLocked sid (cg_estimate n) now (cg_pruneLocked now (gate_cold s))")
  then show ?thesis using assms
    by (cases u) (auto simp: cg_arrive_def cg_forward_phase_def Let_def split: if_splits)
qed

lemma arrive_others:
  "length (gate_reqs (cg_arrive sid n w gone now s)) = Suc (length (gate_reqs s))"
  "j < length (gate_reqs s) \<Longrightarrow> gate_reqs (cg_arrive sid n w gone now s) ! j = gate_reqs s ! j"
  "cg_rate (gate_cold (cg_arrive sid n w gone now s)) = cg_rate (gate_cold s)"
  "n < 2 ^ 62 \<Longrightarrow> cg_inFlightTokens (gate_cold s) \<le> cg_inFlightTokens (gate_cold (cg_arrive sid n w gone now s))"
proof -
  obtain g u where t: "tryAdmitLocked sid (cg_estimate n) now (cg_pruneLocked now (gate_cold s)) = (g, u)"
    by (cases "tryAdmitLocked sid (cg_estimate n) now (cg_pruneLocked now (gate_cold s))")
  let ?t = "cg_arrive sid n w gone now s"
  have c: "gate_cold ?t = g" using t by (auto simp: cg_arrive_def Let_def)
  have ref: "\<exists>r'. gate_reqs (cg_refuse (length (gate_reqs s)) gone S) = gate_reqs s @ [r']"
    if "gate_reqs S = gate_reqs s @ [r]" for S r
    using cg_refuse_fields(3) [of "length (gate_reqs s)" gone S] that by auto
  have "\<exists>r. gate_reqs ?t = gate_reqs s @ [r]"
    using t ref by (cases u) (simp_all add: cg_arrive_def Let_def)
  then obtain r where r: "gate_reqs ?t = gate_reqs s @ [r]" by blast
  show "length (gate_reqs ?t) = Suc (length (gate_reqs s))" by (simp add: r)
  show "j < length (gate_reqs s) \<Longrightarrow> gate_reqs ?t ! j = gate_reqs s ! j" by (simp add: r nth_append)
  show "cg_rate (gate_cold ?t) = cg_rate (gate_cold s)" using tryAdmit_rate [OF t] c by simp
  show "n < 2 ^ 62 \<Longrightarrow> cg_inFlightTokens (gate_cold s) \<le> cg_inFlightTokens (gate_cold ?t)"
    using tryAdmit_inFlight [OF t] estimate_nonneg [of n] c by simp
qed

section \<open>Preservation\<close>

text \<open>A waiter that does not act keeps what it has, unless it is signalled by the release of another.\<close>

lemma waiter_ok_kept:
  assumes "waiter_ok s j v" "cw_waits s' ! j = cw_waits s ! j"
    and "cw_notify s' = cw_notify s \<and>
        cg_inFlightTokens (gate_cold (cw_gate s)) \<le> cg_inFlightTokens (gate_cold (cw_gate s')) \<or>
      cw_notify s' = Suc (cw_notify s)"
  shows "waiter_ok s' j v"
  using assms unfolding waiter_ok_def signalled_def by auto

lemma waiter_ok_looked:
  assumes "tryAdmitLocked sid est now g0 = (gate_cold (cw_gate s'), v)" "v \<in> {BlockedBudget, BlockedRate}"
    and "cg_rate (gate_cold (cw_gate s')) \<le> minute_ns"
    and "cw_waits s' ! i = (cw_notify s', armRefillLocked v now (gate_cold (cw_gate s')))"
  shows "waiter_ok s' i v"
  using looked_ok [OF assms(1-3)] assms(4) by (auto simp: waiter_ok_def)

lemma cw_step_wake:
  assumes "cw_inv s" "cw_step s (CgWake i now) = Some s'"
  shows "i < length (gate_reqs (cw_gate s))" "cw_gate s' = cg_wake i now (cw_gate s)"
    "cw_notify s' = cw_notify s" "cw_waits s' = loop_head i now (cw_notify s) (cw_gate s') (cw_waits s)"
proof -
  have st: "cg_act (CgWake i now) i (cw_gate s) = Some (cw_gate s')"
    using cw_step_gate [OF assms(2)] by (simp add: cg_step_def)
  then show "i < length (gate_reqs (cw_gate s))" by (auto simp: cg_act_def split: if_splits)
  show "cw_gate s' = cg_wake i now (cw_gate s)"
    using st by (cases "cq_phase (gate_reqs (cw_gate s) ! i)") (auto simp: cg_act_def split: if_splits)
  show "cw_notify s' = cw_notify s" "cw_waits s' = loop_head i now (cw_notify s) (cw_gate s') (cw_waits s)"
    using assms(2) by (auto simp: cw_step_def releases_def Let_def split: if_splits option.splits)
qed

lemma cw_arrive_inv:
  assumes inv: "cw_inv s" and step: "cw_step s (CgArrive sid n w gone now) = Some s'" and n: "n < 2 ^ 62"
  shows "cw_inv s'"
proof -
  let ?g = "cw_gate s" and ?k = "length (gate_reqs (cw_gate s))"
  have g': "cw_gate s' = cg_arrive sid n w gone now ?g" using cw_step_gate [OF step] by (simp add: cg_step_def)
  have k: "length (cw_waits s) = ?k" using inv by (simp add: cw_inv_def)
  have s': "cw_notify s' = cw_notify s"
    "cw_waits s' = loop_head ?k now (cw_notify s) (cw_gate s') (cw_waits s @ [(cw_notify s, None)])"
    using step k by (auto simp: cw_step_def releases_def Let_def split: option.splits)
  have rate: "cg_rate (gate_cold (cw_gate s')) \<le> minute_ns" using inv by (simp add: g' arrive_others cw_inv_def)
  have "waiter_ok s' j v" if j: "j < Suc ?k" "cq_phase (gate_reqs (cw_gate s') ! j) = CgWaiting v" for j v
  proof (cases "j = ?k")
    case True
    obtain est g0 where t: "tryAdmitLocked sid est now g0 = (gate_cold (cw_gate s'), v)" "v \<in> {BlockedBudget, BlockedRate}"
      using arrive_waiting j(2) True by (metis g')
    have "cw_waits s' ! j = (cw_notify s', armRefillLocked v now (gate_cold (cw_gate s')))"
      using loop_head_waiting [of j "cw_waits s @ [(cw_notify s, None)]" "cw_gate s'" v] j(2) True k by (simp add: s')
    with t rate show ?thesis by (rule waiter_ok_looked)
  next
    case False
    then have "waiter_ok s j v" using inv j by (simp add: cw_inv_def g' arrive_others)
    then show ?thesis
      by (rule waiter_ok_kept) (use False j k n in \<open>simp_all add: s' g' arrive_others nth_append\<close>)
  qed
  then show ?thesis using inv cg_arrive_inv [of ?g n] n rate k by (simp add: cw_inv_def g' arrive_others s')
qed

lemma cw_act_inv:
  assumes inv: "cw_inv s" and step: "cw_step s e = Some s'" and i: "ev_index e = Some i"
  shows "cw_inv s'"
proof -
  let ?g = "cw_gate s"
  have act: "cg_act e i ?g = Some (cw_gate s')"
    using cw_step_gate [OF step] i by (cases e) (simp_all add: cg_step_def)
  have cg: "cg_inv ?g" using inv by (simp add: cw_inv_def)
  note others = act_others [OF cg act]
  have inv': "cg_inv (cw_gate s')"
    using cg_actE [OF act cg] cg_moves_inv [OF cg] by metis
  have rate: "cg_rate (gate_cold (cw_gate s')) \<le> minute_ns" using inv act_rate [OF act] by (simp add: cw_inv_def)
  have moved: "cw_notify s' = cw_notify s \<and>
        cg_inFlightTokens (gate_cold ?g) \<le> cg_inFlightTokens (gate_cold (cw_gate s')) \<or>
      cw_notify s' = Suc (cw_notify s)"
    using act_tokens [OF cg act i] step
    by (auto simp: cw_step_def broadcastLocked_def Let_def split: if_splits option.splits)
  have waits: "length (cw_waits s') = length (cw_waits s)" "\<forall>j. j \<noteq> i \<longrightarrow> cw_waits s' ! j = cw_waits s ! j"
    using step i by (cases e; auto simp: cw_step_def Let_def split: if_splits option.splits)+
  have "waiter_ok s' j v" if j: "j < length (gate_reqs ?g)" "cq_phase (gate_reqs (cw_gate s') ! j) = CgWaiting v" for j v
  proof (cases "j = i")
    case True
    then obtain now where e: "e = CgWake i now" using act_waits [OF act i] j(2) by blast
    note wake = cw_step_wake [OF inv step [unfolded e]]
    obtain sid est g0 where t: "tryAdmitLocked sid est now g0 = (gate_cold (cw_gate s'), v)" "v \<in> {BlockedBudget, BlockedRate}"
      using wake_waiting [OF wake(1)] j(2) True by (metis wake(2))
    have "cw_waits s' ! j = (cw_notify s', armRefillLocked v now (gate_cold (cw_gate s')))"
      using loop_head_waiting [of j "cw_waits s" "cw_gate s'" v] j True inv by (simp add: wake(3,4) cw_inv_def)
    with t rate show ?thesis by (rule waiter_ok_looked)
  next
    case False
    then have "waiter_ok s j v" using inv j others(2) by (simp add: cw_inv_def)
    then show ?thesis using moved waits(2) False by (blast intro: waiter_ok_kept)
  qed
  then show ?thesis using inv' rate waits(1) inv others(1) by (simp add: cw_inv_def)
qed

interpretation coldwake: step_invariant
  "\<lambda>s. rate \<le> minute_ns \<and> (\<exists>s0. NewColdStartGateWithBackpressure b bp win rate mw t0 = Some s0 \<and> s = cw_start s0)"
  "\<lambda>s e. if cg_sane e then cw_step s e else None" cw_inv for b bp win rate mw t0
proof unfold_locales
  fix s assume "rate \<le> minute_ns \<and> (\<exists>s0. NewColdStartGateWithBackpressure b bp win rate mw t0 = Some s0 \<and> s = cw_start s0)"
  then obtain s0 where s: "NewColdStartGateWithBackpressure b bp win rate mw t0 = Some s0" "s = cw_start s0" "rate \<le> minute_ns"
    by blast
  then show "cw_inv s"
    using coldgate.start_inv [OF s(1)]
    by (auto simp: cw_inv_def cw_start_def NewColdStartGateWithBackpressure_def split: if_splits)
next
  fix s e s' assume inv: "cw_inv s" and st: "(if cg_sane e then cw_step s e else None) = Some s'"
  then have sane: "cg_sane e" and step: "cw_step s e = Some s'" by (auto split: if_splits)
  show "cw_inv s'"
  proof (cases "ev_index e")
    case None
    then obtain sid n w gone now where "e = CgArrive sid n w gone now" by (cases e) auto
    with cw_arrive_inv [OF inv] step sane show ?thesis by simp
  qed (rule cw_act_inv [OF inv step])
qed

section \<open>Properties\<close>

text \<open>From some instant on the waiter can look again.\<close>

definition wakes_from :: "nat \<Rightarrow> time \<Rightarrow> cold_queue \<Rightarrow> bool" where
  "wakes_from i due s \<longleftrightarrow> (\<forall>now \<ge> due. cw_step s (CgWake i now) \<noteq> None)"

lemma may_wake_steps:
  assumes "cw_inv s" "i < length (gate_reqs (cw_gate s))" "cq_phase (gate_reqs (cw_gate s) ! i) = CgWaiting v"
    and "may_wake i now s"
  shows "cw_step s (CgWake i now) \<noteq> None"
  using assms by (simp add: cw_step_def cg_step_def cg_act_def Let_def)

lemma signalled_wakes:
  assumes "cw_inv s" "i < length (gate_reqs (cw_gate s))" "cq_phase (gate_reqs (cw_gate s) ! i) = CgWaiting v" "signalled i s"
  shows "wakes_from i due s"
proof -
  have "may_wake i now s" for now using assms(1,2,4) by (simp add: may_wake_def cw_inv_def)
  then show ?thesis using may_wake_steps [OF assms(1-3)] by (simp add: wakes_from_def)
qed

lemma holder_exists:
  assumes "cg_inv s" "0 < cg_inFlightTokens (gate_cold s)"
  obtains j where "j < length (gate_reqs s)" "0 < reserved (gate_reqs s ! j)"
proof -
  have "\<exists>r \<in> set (gate_reqs s). 0 < reserved r"
  proof (rule ccontr)
    assume none: "\<not> (\<exists>r \<in> set (gate_reqs s). 0 < reserved r)"
    have "sum_list (map reserved (gate_reqs s)) \<le> 0" by (rule sum_list_nonpos) (use none in fastforce)
    then show False using assms by (simp add: cg_inv_def)
  qed
  then show thesis using that by (auto simp: in_set_conv_nth)
qed

lemma return_signals:
  assumes "cw_inv s" "i < length (gate_reqs (cw_gate s))" "cq_phase (gate_reqs (cw_gate s) ! i) = CgWaiting v"
    and "unreleased j (cw_gate s)" "cw_step s (CgReturns j now) = Some s'"
  shows "wakes_from i due s'"
proof -
  let ?g = "cw_gate s"
  have cg: "cg_inv ?g" using assms(1) by (simp add: cw_inv_def)
  have act: "cg_act (CgReturns j now) j ?g = Some (cw_gate s')"
    using cw_step_gate [OF assms(5)] by (simp add: cg_step_def)
  have "j \<noteq> i" using assms(3,4) by (auto simp: unreleased_def)
  then have keep: "cq_phase (gate_reqs (cw_gate s') ! i) = CgWaiting v" "i < length (gate_reqs (cw_gate s'))"
    using act_others [OF cg act] assms(2,3) by simp_all
  have "waiter_ok s i v" using assms(1-3) by (simp add: cw_inv_def)
  moreover have "cw_notify s' = Suc (cw_notify s)" "cw_waits s' = cw_waits s"
    using assms(4,5) by (auto simp: cw_step_def releases_def broadcastLocked_def Let_def split: option.splits)
  ultimately have "signalled i s'" by (simp add: waiter_ok_def signalled_def)
  moreover have "cw_inv s'" by (rule cw_act_inv [OF assms(1,5)]) simp
  ultimately show ?thesis using signalled_wakes keep by blast
qed

text \<open>
  C16. No waiter is forgotten: in every reachable state of the queue each waiting request can look again from
  some instant on, because it was signalled or its refill timer is armed; or another request holds a
  reservation, and when that one's handler returns the waiter can look again at once. The run is a run of
  the gate, so its invariants hold as well.
\<close>

theorem no_waiter_is_forgotten:
  assumes "NewColdStartGateWithBackpressure b bp win rate mw t0 = Some s0" "rate \<le> minute_ns"
    and "run_steps cw_step (cw_start s0) es = Some s" "\<forall>e \<in> set es. cg_sane e"
    and "i < length (gate_reqs (cw_gate s))" "cq_phase (gate_reqs (cw_gate s) ! i) = CgWaiting v"
  shows "run_steps cg_step s0 es = Some (cw_gate s) \<and>
    ((\<exists>due. wakes_from i due s) \<or>
     (\<exists>j < length (gate_reqs (cw_gate s)). j \<noteq> i \<and> 0 < reserved (gate_reqs (cw_gate s) ! j) \<and>
        (\<forall>now s'. unreleased j (cw_gate s) \<and> cw_step s (CgReturns j now) = Some s' \<longrightarrow> wakes_from i now s')))"
proof -
  have inv: "cw_inv s"
    using coldwake.reachable_inv [of rate b bp win mw t0 "cw_start s0" es s] run_steps_guard [OF assms(4), of cw_step]
      assms(1-3) by auto
  have "(\<exists>due. wakes_from i due s) \<or> (\<exists>j < length (gate_reqs (cw_gate s)). j \<noteq> i \<and> 0 < reserved (gate_reqs (cw_gate s) ! j) \<and>
      (\<forall>now s'. unreleased j (cw_gate s) \<and> cw_step s (CgReturns j now) = Some s' \<longrightarrow> wakes_from i now s'))"
  proof -
    consider "0 < cg_inFlightTokens (gate_cold (cw_gate s))" | due where "snd (cw_waits s ! i) = Some due" | "signalled i s"
      using inv assms(5,6) by (auto simp: cw_inv_def waiter_ok_def)
    then show ?thesis
    proof cases
      case 1
      have "cg_inv (cw_gate s)" using inv by (simp add: cw_inv_def)
      then obtain j where j: "j < length (gate_reqs (cw_gate s))" "0 < reserved (gate_reqs (cw_gate s) ! j)"
        using 1 by (rule holder_exists)
      then have "j \<noteq> i" using assms(6) by (auto simp: reserved_def)
      then show ?thesis using j return_signals [OF inv assms(5,6)] by blast
    next
      case 2
      then have "may_wake i now s" if "due \<le> now" for now
        using that inv assms(5) by (simp add: may_wake_def cw_inv_def)
      then show ?thesis using may_wake_steps [OF inv assms(5,6)] by (auto simp: wakes_from_def)
    qed (use signalled_wakes [OF inv assms(5,6)] in blast)
  qed
  then show ?thesis using cw_run_gate [OF assms(3)] by (simp add: cw_start_def)
qed

definition ex_wake_run :: "cg_event list" where
  "ex_wake_run = [ex_cg_arrive ''x'' 210 1, ex_cg_arrive ''s'' 210 2, ex_cg_arrive ''s'' 105 3]"

definition ex_wake :: cold_queue where
  "ex_wake = the (run_steps cw_step (cw_start (the (NewColdStartGate 100 0 0 0 0))) ex_wake_run)"

lemma ex_wake_facts:
  "run_steps cw_step (cw_start (the (NewColdStartGate 100 0 0 0 0))) ex_wake_run = Some ex_wake"
  "map cq_phase (gate_reqs (cw_gate ex_wake)) = [CgCold 1 False, CgWaiting BlockedBudget, CgCold 3 False]"
proof -
  have "case run_steps cw_step (cw_start (the (NewColdStartGate 100 0 0 0 0))) ex_wake_run of
      None \<Rightarrow> False | Some s \<Rightarrow> True" by code_simp
  then show "run_steps cw_step (cw_start (the (NewColdStartGate 100 0 0 0 0))) ex_wake_run = Some ex_wake"
    by (auto simp: ex_wake_def split: option.splits)
  show "map cq_phase (gate_reqs (cw_gate ex_wake)) = [CgCold 1 False, CgWaiting BlockedBudget, CgCold 3 False]"
    by code_simp
qed

theorem no_waiter_is_forgotten_witness:
  "(\<exists>due. wakes_from 1 due ex_wake) \<or> (\<exists>j < length (gate_reqs (cw_gate ex_wake)). j \<noteq> 1 \<and> 0 < reserved (gate_reqs (cw_gate ex_wake) ! j))"
proof -
  have "NewColdStartGateWithBackpressure 100 None 0 0 0 0 = Some (the (NewColdStartGate 100 0 0 0 0))"
    using ex_cold_gate [of 100 0] by (simp add: NewColdStartGate_def)
  moreover have "\<forall>e \<in> set ex_wake_run. cg_sane e" by (simp add: ex_wake_run_def ex_cg_arrive_def)
  moreover have len: "length (gate_reqs (cw_gate ex_wake)) = 3" using arg_cong [OF ex_wake_facts(2), of length] by simp
  moreover have "cq_phase (gate_reqs (cw_gate ex_wake) ! 1) = CgWaiting BlockedBudget"
    using arg_cong [OF ex_wake_facts(2), of "\<lambda>xs. xs ! 1"] len by simp
  ultimately show ?thesis
    using no_waiter_is_forgotten [of 100 None 0 0 0 0 _ ex_wake_run ex_wake 1 BlockedBudget] ex_wake_facts(1)
    by (auto simp: minute_ns_def second_ns_def)
qed

text \<open>
  An admission wakes nobody, though it can change the verdict of a waiter: a small request of the same
  session makes the session warm, a new request of it would be admitted at once, yet the one that waits is
  not signalled, has no timer and is refused at its deadline.
\<close>

lemma warm_waiter_is_refused:
  "snd (tryAdmitLocked ''s'' 60 4 (gate_cold (cw_gate ex_wake))) = AdmittedWarm"
  "\<not> may_wake 1 now ex_wake"
  "(case cw_step ex_wake (CgDeadline 1 False) of None \<Rightarrow> False
    | Some s \<Rightarrow> gate_refused (cw_gate s) = 1 \<and> cq_slot (gate_reqs (cw_gate s) ! 1) = Some rejectionReasonColdStart)"
proof -
  show "snd (tryAdmitLocked ''s'' 60 4 (gate_cold (cw_gate ex_wake))) = AdmittedWarm" by code_simp
  have "cw_waits ex_wake ! 1 = (0, None) \<and> cw_notify ex_wake = 0" by code_simp
  then show "\<not> may_wake 1 now ex_wake" by (simp add: may_wake_def signalled_def)
  show "case cw_step ex_wake (CgDeadline 1 False) of None \<Rightarrow> False
    | Some s \<Rightarrow> gate_refused (cw_gate s) = 1 \<and> cq_slot (gate_reqs (cw_gate s) ! 1) = Some rejectionReasonColdStart"
    by code_simp
qed

end
