(* ===== verification/Limiter.thy ===== *)
theory Limiter
  imports Response
begin

text \<open>
  The concurrency limiter (\<open>concurrency-limiter.go\<close>) and the shared host budget
  (\<open>host-limiter.go\<close>). Several wrappers may draw from one semaphore: one wrapper is a
  member limiter, several are the wrappers \<open>HostLimiter.Wrap\<close> builds for one host. The
  state is the semaphore, the gauges and the requests inside \<open>ServeHTTP\<close> with the point
  each has reached; an event is one atomic action of one request's goroutine, so every
  interleaving of the goroutines is a sequence of events.
\<close>

section \<open>The code\<close>

record wrapper =
  wr_provider :: string
  wr_rejectReason :: string
  wr_reselectable :: bool

definition timeoutReason :: "wrapper \<Rightarrow> string" where
  "timeoutReason l =
     (if wr_rejectReason l = [] then rejectionReasonQueueTimeout else wr_rejectReason l)"

datatype lim_result = Served | Refused | HandedBack | Disconnected

text \<open>
  Where a request is: it found every slot held and is about to be counted; it is queued
  since an instant; it holds a slot but is still counted as queued; its select chose to
  give up and it is still counted; it is inside the wrapped handler; it returned.
\<close>

datatype lim_phase =
    Entering
  | Waiting time
  | Granted
  | GivingUp time lim_result
  | Running
  | Returned lim_result

record lim_req =
  lr_wrapper :: nat
  lr_signal :: bool
  lr_phase :: lim_phase
  lr_resp :: "response \<times> rejection_slot"

record limiter =
  lim_cap :: nat
  lim_sem :: nat
  lim_waiters :: "nat \<Rightarrow> int"
  lim_reqs :: "lim_req list"
  lim_queueWait :: "(string \<times> duration) list"

definition limiter_start :: "nat \<Rightarrow> limiter" where
  "limiter_start cap = \<lparr>lim_cap = cap, lim_sem = 0, lim_waiters = (\<lambda>k. 0), lim_reqs = [],
     lim_queueWait = []\<rparr>"

definition lim_InFlight :: "limiter \<Rightarrow> nat" where
  "lim_InFlight s = lim_sem s"

definition lim_Queued :: "limiter \<Rightarrow> nat \<Rightarrow> int" where
  "lim_Queued s k = lim_waiters s k"

text \<open>
  Events: a request arrives at wrapper \<open>k\<close> (with or without a reselect signal in its
  context, and with the response writer it carries); the counter is incremented; the
  select of the queued phase takes one of its arms; the counter is decremented; the
  wrapped handler returns. \<open>now\<close> is the clock reading of the event.
\<close>

datatype lim_event =
    Arrive nat bool "response \<times> rejection_slot"
  | CountIn nat time
  | TakeSlot nat time
  | TimeOut nat
  | Stale nat
  | ClientDone nat
  | CountOut nat time
  | HandlerReturns nat

definition set_req :: "nat \<Rightarrow> lim_phase \<Rightarrow> limiter \<Rightarrow> limiter" where
  "set_req i ph s = s\<lparr>lim_reqs := (lim_reqs s)[i := (lim_reqs s ! i)\<lparr>lr_phase := ph\<rparr>]\<rparr>"

definition add_waiters :: "nat \<Rightarrow> int \<Rightarrow> limiter \<Rightarrow> limiter" where
  "add_waiters k d s = s\<lparr>lim_waiters := (lim_waiters s)(k := lim_waiters s k + d)\<rparr>"

definition observeQueueWait :: "wrapper \<Rightarrow> duration \<Rightarrow> limiter \<Rightarrow> limiter" where
  "observeQueueWait l waited s = s\<lparr>lim_queueWait := lim_queueWait s @ [(wr_provider l, waited)]\<rparr>"

definition finish_giving_up :: "wrapper \<Rightarrow> nat \<Rightarrow> time \<Rightarrow> lim_result \<Rightarrow> time \<Rightarrow> limiter \<Rightarrow> limiter" where
  "finish_giving_up l i queuedAt res now s =
     (let s1 = set_req i (Returned res) s
      in if res = Refused then
           observeQueueWait l (now - queuedAt)
             (s1\<lparr>lim_reqs := (lim_reqs s1)[i := (lim_reqs s1 ! i)
                \<lparr>lr_resp := writeRateLimited 0 (timeoutReason l) (lr_resp (lim_reqs s1 ! i))\<rparr>]\<rparr>)
         else s1)"

definition lim_arrive :: "nat \<Rightarrow> bool \<Rightarrow> response \<times> rejection_slot \<Rightarrow> limiter \<Rightarrow> limiter" where
  "lim_arrive k sig resp s =
     (let req = (\<lambda>ph. \<lparr>lr_wrapper = k, lr_signal = sig, lr_phase = ph, lr_resp = resp\<rparr>)
      in if lim_sem s < lim_cap s
         then s\<lparr>lim_sem := lim_sem s + 1, lim_reqs := lim_reqs s @ [req Running]\<rparr>
         else s\<lparr>lim_reqs := lim_reqs s @ [req Entering]\<rparr>)"

definition lim_on :: "(nat \<Rightarrow> wrapper) \<Rightarrow> lim_event \<Rightarrow> nat \<Rightarrow> limiter \<Rightarrow> limiter option" where
  "lim_on ws e i s =
     (let r = lim_reqs s ! i; k = lr_wrapper r; l = ws k
      in if \<not> i < length (lim_reqs s) then None
         else case (lr_phase r, e) of
           (Entering, CountIn _ now) \<Rightarrow> Some (add_waiters k 1 (set_req i (Waiting now) s))
         | (Waiting q, TakeSlot _ now) \<Rightarrow>
             if lim_sem s < lim_cap s
             then Some (observeQueueWait l (now - q) (set_req i Granted (s\<lparr>lim_sem := lim_sem s + 1\<rparr>)))
             else None
         | (Waiting q, TimeOut _) \<Rightarrow> Some (set_req i (GivingUp q Refused) s)
         | (Waiting q, Stale _) \<Rightarrow>
             if wr_reselectable l \<and> lr_signal r then Some (set_req i (GivingUp q HandedBack) s) else None
         | (Waiting q, ClientDone _) \<Rightarrow> Some (set_req i (GivingUp q Disconnected) s)
         | (GivingUp q res, CountOut _ now) \<Rightarrow> Some (finish_giving_up l i q res now (add_waiters k (- 1) s))
         | (Granted, CountOut _ now) \<Rightarrow> Some (add_waiters k (- 1) (set_req i Running s))
         | (Running, HandlerReturns _) \<Rightarrow>
             Some (set_req i (Returned Served) (s\<lparr>lim_sem := lim_sem s - 1\<rparr>))
         | _ \<Rightarrow> None)"

definition lim_step :: "(nat \<Rightarrow> wrapper) \<Rightarrow> limiter \<Rightarrow> lim_event \<Rightarrow> limiter option" where
  "lim_step ws s e =
     (case e of
        Arrive k sig resp \<Rightarrow> Some (lim_arrive k sig resp s)
      | CountIn i now \<Rightarrow> lim_on ws e i s
      | TakeSlot i now \<Rightarrow> lim_on ws e i s
      | TimeOut i \<Rightarrow> lim_on ws e i s
      | Stale i \<Rightarrow> lim_on ws e i s
      | ClientDone i \<Rightarrow> lim_on ws e i s
      | CountOut i now \<Rightarrow> lim_on ws e i s
      | HandlerReturns i \<Rightarrow> lim_on ws e i s)"

text \<open>
  The wrappers: a member limiter exists only for a positive cap; the wrappers of a host
  share the host's semaphore, are not reselectable and record their own reason.
\<close>

definition NewConcurrencyLimiter :: "string \<Rightarrow> int \<Rightarrow> (wrapper \<times> limiter) option" where
  "NewConcurrencyLimiter prov maxConcurrentRequests =
     (if maxConcurrentRequests \<le> 0 then None
      else Some (\<lparr>wr_provider = prov, wr_rejectReason = rejectionReasonQueueTimeout,
                  wr_reselectable = True\<rparr>, limiter_start (nat maxConcurrentRequests)))"

text \<open>An unlimited host has no semaphore and only counts, in an \<open>int32\<close>.\<close>

record host_limiter =
  hl_sem :: "limiter option"
  hl_inFlight :: "32 word"

definition NewHostLimiter :: "int \<Rightarrow> host_limiter" where
  "NewHostLimiter maxConcurrentRequests =
     \<lparr>hl_sem = (if 0 < maxConcurrentRequests then Some (limiter_start (nat maxConcurrentRequests)) else None),
      hl_inFlight = 0\<rparr>"

definition host_Wrap :: "host_limiter \<Rightarrow> string \<Rightarrow> wrapper option" where
  "host_Wrap h prov =
     (case hl_sem h of
        None \<Rightarrow> None
      | Some _ \<Rightarrow> Some \<lparr>wr_provider = prov, wr_rejectReason = rejectionReasonHostQueueTimeout,
                       wr_reselectable = False\<rparr>)"

definition host_Limit :: "host_limiter \<Rightarrow> nat option" where
  "host_Limit h = map_option lim_cap (hl_sem h)"

definition host_InFlight :: "host_limiter \<Rightarrow> int" where
  "host_InFlight h =
     (case hl_sem h of Some s \<Rightarrow> int (lim_InFlight s) | None \<Rightarrow> sint (hl_inFlight h))"

datatype count_event = CountEnter | CountLeave

definition host_count :: "host_limiter \<Rightarrow> count_event \<Rightarrow> host_limiter" where
  "host_count h e =
     h\<lparr>hl_inFlight := (case e of CountEnter \<Rightarrow> hl_inFlight h + 1 | CountLeave \<Rightarrow> hl_inFlight h - 1)\<rparr>"

section \<open>Invariant\<close>

fun holds_slot :: "lim_phase \<Rightarrow> bool" where
  "holds_slot Granted = True"
| "holds_slot Running = True"
| "holds_slot _ = False"

fun counted :: "lim_phase \<Rightarrow> bool" where
  "counted (Waiting _) = True"
| "counted Granted = True"
| "counted (GivingUp _ _) = True"
| "counted _ = False"

definition slot_count :: "limiter \<Rightarrow> nat" where
  "slot_count s = length (filter (\<lambda>r. holds_slot (lr_phase r)) (lim_reqs s))"

definition wait_count :: "limiter \<Rightarrow> nat \<Rightarrow> nat" where
  "wait_count s k = length (filter (\<lambda>r. lr_wrapper r = k \<and> counted (lr_phase r)) (lim_reqs s))"

definition lim_inv :: "nat \<Rightarrow> limiter \<Rightarrow> bool" where
  "lim_inv cap s \<longleftrightarrow>
     lim_cap s = cap \<and> lim_sem s = slot_count s \<and> lim_sem s \<le> cap \<and>
     (\<forall>k. lim_waiters s k = int (wait_count s k))"

text \<open>One request moves on: the gauges must move with its phase.\<close>

lemma lim_inv_update:
  assumes "lim_inv cap s" "i < length (lim_reqs s)"
    and "lim_cap s' = lim_cap s" "lim_reqs s' = (lim_reqs s)[i := r']"
    and "lr_wrapper r' = lr_wrapper (lim_reqs s ! i)"
    and "int (lim_sem s') = int (lim_sem s) + of_bool (holds_slot (lr_phase r'))
           - of_bool (holds_slot (lr_phase (lim_reqs s ! i)))"
    and "lim_sem s' \<le> cap"
    and "\<And>k. lim_waiters s' k = lim_waiters s k +
           (if k = lr_wrapper r' then of_bool (counted (lr_phase r'))
              - of_bool (counted (lr_phase (lim_reqs s ! i))) else 0)"
  shows "lim_inv cap s'"
proof -
  have "int (slot_count s') = int (slot_count s) + of_bool (holds_slot (lr_phase r'))
      - of_bool (holds_slot (lr_phase (lim_reqs s ! i)))"
    using assms(2) by (simp add: slot_count_def assms(4) length_filter_update)
  moreover have "int (wait_count s' k) = int (wait_count s k) +
      (if k = lr_wrapper r' then of_bool (counted (lr_phase r'))
         - of_bool (counted (lr_phase (lim_reqs s ! i))) else 0)" for k
    using assms(2,5) by (simp add: wait_count_def assms(4) length_filter_update)
  ultimately show ?thesis using assms(1,3,6,7,8) by (simp add: lim_inv_def)
qed

lemma set_req_fields [simp]:
  "lim_cap (set_req i ph s) = lim_cap s" "lim_sem (set_req i ph s) = lim_sem s"
  "lim_waiters (set_req i ph s) = lim_waiters s"
  "lim_queueWait (set_req i ph s) = lim_queueWait s"
  "lim_reqs (set_req i ph s) = (lim_reqs s)[i := (lim_reqs s ! i)\<lparr>lr_phase := ph\<rparr>]"
  by (simp_all add: set_req_def)

lemma add_waiters_fields [simp]:
  "lim_cap (add_waiters k d s) = lim_cap s" "lim_sem (add_waiters k d s) = lim_sem s"
  "lim_reqs (add_waiters k d s) = lim_reqs s"
  "lim_queueWait (add_waiters k d s) = lim_queueWait s"
  "lim_waiters (add_waiters k d s) j = lim_waiters s j + (if j = k then d else 0)"
  by (simp_all add: add_waiters_def)

lemma observeQueueWait_fields [simp]:
  "lim_cap (observeQueueWait l d s) = lim_cap s" "lim_sem (observeQueueWait l d s) = lim_sem s"
  "lim_reqs (observeQueueWait l d s) = lim_reqs s"
  "lim_waiters (observeQueueWait l d s) = lim_waiters s"
  by (simp_all add: observeQueueWait_def)

definition gave_up :: "wrapper \<Rightarrow> lim_result \<Rightarrow> lim_req \<Rightarrow> lim_req" where
  "gave_up l res r =
     (if res = Refused
      then r\<lparr>lr_phase := Returned res, lr_resp := writeRateLimited 0 (timeoutReason l) (lr_resp r)\<rparr>
      else r\<lparr>lr_phase := Returned res\<rparr>)"

lemma finish_giving_up_fields:
  assumes "i < length (lim_reqs s)"
  shows "lim_cap (finish_giving_up l i q res now s) = lim_cap s"
    "lim_sem (finish_giving_up l i q res now s) = lim_sem s"
    "lim_waiters (finish_giving_up l i q res now s) = lim_waiters s"
    "lim_reqs (finish_giving_up l i q res now s) = (lim_reqs s)[i := gave_up l res (lim_reqs s ! i)]"
  using assms by (simp_all add: finish_giving_up_def gave_up_def Let_def)

lemma gave_up_fields [simp]:
  "lr_phase (gave_up l res r) = Returned res" "lr_wrapper (gave_up l res r) = lr_wrapper r"
  "lr_signal (gave_up l res r) = lr_signal r"
  by (simp_all add: gave_up_def)

text \<open>The transitions of one request, one line per arm of the code.\<close>

lemma lim_onE:
  assumes "lim_on ws e i s = Some s'"
  defines "r \<equiv> lim_reqs s ! i"
  obtains (count_in) now where "i < length (lim_reqs s)" "lr_phase r = Entering"
      "s' = add_waiters (lr_wrapper r) 1 (set_req i (Waiting now) s)"
  | (take) q now where "i < length (lim_reqs s)" "lr_phase r = Waiting q" "lim_sem s < lim_cap s"
      "s' = observeQueueWait (ws (lr_wrapper r)) (now - q) (set_req i Granted (s\<lparr>lim_sem := lim_sem s + 1\<rparr>))"
  | (give_up) q res where "i < length (lim_reqs s)" "lr_phase r = Waiting q" "res \<noteq> Served"
      "res = HandedBack \<longrightarrow> wr_reselectable (ws (lr_wrapper r)) \<and> lr_signal r"
      "s' = set_req i (GivingUp q res) s"
  | (gone) q res now where "i < length (lim_reqs s)" "lr_phase r = GivingUp q res"
      "s' = finish_giving_up (ws (lr_wrapper r)) i q res now (add_waiters (lr_wrapper r) (- 1) s)"
  | (run) "i < length (lim_reqs s)" "lr_phase r = Granted"
      "s' = add_waiters (lr_wrapper r) (- 1) (set_req i Running s)"
  | (return) "i < length (lim_reqs s)" "lr_phase r = Running"
      "s' = set_req i (Returned Served) (s\<lparr>lim_sem := lim_sem s - 1\<rparr>)"
proof -
  have i: "i < length (lim_reqs s)" using assms(1) by (auto simp: lim_on_def Let_def split: if_splits)
  note step = assms(1) [unfolded lim_on_def Let_def, folded r_def]
  show thesis
  proof (cases "lr_phase r")
    case Entering
    with step i count_in show thesis by (auto split: lim_event.splits)
  next
    case (Waiting q)
    show thesis
    proof (cases e)
      case (TakeSlot j now)
      with step i take Waiting show thesis by (auto split: if_splits)
    next
      case (Stale j)
      with step i give_up [of q HandedBack] Waiting show thesis by (auto split: if_splits)
    next
      case (TimeOut j)
      with step i give_up [of q Refused] Waiting show thesis by simp
    next
      case (ClientDone j)
      with step i give_up [of q Disconnected] Waiting show thesis by simp
    qed (use step i Waiting in simp_all)
  next
    case Granted
    with step i run show thesis by (auto split: lim_event.splits)
  next
    case (GivingUp q res)
    with step i gone show thesis by (auto split: lim_event.splits)
  next
    case Running
    with step i return show thesis by (auto split: lim_event.splits)
  next
    case (Returned res)
    with step i show thesis by simp
  qed
qed

lemma lim_arrive_inv: "lim_inv cap s \<Longrightarrow> lim_inv cap (lim_arrive k sig resp s)"
  by (auto simp: lim_inv_def lim_arrive_def slot_count_def wait_count_def Let_def)

lemma lim_on_inv:
  assumes "lim_inv cap s" "lim_on ws e i s = Some s'"
  shows "lim_inv cap s'"
proof -
  have le: "lim_sem s \<le> cap" "lim_cap s = cap" using assms(1) by (simp_all add: lim_inv_def)
  have pos: "0 < lim_sem s" if "i < length (lim_reqs s)" "holds_slot (lr_phase (lim_reqs s ! i))"
  proof -
    have "lim_reqs s ! i \<in> set (filter (\<lambda>r. holds_slot (lr_phase r)) (lim_reqs s))"
      using that by simp
    then have "0 < slot_count s" unfolding slot_count_def by (rule length_pos_if_in_set)
    with assms(1) show ?thesis by (simp add: lim_inv_def)
  qed
  from assms(2) show ?thesis
  proof (cases rule: lim_onE)
    case (count_in now)
    with le show ?thesis by (intro lim_inv_update [OF assms(1) count_in(1),
        where r' = "(lim_reqs s ! i)\<lparr>lr_phase := Waiting now\<rparr>"]) auto
  next
    case (take q now)
    with le show ?thesis by (intro lim_inv_update [OF assms(1) take(1),
        where r' = "(lim_reqs s ! i)\<lparr>lr_phase := Granted\<rparr>"]) auto
  next
    case (give_up q res)
    with le show ?thesis by (intro lim_inv_update [OF assms(1) give_up(1),
        where r' = "(lim_reqs s ! i)\<lparr>lr_phase := GivingUp q res\<rparr>"]) auto
  next
    case (gone q res now)
    with le show ?thesis
      by (intro lim_inv_update [OF assms(1) gone(1),
        where r' = "gave_up (ws (lr_wrapper (lim_reqs s ! i))) res (lim_reqs s ! i)"]) (auto simp: finish_giving_up_fields)
  next
    case run
    with le show ?thesis by (intro lim_inv_update [OF assms(1) run(1),
        where r' = "(lim_reqs s ! i)\<lparr>lr_phase := Running\<rparr>"]) auto
  next
    case return
    with le pos show ?thesis by (intro lim_inv_update [OF assms(1) return(1),
        where r' = "(lim_reqs s ! i)\<lparr>lr_phase := Returned Served\<rparr>"]) auto
  qed
qed

lemma lim_step_cases:
  assumes "lim_step ws s e = Some s'"
  obtains k sig resp where "e = Arrive k sig resp" "s' = lim_arrive k sig resp s"
  | i where "lim_on ws e i s = Some s'"
  using assms by (cases e) (auto simp: lim_step_def)

interpretation limiter: step_invariant "\<lambda>s. s = limiter_start cap" "lim_step ws" "lim_inv cap"
  for cap ws
proof unfold_locales
  show "lim_inv cap s" if "s = limiter_start cap" for s
    using that by (simp add: lim_inv_def limiter_start_def slot_count_def wait_count_def)
  show "lim_inv cap s'" if "lim_inv cap s" "lim_step ws s e = Some s'" for s e s'
    using that(2) by (cases rule: lim_step_cases) (use that(1) lim_arrive_inv lim_on_inv in blast)+
qed

section \<open>Answers\<close>

definition lim_answered :: "(nat \<Rightarrow> wrapper) \<Rightarrow> lim_req \<Rightarrow> bool" where
  "lim_answered ws r \<longleftrightarrow>
     lr_resp r = (if lr_phase r = Returned Refused
                  then writeRateLimited 0 (timeoutReason (ws (lr_wrapper r))) (fresh_response, Some [])
                  else (fresh_response, Some []))"

fun fresh_arrival :: "lim_event \<Rightarrow> bool" where
  "fresh_arrival (Arrive k sig resp) \<longleftrightarrow> resp = (fresh_response, Some [])"
| "fresh_arrival _ \<longleftrightarrow> True"

lemma all_update: "\<forall>r \<in> set xs. P r \<Longrightarrow> P y \<Longrightarrow> \<forall>r \<in> set (xs[i := y]). P r"
  using set_update_subset_insert [of xs i y] by auto

lemma lim_on_answered:
  assumes "lim_on ws e i s = Some s'" "\<forall>r \<in> set (lim_reqs s). lim_answered ws r"
  shows "\<forall>r \<in> set (lim_reqs s'). lim_answered ws r"
proof -
  have a: "lim_answered ws (lim_reqs s ! i)" if "i < length (lim_reqs s)" using assms(2) that by simp
  note upd = all_update [OF assms(2)]
  from assms(1) show ?thesis
  proof (cases rule: lim_onE)
    case (gone q res now)
    then have "lim_answered ws (gave_up (ws (lr_wrapper (lim_reqs s ! i))) res (lim_reqs s ! i))"
      using a by (simp add: lim_answered_def gave_up_def)
    with gone show ?thesis by (simp add: finish_giving_up_fields upd)
  next
    case (count_in now)
    then have "lim_answered ws ((lim_reqs s ! i)\<lparr>lr_phase := Waiting now\<rparr>)"
      using a by (simp add: lim_answered_def)
    with count_in show ?thesis by (simp add: upd)
  next
    case (take q now)
    then have "lim_answered ws ((lim_reqs s ! i)\<lparr>lr_phase := Granted\<rparr>)"
      using a by (simp add: lim_answered_def)
    with take show ?thesis by (simp add: upd)
  next
    case (give_up q res)
    then have "lim_answered ws ((lim_reqs s ! i)\<lparr>lr_phase := GivingUp q res\<rparr>)"
      using a by (simp add: lim_answered_def)
    with give_up show ?thesis by (simp add: upd)
  next
    case run
    then have "lim_answered ws ((lim_reqs s ! i)\<lparr>lr_phase := Running\<rparr>)"
      using a by (simp add: lim_answered_def)
    with run show ?thesis by (simp add: upd)
  next
    case return
    then have "lim_answered ws ((lim_reqs s ! i)\<lparr>lr_phase := Returned Served\<rparr>)"
      using a by (simp add: lim_answered_def)
    with return show ?thesis by (simp add: upd)
  qed
qed

lemma lim_run_answered:
  "run_steps (lim_step ws) s es = Some s' \<Longrightarrow> \<forall>e \<in> set es. fresh_arrival e \<Longrightarrow>
   \<forall>r \<in> set (lim_reqs s). lim_answered ws r \<Longrightarrow> \<forall>r \<in> set (lim_reqs s'). lim_answered ws r"
proof (induction es arbitrary: s)
  case (Cons e es)
  then obtain t where t: "lim_step ws s e = Some t" "run_steps (lim_step ws) t es = Some s'"
    by (auto split: option.splits)
  from t(1) have "\<forall>r \<in> set (lim_reqs t). lim_answered ws r"
  proof (cases rule: lim_step_cases)
    case (1 k sig resp)
    with Cons.prems(2,3) show ?thesis by (auto simp: lim_arrive_def lim_answered_def Let_def)
  next
    case (2 i)
    with lim_on_answered Cons.prems(3) show ?thesis by blast
  qed
  with Cons t(2) show ?case by simp
qed simp

section \<open>Progress\<close>

fun lim_rank :: "lim_phase \<Rightarrow> nat" where
  "lim_rank Entering = 4"
| "lim_rank (Waiting _) = 3"
| "lim_rank Granted = 2"
| "lim_rank (GivingUp _ _) = 1"
| "lim_rank Running = 1"
| "lim_rank (Returned _) = 0"

definition lim_pot :: "limiter \<Rightarrow> nat" where
  "lim_pot s = sum_list (map (\<lambda>r. lim_rank (lr_phase r)) (lim_reqs s))"

text \<open>Phases from which a request can still be served, or was.\<close>

fun hopeful :: "lim_phase \<Rightarrow> bool" where
  "hopeful (GivingUp _ _) = False"
| "hopeful (Returned res) = (res = Served)"
| "hopeful _ = True"

definition lim_progress :: "limiter \<Rightarrow> limiter \<Rightarrow> bool" where
  "lim_progress s s' \<longleftrightarrow>
     length (lim_reqs s') = length (lim_reqs s) \<and>
     (\<forall>j < length (lim_reqs s). hopeful (lr_phase (lim_reqs s ! j)) \<longrightarrow> hopeful (lr_phase (lim_reqs s' ! j)))"

lemma lim_progress_trans: "lim_progress s t \<Longrightarrow> lim_progress t u \<Longrightarrow> lim_progress s u"
  by (simp add: lim_progress_def)

lemma lim_advance:
  assumes "lim_step ws s e = Some s'" "i < length (lim_reqs s)" "lim_reqs s' = (lim_reqs s)[i := r']"
    and "lim_rank (lr_phase r') < lim_rank (lr_phase (lim_reqs s ! i))"
    and "hopeful (lr_phase (lim_reqs s ! i)) \<longrightarrow> hopeful (lr_phase r')"
  shows "\<exists>e s'. lim_step ws s e = Some s' \<and> lim_pot s' < lim_pot s \<and> lim_progress s s'"
proof -
  let ?f = "\<lambda>r. lim_rank (lr_phase r)"
  have "sum_list (map ?f ((lim_reqs s)[i := r'])) =
      sum_list (map ?f (lim_reqs s)) + ?f r' - ?f (lim_reqs s ! i)"
    using assms(2) by (simp add: map_update sum_list_update)
  moreover have "?f (lim_reqs s ! i) \<le> sum_list (map ?f (lim_reqs s))"
    using assms(2) by (intro member_le_sum_list) auto
  ultimately have "lim_pot s' < lim_pot s" using assms(4) by (simp add: lim_pot_def assms(3))
  moreover have "lim_progress s s'" using assms(1,2,5) by (auto simp: lim_progress_def assms(3) nth_list_update)
  ultimately show ?thesis using assms(1) by blast
qed

lemma lim_can_advance:
  assumes "lim_inv cap s" "0 < cap" "i < length (lim_reqs s)" "\<forall>res. lr_phase (lim_reqs s ! i) \<noteq> Returned res"
  shows "\<exists>e s'. lim_step ws s e = Some s' \<and> lim_pot s' < lim_pot s \<and> lim_progress s s'"
proof (cases "\<exists>j < length (lim_reqs s). holds_slot (lr_phase (lim_reqs s ! j))")
  case True
  then obtain j where j: "j < length (lim_reqs s)" "holds_slot (lr_phase (lim_reqs s ! j))" by blast
  then consider (granted) "lr_phase (lim_reqs s ! j) = Granted" | (running) "lr_phase (lim_reqs s ! j) = Running"
    by (cases "lr_phase (lim_reqs s ! j)") auto
  then show ?thesis
  proof cases
    case granted
    with j(1) show ?thesis
      by (intro lim_advance [where e = "CountOut j 0" and i = j and
            r' = "(lim_reqs s ! j)\<lparr>lr_phase := Running\<rparr>"]) (simp add: lim_step_def lim_on_def, simp_all)
  next
    case running
    with j(1) show ?thesis
      by (intro lim_advance [where e = "HandlerReturns j" and i = j and
            r' = "(lim_reqs s ! j)\<lparr>lr_phase := Returned Served\<rparr>"]) (simp add: lim_step_def lim_on_def, simp_all)
  qed
next
  case False
  then have "slot_count s = 0" by (auto simp: slot_count_def filter_empty_conv in_set_conv_nth)
  then have free: "lim_sem s < lim_cap s" using assms(1,2) by (simp add: lim_inv_def)
  show ?thesis
  proof (cases "lr_phase (lim_reqs s ! i)")
    case Entering
    with assms(3) show ?thesis
      by (intro lim_advance [where e = "CountIn i 0" and i = i and
            r' = "(lim_reqs s ! i)\<lparr>lr_phase := Waiting 0\<rparr>"]) (simp add: lim_step_def lim_on_def, simp_all)
  next
    case (Waiting q)
    with assms(3) free show ?thesis
      by (intro lim_advance [where e = "TakeSlot i 0" and i = i and
            r' = "(lim_reqs s ! i)\<lparr>lr_phase := Granted\<rparr>"]) (simp add: lim_step_def lim_on_def, simp_all)
  next
    case (GivingUp q res)
    with assms(3) show ?thesis
      by (intro lim_advance [where e = "CountOut i 0" and i = i and
            r' = "gave_up (ws (lr_wrapper (lim_reqs s ! i))) res (lim_reqs s ! i)"])
         (simp add: lim_step_def lim_on_def Let_def, simp_all add: finish_giving_up_fields)
  qed (use False assms(3,4) in auto)
qed

lemma lim_drain:
  assumes "lim_inv cap s" "0 < cap"
  shows "\<exists>es s'. run_steps (lim_step ws) s es = Some s' \<and> lim_progress s s' \<and>
     (\<forall>i < length (lim_reqs s'). \<exists>res. lr_phase (lim_reqs s' ! i) = Returned res)"
  using assms(1)
proof (induction "lim_pot s" arbitrary: s rule: less_induct)
  case less
  show ?case
  proof (cases "\<exists>i < length (lim_reqs s). \<forall>res. lr_phase (lim_reqs s ! i) \<noteq> Returned res")
    case False
    then show ?thesis by (intro exI [of _ "[]"] exI [of _ s]) (auto simp: lim_progress_def)
  next
    case True
    then obtain e t where t: "lim_step ws s e = Some t" "lim_pot t < lim_pot s" "lim_progress s t"
      using lim_can_advance [OF less.prems assms(2)] by blast
    moreover have "lim_inv cap t" using limiter.step_inv less.prems t(1) by blast
    ultimately obtain es s' where "run_steps (lim_step ws) t es = Some s'" "lim_progress t s'"
      "\<forall>i < length (lim_reqs s'). \<exists>res. lr_phase (lim_reqs s' ! i) = Returned res"
      using less.hyps by blast
    with t show ?thesis
      by (intro exI [of _ "e # es"] exI [of _ s']) (auto intro: lim_progress_trans)
  qed
qed

section \<open>Properties\<close>

definition ex_wrapper :: wrapper where
  "ex_wrapper = \<lparr>wr_provider = ''p'', wr_rejectReason = rejectionReasonHostQueueTimeout,
     wr_reselectable = False\<rparr>"

definition ex_arrive :: lim_event where
  "ex_arrive = Arrive 0 False (fresh_response, Some [])"

lemmas lim_eval =
  limiter_start_def lim_step_def lim_arrive_def lim_on_def set_req_def add_waiters_def
  observeQueueWait_def finish_giving_up_def ex_arrive_def Let_def

text \<open>
  C10. Whatever the interleaving of the requests of all wrappers that share a semaphore: at
  most \<open>cap\<close> requests are inside the wrapped handlers, the in-flight gauge is the number of
  requests holding a slot, and each wrapper's queued gauge is the number of its requests
  between being counted in and counted out.
\<close>

theorem limiter_never_exceeds_cap:
  assumes "run_steps (lim_step ws) (limiter_start cap) es = Some s"
  shows "length (filter (\<lambda>r. lr_phase r = Running) (lim_reqs s)) \<le> cap \<and>
         lim_InFlight s = length (filter (\<lambda>r. holds_slot (lr_phase r)) (lim_reqs s)) \<and>
         lim_Queued s k = int (length (filter (\<lambda>r. lr_wrapper r = k \<and> counted (lr_phase r)) (lim_reqs s)))"
proof -
  have "lim_inv cap s" using limiter.reachable_inv assms by blast
  moreover have "length (filter (\<lambda>r. lr_phase r = Running) (lim_reqs s)) \<le> slot_count s"
    unfolding slot_count_def by (rule length_filter_mono) simp
  ultimately show ?thesis
    by (simp add: lim_inv_def lim_InFlight_def lim_Queued_def slot_count_def wait_count_def)
qed

theorem limiter_never_exceeds_cap_witness:
  "\<exists>s. run_steps (lim_step (\<lambda>k. ex_wrapper)) (limiter_start 1) [ex_arrive, ex_arrive, CountIn 1 0] = Some s \<and>
     lim_InFlight s = 1 \<and> lim_Queued s 0 = 1"
proof -
  let ?r = "run_steps (lim_step (\<lambda>k. ex_wrapper)) (limiter_start 1) [ex_arrive, ex_arrive, CountIn 1 0]"
  have "\<exists>s. ?r = Some s \<and> map lr_phase (lim_reqs s) = [Running, Waiting 0] \<and> map lr_wrapper (lim_reqs s) = [0, 0]"
    by (simp add: lim_eval)
  then obtain s where s: "?r = Some s" "map lr_phase (lim_reqs s) = [Running, Waiting 0]"
    "map lr_wrapper (lim_reqs s) = [0, 0]" by metis
  then obtain a b where "lim_reqs s = [a, b]" by (auto simp: map_eq_Cons_conv)
  with s limiter_never_exceeds_cap [OF s(1), of 0] show ?thesis by simp
qed

text \<open>
  A request the limiter refuses is answered 429 with the static JSON body and without a
  \<open>Retry-After\<close> header, and its slot names the limiter's own reason; a request handed
  back to its pool or abandoned by its client has nothing written and no reason recorded.
\<close>

theorem limiter_answers:
  assumes "run_steps (lim_step ws) (limiter_start cap) es = Some s" "\<forall>e \<in> set es. fresh_arrival e"
    and "r \<in> set (lim_reqs s)"
  shows "lr_resp r =
     (if lr_phase r = Returned Refused
      then (\<lparr>rs_headers = [(''Content-Type'', ''application/json'')], rs_status = Some 429,
             rs_body = limiter429Body\<rparr>, Some (timeoutReason (ws (lr_wrapper r))))
      else (fresh_response, Some []))"
proof -
  have "lim_answered ws r"
    using lim_run_answered [OF assms(1,2)] assms(3) by (simp add: limiter_start_def)
  then show ?thesis by (simp add: lim_answered_def writeRateLimited_fresh)
qed

definition ex_refused :: "lim_event list" where
  "ex_refused = [ex_arrive, ex_arrive, CountIn 1 5, TimeOut 1, CountOut 1 9]"

theorem limiter_answers_witness:
  "\<exists>s. run_steps (lim_step (\<lambda>k. ex_wrapper)) (limiter_start 1) ex_refused = Some s \<and>
     lim_queueWait s = [(''p'', 4)] \<and>
     rs_status (fst (lr_resp (lim_reqs s ! 1))) = Some 429 \<and>
     snd (lr_resp (lim_reqs s ! 1)) = Some ''host_queue_timeout''"
proof -
  let ?r = "run_steps (lim_step (\<lambda>k. ex_wrapper)) (limiter_start 1) ex_refused"
  have "\<exists>s. ?r = Some s \<and> lim_queueWait s = [(''p'', 4)] \<and> length (lim_reqs s) = 2 \<and>
      lr_phase (lim_reqs s ! 1) = Returned Refused \<and> lr_wrapper (lim_reqs s ! 1) = 0"
    by (simp add: lim_eval ex_refused_def ex_wrapper_def)
  then obtain s where s: "?r = Some s" "lim_queueWait s = [(''p'', 4)]" "length (lim_reqs s) = 2"
      "lr_phase (lim_reqs s ! 1) = Returned Refused" "lr_wrapper (lim_reqs s ! 1) = 0" by blast
  have "\<forall>e \<in> set ex_refused. fresh_arrival e" by (simp add: ex_refused_def ex_arrive_def)
  from limiter_answers [OF s(1) this, of "lim_reqs s ! 1"] s show ?thesis
    by (simp add: timeoutReason_def ex_wrapper_def rejection_reasons)
qed

text \<open>
  C39. No slot is ever lost: whenever all requests of a limiter have returned, however they ended and in
  whatever order, both gauges read zero; and from every reachable state of a limiter with a positive
  cap the requests can run to completion, with every request served that has not given up yet.
\<close>

theorem limiter_loses_no_slot:
  assumes "run_steps (lim_step ws) (limiter_start cap) es = Some s" "0 < cap"
  shows "((\<forall>r \<in> set (lim_reqs s). \<exists>res. lr_phase r = Returned res) \<longrightarrow>
       lim_InFlight s = 0 \<and> (\<forall>k. lim_Queued s k = 0)) \<and>
    (\<exists>es' s'. run_steps (lim_step ws) s es' = Some s' \<and>
       (\<forall>r \<in> set (lim_reqs s'). \<exists>res. lr_phase r = Returned res) \<and>
       (\<forall>i < length (lim_reqs s). hopeful (lr_phase (lim_reqs s ! i)) \<longrightarrow>
          lr_phase (lim_reqs s' ! i) = Returned Served))"
proof -
  have inv: "lim_inv cap s" using limiter.reachable_inv assms(1) by blast
  then obtain es' s' where r: "run_steps (lim_step ws) s es' = Some s'" "lim_progress s s'"
    "\<forall>i < length (lim_reqs s'). \<exists>res. lr_phase (lim_reqs s' ! i) = Returned res"
    using lim_drain assms(2) by blast
  have "lim_InFlight s = 0 \<and> (\<forall>k. lim_Queued s k = 0)"
    if ret: "\<forall>r \<in> set (lim_reqs s). \<exists>res. lr_phase r = Returned res"
  proof -
    have "slot_count s = 0" "wait_count s k = 0" for k
      using ret by (force simp: slot_count_def wait_count_def filter_empty_conv)+
    with inv show ?thesis by (simp add: lim_inv_def lim_InFlight_def lim_Queued_def)
  qed
  moreover have "lr_phase (lim_reqs s' ! i) = Returned Served"
    if "i < length (lim_reqs s)" "hopeful (lr_phase (lim_reqs s ! i))" for i
    using r(2,3) that by (force simp: lim_progress_def)
  moreover have "\<forall>x \<in> set (lim_reqs s'). \<exists>res. lr_phase x = Returned res"
    using r(3) by (auto simp: in_set_conv_nth)
  ultimately show ?thesis using r(1) by blast
qed

theorem limiter_loses_no_slot_witness:
  "\<exists>s es' s'. run_steps (lim_step (\<lambda>k. ex_wrapper)) (limiter_start 1) [ex_arrive, ex_arrive] = Some s \<and>
     run_steps (lim_step (\<lambda>k. ex_wrapper)) s es' = Some s' \<and> lim_InFlight s' = 0 \<and>
     lr_phase (lim_reqs s' ! 1) = Returned Served"
proof -
  let ?r = "run_steps (lim_step (\<lambda>k. ex_wrapper)) (limiter_start 1) [ex_arrive, ex_arrive]"
  have "\<exists>s. ?r = Some s \<and> length (lim_reqs s) = 2 \<and> lr_phase (lim_reqs s ! 1) = Entering"
    by (simp add: lim_eval)
  then obtain s where s: "?r = Some s" "length (lim_reqs s) = 2" "lr_phase (lim_reqs s ! 1) = Entering"
    by blast
  obtain es' s' where r: "run_steps (lim_step (\<lambda>k. ex_wrapper)) s es' = Some s'"
    "\<forall>r \<in> set (lim_reqs s'). \<exists>res. lr_phase r = Returned res"
    "\<forall>i < length (lim_reqs s). hopeful (lr_phase (lim_reqs s ! i)) \<longrightarrow>
        lr_phase (lim_reqs s' ! i) = Returned Served"
    using limiter_loses_no_slot [OF s(1)] by auto
  have "run_steps (lim_step (\<lambda>k. ex_wrapper)) (limiter_start 1) ([ex_arrive, ex_arrive] @ es') = Some s'"
    using s(1) r(1) by (simp only: run_steps_append option.case)
  from limiter_loses_no_slot [OF this] r(2) have "lim_InFlight s' = 0" by simp
  moreover from r(3) s have "lr_phase (lim_reqs s' ! 1) = Returned Served" by simp
  ultimately show ?thesis using s(1) r(1) by blast
qed

text \<open>
  The two gauges are not disjoint at every instant: between taking a slot and being
  counted out, a single request reads as one request in flight and one queued.
\<close>

theorem gauges_overlap_briefly:
  "\<exists>es s. run_steps (lim_step (\<lambda>k. ex_wrapper)) (limiter_start 1) es = Some s \<and>
     lim_InFlight s = 1 \<and> lim_Queued s 0 = 1 \<and>
     length (filter (\<lambda>r. \<forall>res. lr_phase r \<noteq> Returned res) (lim_reqs s)) = 1"
  by (intro exI [of _ "[ex_arrive, ex_arrive, CountIn 1 0, HandlerReturns 0, TakeSlot 1 0]"])
     (simp add: lim_eval lim_InFlight_def lim_Queued_def)

end
