(* ===== verification/Throttle.thy ===== *)
theory Throttle
  imports Response
begin

text \<open>
  The throttle gate (\<open>throttle-gate.go\<close>): upstream 429 responses are counted over a
  window; at the threshold the provider is paced, the delay doubles on each further 429
  and halves on each clean window. The detector is a record of the fields under the mutex;
  the gate adds the pacing slots and the requests inside \<open>ServeHTTP\<close>, whose goroutines
  interleave at the level of the events.
\<close>

section \<open>The detector\<close>

definition throttleObservationWindow :: duration where "throttleObservationWindow = 60 * second_ns"
definition throttleInitialDelay :: duration where "throttleInitialDelay = second_ns"
definition throttleRecoveryFloor :: duration where "throttleRecoveryFloor = second_ns"
definition throttleMaxPacedRequests :: nat where "throttleMaxPacedRequests = 32"

record detector =
  th_threshold :: int
  th_maxDelay :: duration
  th_window :: "time list"
  th_delay :: duration
  th_on :: bool
  th_lastHalf :: time

definition pruneWindow :: "time \<Rightarrow> detector \<Rightarrow> detector" where
  "pruneWindow now g =
     g\<lparr>th_window := filter (\<lambda>t. now - t < throttleObservationWindow) (th_window g)\<rparr>"

definition enterThrottle :: "time \<Rightarrow> detector \<Rightarrow> detector" where
  "enterThrottle now g =
     g\<lparr>th_on := True,
       th_delay := (if th_maxDelay g < throttleInitialDelay then th_maxDelay g else throttleInitialDelay),
       th_lastHalf := now\<rparr>"

definition increaseDelay :: "detector \<Rightarrow> detector" where
  "increaseDelay g =
     (let next = wrap64 (th_delay g * 2)
      in if th_maxDelay g < next \<or> next < th_delay g then g\<lparr>th_delay := th_maxDelay g\<rparr>
         else g\<lparr>th_delay := next\<rparr>)"

definition observe429 :: "time \<Rightarrow> detector \<Rightarrow> detector" where
  "observe429 now g =
     (let g' = g\<lparr>th_window := th_window g @ [now]\<rparr>
      in if \<not> th_on g' \<and> th_threshold g' \<le> int (length (th_window g')) then enterThrottle now g'
         else if th_on g' then increaseDelay g' else g')"

definition observeClean :: "time \<Rightarrow> detector \<Rightarrow> detector" where
  "observeClean now g =
     (if \<not> th_on g \<or> length (th_window g) \<noteq> 0 \<or> now - th_lastHalf g < throttleObservationWindow then g
      else
        (let g' = g\<lparr>th_delay := go_div (th_delay g) 2, th_lastHalf := now\<rparr>
         in if th_delay g' < throttleRecoveryFloor then g'\<lparr>th_on := False, th_delay := 0\<rparr> else g'))"

definition th_observe :: "int \<Rightarrow> time \<Rightarrow> detector \<Rightarrow> detector" where
  "th_observe status now g =
     (let g' = pruneWindow now g
      in if status = 429 then observe429 now g' else observeClean now g')"

section \<open>The gate\<close>

datatype th_phase =
    Forwarding
  | AwaitSlot duration
  | Pacing duration
  | ForwardingPaced
  | Releasing
  | ThDone

record th_req =
  tq_phase :: th_phase
  tq_resp :: "response \<times> rejection_slot"

record throttle =
  th_det :: detector
  th_pace :: nat
  th_paced :: nat
  th_reqs :: "th_req list"

definition NewThrottleGate :: "int \<Rightarrow> duration \<Rightarrow> throttle option" where
  "NewThrottleGate threshold maxDelay =
     (if threshold \<le> 0 then None
      else Some \<lparr>th_det = \<lparr>th_threshold = threshold, th_maxDelay = maxDelay, th_window = [],
                            th_delay = 0, th_on = False, th_lastHalf = 0\<rparr>,
                 th_pace = 0, th_paced = 0, th_reqs = []\<rparr>)"

datatype th_event =
    ThArrive "response \<times> rejection_slot"
  | PaceSlot nat
  | QueueTimer nat
  | DelayTimer nat
  | ThClientDone nat
  | InnerReturns nat "write_call list" time
  | InnerPanics nat
  | ThRelease nat

definition th_set :: "nat \<Rightarrow> th_phase \<Rightarrow> throttle \<Rightarrow> throttle" where
  "th_set i ph s = s\<lparr>th_reqs := (th_reqs s)[i := (th_reqs s ! i)\<lparr>tq_phase := ph\<rparr>]\<rparr>"

definition th_set_resp :: "nat \<Rightarrow> response \<times> rejection_slot \<Rightarrow> throttle \<Rightarrow> throttle" where
  "th_set_resp i w s = s\<lparr>th_reqs := (th_reqs s)[i := (th_reqs s ! i)\<lparr>tq_resp := w\<rparr>]\<rparr>"

text \<open>\<open>forward\<close>: the wrapped handler writes through a status recorder; its status is observed.\<close>

definition th_forward :: "nat \<Rightarrow> write_call list \<Rightarrow> time \<Rightarrow> th_phase \<Rightarrow> throttle \<Rightarrow> throttle" where
  "th_forward i calls now ph s =
     (let w = tq_resp (th_reqs s ! i);
          rec = foldl sr_call (sr_new (fst w)) calls;
          s' = th_set i ph (th_set_resp i (sr_writer rec, snd w) s)
      in s'\<lparr>th_det := th_observe (sr_status rec) now (th_det s')\<rparr>)"

definition th_arrive :: "response \<times> rejection_slot \<Rightarrow> throttle \<Rightarrow> throttle" where
  "th_arrive w s =
     (let ph = (if \<not> th_on (th_det s) then Forwarding else AwaitSlot (th_delay (th_det s)))
      in s\<lparr>th_reqs := th_reqs s @ [\<lparr>tq_phase = ph, tq_resp = w\<rparr>]\<rparr>)"

definition th_act :: "th_event \<Rightarrow> nat \<Rightarrow> throttle \<Rightarrow> throttle option" where
  "th_act e i s =
     (if \<not> i < length (th_reqs s) then None
      else case (tq_phase (th_reqs s ! i), e) of
        (Forwarding, InnerReturns _ calls now) \<Rightarrow> Some (th_forward i calls now ThDone s)
      | (AwaitSlot d, PaceSlot _) \<Rightarrow>
          if th_pace s < throttleMaxPacedRequests
          then Some (th_set i (Pacing d) (s\<lparr>th_pace := th_pace s + 1\<rparr>)) else None
      | (AwaitSlot d, QueueTimer _) \<Rightarrow>
          Some (th_set i ThDone
            (th_set_resp i (writeRateLimited 0 rejectionReasonThrottle (tq_resp (th_reqs s ! i))) s))
      | (AwaitSlot d, ThClientDone _) \<Rightarrow> Some (th_set i ThDone s)
      | (Pacing d, DelayTimer _) \<Rightarrow> Some (th_set i ForwardingPaced (s\<lparr>th_paced := th_paced s + 1\<rparr>))
      | (Pacing d, ThClientDone _) \<Rightarrow> Some (th_set i Releasing s)
      | (Forwarding, InnerPanics _) \<Rightarrow> Some (th_set i ThDone s)
      | (ForwardingPaced, InnerReturns _ calls now) \<Rightarrow> Some (th_forward i calls now Releasing s)
      | (ForwardingPaced, InnerPanics _) \<Rightarrow> Some (th_set i Releasing s)
      | (Releasing, ThRelease _) \<Rightarrow> Some (th_set i ThDone (s\<lparr>th_pace := th_pace s - 1\<rparr>))
      | _ \<Rightarrow> None)"

definition th_step :: "throttle \<Rightarrow> th_event \<Rightarrow> throttle option" where
  "th_step s e =
     (case e of
        ThArrive w \<Rightarrow> Some (th_arrive w s)
      | PaceSlot i \<Rightarrow> th_act e i s
      | QueueTimer i \<Rightarrow> th_act e i s
      | DelayTimer i \<Rightarrow> th_act e i s
      | ThClientDone i \<Rightarrow> th_act e i s
      | InnerReturns i calls now \<Rightarrow> th_act e i s
      | InnerPanics i \<Rightarrow> th_act e i s
      | ThRelease i \<Rightarrow> th_act e i s)"

definition th_Delay :: "throttle \<Rightarrow> duration" where "th_Delay s = th_delay (th_det s)"
definition th_Throttled :: "throttle \<Rightarrow> bool" where "th_Throttled s = th_on (th_det s)"

section \<open>Invariant of the detector\<close>

definition det_inv :: "int \<Rightarrow> duration \<Rightarrow> detector \<Rightarrow> bool" where
  "det_inv threshold maxDelay g \<longleftrightarrow>
     th_threshold g = threshold \<and> th_maxDelay g = maxDelay \<and>
     (if th_on g then min throttleInitialDelay maxDelay \<le> th_delay g \<and> th_delay g \<le> maxDelay
      else th_delay g = 0 \<and> int (length (th_window g)) < threshold)"

lemma increaseDelay_min:
  assumes "0 < th_delay g" "th_delay g \<le> th_maxDelay g" "th_maxDelay g < 2 ^ 63"
  shows "increaseDelay g = g\<lparr>th_delay := min (2 * th_delay g) (th_maxDelay g)\<rparr>"
proof (cases "2 * th_delay g < 2 ^ 63")
  case True
  then have "wrap64 (th_delay g * 2) = 2 * th_delay g" using assms(1) by (simp add: wrap64_id)
  then show ?thesis using assms(1) by (auto simp: increaseDelay_def Let_def min_def)
next
  case False
  then have "wrap64 (th_delay g * 2) = 2 * th_delay g - 2 ^ 64"
    using wrap64_double [of "th_delay g"] assms by (simp add: mult.commute)
  then show ?thesis using False assms by (simp add: increaseDelay_def Let_def min_def)
qed

lemma prune_length: "length (th_window (pruneWindow now g)) \<le> length (th_window g)"
  by (simp add: pruneWindow_def)

lemma pruneWindow_fields [simp]:
  "th_threshold (pruneWindow now g) = th_threshold g" "th_maxDelay (pruneWindow now g) = th_maxDelay g"
  "th_delay (pruneWindow now g) = th_delay g" "th_on (pruneWindow now g) = th_on g"
  "th_lastHalf (pruneWindow now g) = th_lastHalf g"
  by (simp_all add: pruneWindow_def)

lemma det_inv_prune: "det_inv n m g \<Longrightarrow> det_inv n m (pruneWindow now g)"
  using prune_length [of now g] by (auto simp: det_inv_def)

lemma det_inv_on:
  assumes "det_inv n m g" "0 < m" "th_on g"
  shows "0 < th_delay g" "th_delay g \<le> m" "min throttleInitialDelay m \<le> th_delay g" "th_maxDelay g = m"
proof -
  have "0 < min throttleInitialDelay m" using assms(2) by (simp add: throttleInitialDelay_def)
  then show "0 < th_delay g" "th_delay g \<le> m" "min throttleInitialDelay m \<le> th_delay g" "th_maxDelay g = m"
    using assms(1,3) by (auto simp: det_inv_def simp del: min_less_iff_conj)
qed

lemma det_inv_429:
  assumes "det_inv n m g" "0 < m" "m < 2 ^ 63" "0 < n"
  shows "det_inv n m (observe429 now g)"
proof (cases "th_on g")
  case True
  let ?g = "g\<lparr>th_window := th_window g @ [now]\<rparr>"
  note on = det_inv_on [OF assms(1,2) True]
  then have "increaseDelay ?g = ?g\<lparr>th_delay := min (2 * th_delay g) m\<rparr>"
    "min throttleInitialDelay m \<le> min (2 * th_delay g) m"
    using increaseDelay_min [of ?g] assms(3) by (auto simp: min_def)
  then show ?thesis using True assms(1) by (simp add: observe429_def det_inv_def)
next
  case False
  with assms show ?thesis
    by (auto simp: observe429_def enterThrottle_def det_inv_def Let_def min_def)
qed

lemma go_div_2: "0 \<le> d \<Longrightarrow> go_div d 2 = d div 2" by simp

lemma det_inv_clean:
  assumes "det_inv n m g" "0 < m" "0 < n"
  shows "det_inv n m (observeClean now g)"
proof (cases "th_on g \<and> th_window g = [] \<and> \<not> now - th_lastHalf g < throttleObservationWindow")
  case True
  then have d: "0 < th_delay g" "th_delay g \<le> m" using det_inv_on [OF assms(1,2)] by blast+
  show ?thesis
  proof (cases "th_delay g div 2 < throttleRecoveryFloor")
    case floor: True
    with True d assms show ?thesis by (simp add: observeClean_def det_inv_def Let_def)
  next
    case False
    then have "min throttleInitialDelay m \<le> th_delay g div 2" "th_delay g div 2 \<le> m"
      using d by (auto simp: throttleRecoveryFloor_def throttleInitialDelay_def)
    with True False d assms(1) show ?thesis by (simp add: observeClean_def det_inv_def Let_def)
  qed
next
  case False
  then have "observeClean now g = g" by (auto simp: observeClean_def)
  with assms(1) show ?thesis by simp
qed

lemma det_inv_observe:
  assumes "det_inv n m g" "0 < m" "m < 2 ^ 63" "0 < n"
  shows "det_inv n m (th_observe status now g)"
  using assms det_inv_prune det_inv_429 det_inv_clean by (simp add: th_observe_def Let_def)

section \<open>Invariant of the gate\<close>

fun paces :: "th_phase \<Rightarrow> bool" where
  "paces (Pacing _) = True"
| "paces ForwardingPaced = True"
| "paces Releasing = True"
| "paces _ = False"

definition pace_count :: "throttle \<Rightarrow> nat" where
  "pace_count s = length (filter (\<lambda>r. paces (tq_phase r)) (th_reqs s))"

definition th_inv :: "int \<Rightarrow> duration \<Rightarrow> throttle \<Rightarrow> bool" where
  "th_inv n m s \<longleftrightarrow> det_inv n m (th_det s) \<and> th_pace s = pace_count s \<and> th_pace s \<le> throttleMaxPacedRequests"

lemma pace_count_update:
  assumes "i < length (th_reqs s)" "th_reqs s' = (th_reqs s)[i := r]"
  shows "int (pace_count s') = int (pace_count s) + of_bool (paces (tq_phase r))
           - of_bool (paces (tq_phase (th_reqs s ! i)))"
  using assms by (simp add: pace_count_def length_filter_update)

lemma th_set_fields [simp]:
  "th_det (th_set i ph s) = th_det s" "th_pace (th_set i ph s) = th_pace s"
  "th_paced (th_set i ph s) = th_paced s"
  "th_reqs (th_set i ph s) = (th_reqs s)[i := (th_reqs s ! i)\<lparr>tq_phase := ph\<rparr>]"
  "th_det (th_set_resp i w s) = th_det s" "th_pace (th_set_resp i w s) = th_pace s"
  "th_paced (th_set_resp i w s) = th_paced s"
  "th_reqs (th_set_resp i w s) = (th_reqs s)[i := (th_reqs s ! i)\<lparr>tq_resp := w\<rparr>]"
  by (simp_all add: th_set_def th_set_resp_def)

lemma th_forward_fields:
  assumes "i < length (th_reqs s)"
  shows "th_det (th_forward i calls now ph s) = th_observe (first_status calls) now (th_det s)"
    "th_pace (th_forward i calls now ph s) = th_pace s"
    "th_reqs (th_forward i calls now ph s) = (th_reqs s)[i := (th_reqs s ! i)\<lparr>tq_resp :=
       (sr_writer (foldl sr_call (sr_new (fst (tq_resp (th_reqs s ! i)))) calls), snd (tq_resp (th_reqs s ! i))),
       tq_phase := ph\<rparr>]"
  using assms by (simp_all add: th_forward_def Let_def recorded_status)

text \<open>One line per arm of \<open>ServeHTTP\<close>: the detector is fed, or only slots move.\<close>

lemma th_actE:
  assumes "th_act e i s = Some s'"
  obtains (fed) r calls now where "i < length (th_reqs s)" "th_reqs s' = (th_reqs s)[i := r]"
      "paces (tq_phase r) = paces (tq_phase (th_reqs s ! i))" "th_pace s' = th_pace s"
      "th_det s' = th_observe (first_status calls) now (th_det s)"
  | (slots) r where "i < length (th_reqs s)" "th_reqs s' = (th_reqs s)[i := r]"
      "th_det s' = th_det s"
      "int (th_pace s') = int (th_pace s) + of_bool (paces (tq_phase r)) - of_bool (paces (tq_phase (th_reqs s ! i)))
        \<or> th_pace s = 0 \<and> paces (tq_phase (th_reqs s ! i))"
      "th_pace s' \<le> max (th_pace s) throttleMaxPacedRequests"
proof -
  have i: "i < length (th_reqs s)" using assms by (auto simp: th_act_def split: if_splits)
  note step = assms [unfolded th_act_def]
  show thesis
  proof (cases "tq_phase (th_reqs s ! i)")
    case Forwarding
    show thesis
    proof (cases e)
      case (InnerPanics j)
      with step i Forwarding slots [of "(th_reqs s ! i)\<lparr>tq_phase := ThDone\<rparr>"] show thesis by auto
    qed (use step i Forwarding fed in \<open>auto simp: th_forward_fields\<close>)
  next
    case (AwaitSlot d)
    show thesis
    proof (cases e)
      case (PaceSlot j)
      with step i AwaitSlot have "s' = th_set i (Pacing d) (s\<lparr>th_pace := th_pace s + 1\<rparr>)"
        "th_pace s < throttleMaxPacedRequests" by (simp_all split: if_splits)
      with slots [of "(th_reqs s ! i)\<lparr>tq_phase := Pacing d\<rparr>"] i AwaitSlot show thesis by auto
    next
      case (QueueTimer j)
      with step i slots [of "(th_reqs s ! i)\<lparr>tq_resp := writeRateLimited 0 rejectionReasonThrottle
          (tq_resp (th_reqs s ! i)), tq_phase := ThDone\<rparr>"] AwaitSlot show thesis by auto
    next
      case (ThClientDone j)
      with step i slots [of "(th_reqs s ! i)\<lparr>tq_phase := ThDone\<rparr>"] AwaitSlot show thesis by auto
    qed (use step i AwaitSlot in simp_all)
  next
    case (Pacing d)
    show thesis
    proof (cases e)
      case (DelayTimer j)
      with step i Pacing slots [of "(th_reqs s ! i)\<lparr>tq_phase := ForwardingPaced\<rparr>"] show thesis by auto
    next
      case (ThClientDone j)
      with step i slots [of "(th_reqs s ! i)\<lparr>tq_phase := Releasing\<rparr>"] Pacing show thesis by auto
    qed (use step i Pacing in simp_all)
  next
    case ForwardingPaced
    show thesis
    proof (cases e)
      case (InnerPanics j)
      with step i ForwardingPaced slots [of "(th_reqs s ! i)\<lparr>tq_phase := Releasing\<rparr>"] show thesis by auto
    qed (use step i ForwardingPaced fed in \<open>auto simp: th_forward_fields\<close>)
  next
    case Releasing
    then have "s' = th_set i ThDone (s\<lparr>th_pace := th_pace s - 1\<rparr>)"
      using step i by (auto split: th_event.splits)
    with i slots [of "(th_reqs s ! i)\<lparr>tq_phase := ThDone\<rparr>"] Releasing show thesis by (cases "th_pace s") auto
  next
    case ThDone
    with step i show thesis by simp
  qed
qed

lemma th_act_inv:
  assumes "th_inv n m s" "th_act e i s = Some s'" "0 < m" "m < 2 ^ 63" "0 < n"
  shows "th_inv n m s'"
  using assms(2)
proof (cases rule: th_actE)
  case (fed r calls now)
  have "det_inv n m (th_det s')"
    unfolding fed(5) using assms(1,3-5) by (intro det_inv_observe) (simp_all add: th_inv_def)
  moreover have "pace_count s' = pace_count s"
    using pace_count_update [OF fed(1,2)] fed(3) by simp
  ultimately show ?thesis using assms(1) fed(4) by (simp add: th_inv_def)
next
  case (slots r)
  have "0 < pace_count s" if "paces (tq_phase (th_reqs s ! i))"
    using slots(1) that unfolding pace_count_def by (rule length_filter_pos)
  then have "th_pace s \<noteq> 0 \<or> \<not> paces (tq_phase (th_reqs s ! i))" using assms(1) by (auto simp: th_inv_def)
  then show ?thesis
    using pace_count_update [OF slots(1,2)] slots(3-5) assms(1) by (auto simp: th_inv_def)
qed

lemma th_step_cases:
  assumes "th_step s e = Some s'"
  obtains w where "e = ThArrive w" "s' = th_arrive w s" | i where "th_act e i s = Some s'"
  using assms by (cases e) (auto simp: th_step_def)

text \<open>The configurations the factory builds a gate for.\<close>

definition th_config :: "int \<Rightarrow> duration \<Rightarrow> bool" where
  "th_config n m \<longleftrightarrow> 0 < n \<and> 0 < m \<and> m < 2 ^ 63"

interpretation throttle: step_invariant "\<lambda>s. th_config n m \<and> NewThrottleGate n m = Some s" th_step
  "\<lambda>s. th_config n m \<and> th_inv n m s" for n m
proof unfold_locales
  show "th_config n m \<and> th_inv n m s" if "th_config n m \<and> NewThrottleGate n m = Some s" for s
    using that
    by (auto simp: NewThrottleGate_def th_config_def th_inv_def det_inv_def pace_count_def split: if_splits)
  show "th_config n m \<and> th_inv n m s'"
    if inv: "th_config n m \<and> th_inv n m s" and "th_step s e = Some s'" for s e s'
    using that(2)
  proof (cases rule: th_step_cases)
    case (1 w)
    with inv show ?thesis by (auto simp: th_inv_def th_arrive_def pace_count_def Let_def)
  next
    case (2 i)
    with inv th_act_inv show ?thesis by (auto simp: th_config_def)
  qed
qed

section \<open>Recovery\<close>

text \<open>Clean responses, at least an observation window apart.\<close>

fun clean_spaced :: "time \<Rightarrow> (int \<times> time) list \<Rightarrow> bool" where
  "clean_spaced t0 [] \<longleftrightarrow> True"
| "clean_spaced t0 ((status, t) # obs) \<longleftrightarrow>
     t0 + throttleObservationWindow \<le> t \<and> status \<noteq> 429 \<and> clean_spaced t obs"

definition observe_all :: "(int \<times> time) list \<Rightarrow> detector \<Rightarrow> detector" where
  "observe_all obs g = fold (\<lambda>(status, t). th_observe status t) obs g"

lemma clean_step:
  assumes "\<forall>x \<in> set (th_window g). x \<le> t0" "th_lastHalf g \<le> t0" "t0 + throttleObservationWindow \<le> t"
    "status \<noteq> 429" "th_on g" "0 \<le> th_delay g"
  shows "th_observe status t g =
    (if th_delay g div 2 < throttleRecoveryFloor
     then g\<lparr>th_window := [], th_lastHalf := t, th_on := False, th_delay := 0\<rparr>
     else g\<lparr>th_window := [], th_delay := th_delay g div 2, th_lastHalf := t\<rparr>)"
proof -
  have "\<not> t - x < throttleObservationWindow" if "x \<in> set (th_window g)" for x
    using assms(1,3) that by force
  then have "filter (\<lambda>x. t - x < throttleObservationWindow) (th_window g) = []"
    by (simp add: filter_empty_conv)
  then have "pruneWindow t g = g\<lparr>th_window := []\<rparr>"
    by (simp add: pruneWindow_def)
  then show ?thesis using assms by (simp add: th_observe_def observeClean_def Let_def)
qed

lemma clean_off:
  "\<not> th_on g \<Longrightarrow> status \<noteq> 429 \<Longrightarrow> th_observe status t g = pruneWindow t g"
  by (simp add: th_observe_def observeClean_def Let_def)

lemma clean_stays_off:
  "\<not> th_on g \<Longrightarrow> clean_spaced t0 obs \<Longrightarrow> \<not> th_on (observe_all obs g) \<and> th_delay (observe_all obs g) = th_delay g"
proof (induction obs arbitrary: g t0)
  case (Cons o' obs)
  then show ?case by (cases o') (auto simp: observe_all_def clean_off)
qed (simp add: observe_all_def)

lemma recovers:
  assumes "\<forall>x \<in> set (th_window g). x \<le> t0" "th_lastHalf g \<le> t0" "clean_spaced t0 obs"
    "th_on g" "0 \<le> th_delay g" "th_delay g < 2 ^ length obs * throttleRecoveryFloor" "obs \<noteq> []"
  shows "\<not> th_on (observe_all obs g) \<and> th_delay (observe_all obs g) = 0"
  using assms
proof (induction obs arbitrary: g t0)
  case (Cons o' obs)
  obtain status t where o: "o' = (status, t)" by (cases o')
  have sp: "t0 + throttleObservationWindow \<le> t" "status \<noteq> 429" "clean_spaced t obs"
    using Cons.prems(3) by (simp_all add: o)
  define g' where "g' = th_observe status t g"
  have all: "observe_all (o' # obs) g = observe_all obs g'" by (simp add: observe_all_def o g'_def)
  note step = clean_step [OF Cons.prems(1,2) sp(1,2) Cons.prems(4,5), folded g'_def]
  show ?case
  proof (cases "th_delay g div 2 < throttleRecoveryFloor")
    case True
    with step all clean_stays_off [OF _ sp(3), of g'] show ?thesis by simp
  next
    case False
    then have "obs \<noteq> []" using Cons.prems(6) by (auto simp: throttleRecoveryFloor_def)
    moreover have "th_delay g div 2 < 2 ^ length obs * throttleRecoveryFloor"
      using Cons.prems(6) by simp
    ultimately show ?thesis
      unfolding all using step False Cons.prems(4,5) sp(3) by (intro Cons.IH [of g' t]) simp_all
  qed
qed simp

section \<open>Properties\<close>

text \<open>
  C19. In every run of the gate, with any interleaving of its requests: the pacing delay
  never exceeds the configured maximum and is at least the smaller of the initial delay
  and the maximum while the provider is throttled, and 0 otherwise; while it is not
  throttled fewer 429s than the threshold are remembered; and at most 32 requests hold a
  pacing slot.
\<close>

theorem throttle_bounds:
  assumes "0 < n" "0 < m" "m < 2 ^ 63" "NewThrottleGate n m = Some s0" "run_steps th_step s0 es = Some s"
  shows "(if th_Throttled s then min throttleInitialDelay m \<le> th_Delay s \<and> th_Delay s \<le> m
          else th_Delay s = 0 \<and> int (length (th_window (th_det s))) < n) \<and>
         length (filter (\<lambda>r. paces (tq_phase r)) (th_reqs s)) \<le> 32"
proof -
  have "th_inv n m s"
    using throttle.reachable_inv [of n m s0 es s] assms by (simp add: th_config_def)
  then show ?thesis
    by (auto simp: th_inv_def det_inv_def th_Throttled_def th_Delay_def pace_count_def
        throttleMaxPacedRequests_def)
qed

definition ex_throttled :: "th_event list" where
  "ex_throttled = [ThArrive (fresh_response, Some []), InnerReturns 0 [CallWriteHeader 429] 5,
     ThArrive (fresh_response, Some []), PaceSlot 1, DelayTimer 1, InnerReturns 1 [CallWriteHeader 429] 9]"

lemmas th_eval =
  th_step_def th_act_def th_arrive_def th_forward_def th_set_def th_set_resp_def th_observe_def
  observe429_def pruneWindow_def enterThrottle_def increaseDelay_def sr_call_def sr_new_def
  sr_WriteHeader_def write_header_def fresh_response_def throttleMaxPacedRequests_def
  throttleObservationWindow_def throttleInitialDelay_def second_ns_def wrap64_def Let_def

theorem throttle_bounds_witness:
  "\<exists>s0 s. NewThrottleGate 1 (30 * second_ns) = Some s0 \<and> run_steps th_step s0 ex_throttled = Some s \<and>
     th_Throttled s \<and> th_Delay s = 2 * second_ns \<and> th_Delay s \<le> 30 * second_ns"
proof -
  have "\<exists>s0. NewThrottleGate 1 (30 * second_ns) = Some s0" by (simp add: NewThrottleGate_def)
  then obtain s0 where s0: "NewThrottleGate 1 (30 * second_ns) = Some s0" by blast
  then have s0_eq: "s0 = the (NewThrottleGate 1 (30 * second_ns))" by simp
  have "\<exists>s. run_steps th_step s0 ex_throttled = Some s \<and> th_Throttled s \<and> th_Delay s = 2 * second_ns"
    unfolding s0_eq NewThrottleGate_def ex_throttled_def
    by (simp add: th_eval th_Throttled_def th_Delay_def)
  then obtain s where s: "run_steps th_step s0 ex_throttled = Some s" "th_Throttled s"
    "th_Delay s = 2 * second_ns" by blast
  have "th_Delay s \<le> 30 * second_ns"
    using throttle_bounds [OF _ _ _ s0 s(1)] s(2) by (simp add: second_ns_def)
  with s0 s show ?thesis by blast
qed

text \<open>
  A throttled provider recovers: clean responses at least a window apart, as many as it
  takes to halve the maximal delay below the one-second floor, end the throttling and
  reset the delay to 0.
\<close>

theorem throttle_recovers:
  assumes "det_inv n m g" "0 < m" "th_on g"
    and "\<forall>x \<in> set (th_window g). x \<le> t0" "th_lastHalf g \<le> t0" "clean_spaced t0 obs"
    and "m < 2 ^ length obs * throttleRecoveryFloor" "obs \<noteq> []"
  shows "\<not> th_on (observe_all obs g) \<and> th_delay (observe_all obs g) = 0"
proof -
  have "0 < th_delay g" "th_delay g \<le> m" using det_inv_on [OF assms(1-3)] by blast+
  with assms(7) show ?thesis by (intro recovers [OF assms(4-6,3)]) (simp_all add: assms(8))
qed

definition ex_det :: detector where
  "ex_det = \<lparr>th_threshold = 1, th_maxDelay = 3 * second_ns, th_window = [5], th_delay = 3 * second_ns,
     th_on = True, th_lastHalf = 2\<rparr>"

theorem throttle_recovers_witness:
  "\<not> th_on (observe_all [(200, 70 * second_ns), (500, 140 * second_ns)] ex_det)"
  using throttle_recovers [of 1 "3 * second_ns" ex_det 5 "[(200, 70 * second_ns), (500, 140 * second_ns)]"]
  by (simp add: ex_det_def det_inv_def throttleInitialDelay_def throttleObservationWindow_def
        throttleRecoveryFloor_def second_ns_def)

text \<open>
  Throttling starts exactly at the threshold: on a provider that is not throttled, an
  observed response starts the throttling if and only if it is a 429 and, counting it,
  at least the threshold of 429s were observed within the window; the delay then is the
  initial one, capped at the maximum.
\<close>

theorem throttle_starts_at_threshold:
  assumes "\<not> th_on g"
  shows "th_on (th_observe status now g) =
           (status = 429 \<and>
            th_threshold g \<le> 1 + int (length (filter (\<lambda>t. now - t < throttleObservationWindow) (th_window g))))
         \<and> (th_on (th_observe status now g) \<longrightarrow>
            th_delay (th_observe status now g) = min throttleInitialDelay (th_maxDelay g))"
  using assms
  by (auto simp: th_observe_def observe429_def enterThrottle_def observeClean_def Let_def
        pruneWindow_def min_def split: if_splits)

theorem throttle_starts_at_threshold_witness:
  "th_on (th_observe 429 (70 * second_ns)
     (ex_det\<lparr>th_on := False, th_threshold := 2, th_window := [5, 30 * second_ns]\<rparr>))"
  using throttle_starts_at_threshold
    [of "ex_det\<lparr>th_on := False, th_threshold := 2, th_window := [5, 30 * second_ns]\<rparr>" 429 "70 * second_ns"]
  by (simp add: throttleObservationWindow_def second_ns_def)

end
