(* ===== verification/Breaker.thy ===== *)
theory Breaker
  imports Response
begin

text \<open>
  The circuit breaker (\<open>circuit-breaker.go\<close>): consecutive 5xx responses open it, after the
  open period one probe decides whether it closes again. The fields under the mutex are
  \<open>breaker\<close>; the gate adds the requests inside \<open>ServeHTTP\<close>. A probe's observation and its
  deferred release of the probe flag are two critical sections, hence two events.
\<close>

section \<open>The state under the mutex\<close>

datatype breaker_state = BreakerClosed | BreakerOpen | BreakerHalfOpen

definition breakerOpenPeriodSeconds :: int where "breakerOpenPeriodSeconds = 30"
definition breakerOpenPeriod :: duration where "breakerOpenPeriod = breakerOpenPeriodSeconds * second_ns"

record breaker =
  br_threshold :: int
  br_state :: breaker_state
  br_failures :: int
  br_openedAt :: time
  br_probing :: bool
  br_transitions :: "breaker_state list"

definition setStateLocked :: "breaker_state \<Rightarrow> time \<Rightarrow> breaker \<Rightarrow> breaker" where
  "setStateLocked st now b =
     (if br_state b = st then b
      else
        (let b1 = b\<lparr>br_state := st\<rparr>;
             b2 = (if st = BreakerOpen then b1\<lparr>br_openedAt := now, br_probing := False\<rparr> else b1)
         in b2\<lparr>br_transitions := br_transitions b2 @ [st]\<rparr>))"

text \<open>The two results are \<open>admitted\<close> and \<open>probe\<close>.\<close>

definition br_admit :: "time \<Rightarrow> breaker \<Rightarrow> breaker \<times> bool \<times> bool" where
  "br_admit now b =
     (case br_state b of
        BreakerOpen \<Rightarrow>
          if now - br_openedAt b < breakerOpenPeriod then (b, False, False)
          else ((setStateLocked BreakerHalfOpen now b)\<lparr>br_probing := True\<rparr>, True, True)
      | BreakerHalfOpen \<Rightarrow>
          if br_probing b then (b, False, False) else (b\<lparr>br_probing := True\<rparr>, True, True)
      | BreakerClosed \<Rightarrow> (b, True, False))"

definition br_observe :: "int \<Rightarrow> bool \<Rightarrow> time \<Rightarrow> breaker \<Rightarrow> breaker" where
  "br_observe status probe now b =
     (let failed = (500 \<le> status)
      in if probe then
           (let b1 = b\<lparr>br_probing := False\<rparr>
            in if failed then setStateLocked BreakerOpen now (b1\<lparr>br_failures := br_threshold b1\<rparr>)
               else setStateLocked BreakerClosed now (b1\<lparr>br_failures := 0\<rparr>))
         else if br_state b \<noteq> BreakerClosed then b
         else if status = 0 then b
         else if status < 500 then b\<lparr>br_failures := 0\<rparr>
         else
           (let b1 = b\<lparr>br_failures := br_failures b + 1\<rparr>
            in if br_threshold b1 \<le> br_failures b1 then setStateLocked BreakerOpen now b1 else b1))"

definition releaseProbe :: "breaker \<Rightarrow> breaker" where
  "releaseProbe b = b\<lparr>br_probing := False\<rparr>"

definition breakerStateLogName :: "breaker_state \<Rightarrow> string" where
  "breakerStateLogName st =
     (case st of BreakerOpen \<Rightarrow> ''open'' | BreakerHalfOpen \<Rightarrow> ''half-open'' | BreakerClosed \<Rightarrow> ''closed'')"

definition breakerStateLabel :: "breaker_state \<Rightarrow> string" where
  "breakerStateLabel st =
     (case st of BreakerOpen \<Rightarrow> ''open'' | BreakerHalfOpen \<Rightarrow> ''half_open'' | BreakerClosed \<Rightarrow> ''closed'')"

definition br_State :: "breaker \<Rightarrow> string" where
  "br_State b = breakerStateLabel (br_state b)"

section \<open>The gate\<close>

datatype br_phase = BrForwarding bool | BrReleasing | BrDone

record br_req =
  bq_phase :: br_phase
  bq_resp :: "response \<times> rejection_slot"

record breaker_gate =
  bg_breaker :: breaker
  bg_reqs :: "br_req list"

definition NewCircuitBreaker :: "int \<Rightarrow> breaker_gate option" where
  "NewCircuitBreaker failureThreshold =
     (if failureThreshold \<le> 0 then None
      else Some \<lparr>bg_breaker = \<lparr>br_threshold = failureThreshold, br_state = BreakerClosed, br_failures = 0,
                   br_openedAt = 0, br_probing = False, br_transitions = []\<rparr>, bg_reqs = []\<rparr>)"

datatype br_event =
    BrArrive "response \<times> rejection_slot" time
  | BrReturns nat "write_call list" time
  | BrPanics nat
  | BrRelease nat

definition bg_set :: "nat \<Rightarrow> br_phase \<Rightarrow> response \<times> rejection_slot \<Rightarrow> breaker_gate \<Rightarrow> breaker_gate" where
  "bg_set i ph w s = s\<lparr>bg_reqs := (bg_reqs s)[i := \<lparr>bq_phase = ph, bq_resp = w\<rparr>]\<rparr>"

definition br_arrive :: "response \<times> rejection_slot \<Rightarrow> time \<Rightarrow> breaker_gate \<Rightarrow> breaker_gate" where
  "br_arrive w now s =
     (case br_admit now (bg_breaker s) of
        (b, admitted, probe) \<Rightarrow>
          (let r = (if \<not> admitted
                    then \<lparr>bq_phase = BrDone, bq_resp =
                       writeRateLimited breakerOpenPeriodSeconds rejectionReasonCircuitOpen w\<rparr>
                    else \<lparr>bq_phase = BrForwarding probe, bq_resp = w\<rparr>)
           in s\<lparr>bg_breaker := b, bg_reqs := bg_reqs s @ [r]\<rparr>))"

definition br_step :: "breaker_gate \<Rightarrow> br_event \<Rightarrow> breaker_gate option" where
  "br_step s e =
     (case e of
        BrArrive w now \<Rightarrow> Some (br_arrive w now s)
      | BrReturns i calls now \<Rightarrow>
          if \<not> i < length (bg_reqs s) then None
          else (case bq_phase (bg_reqs s ! i) of
            BrForwarding probe \<Rightarrow>
              (let w = bq_resp (bg_reqs s ! i); rec = foldl sr_call (sr_new (fst w)) calls
               in Some (bg_set i (if probe then BrReleasing else BrDone) (sr_writer rec, snd w)
                    (s\<lparr>bg_breaker := br_observe (sr_status rec) probe now (bg_breaker s)\<rparr>)))
          | _ \<Rightarrow> None)
      | BrPanics i \<Rightarrow>
          if \<not> i < length (bg_reqs s) then None
          else (case bq_phase (bg_reqs s ! i) of
            BrForwarding probe \<Rightarrow> Some (bg_set i (if probe then BrReleasing else BrDone) (bq_resp (bg_reqs s ! i)) s)
          | _ \<Rightarrow> None)
      | BrRelease i \<Rightarrow>
          if \<not> i < length (bg_reqs s) then None
          else (case bq_phase (bg_reqs s ! i) of
            BrReleasing \<Rightarrow> Some (bg_set i BrDone (bq_resp (bg_reqs s ! i))
                              (s\<lparr>bg_breaker := releaseProbe (bg_breaker s)\<rparr>))
          | _ \<Rightarrow> None))"

section \<open>The failure count\<close>

text \<open>The run of failures at the end of the statuses seen, silent responses aside.\<close>

definition streak :: "int list \<Rightarrow> nat" where
  "streak statuses = length (takeWhile (\<lambda>st. 500 \<le> st) (rev (filter (\<lambda>st. st \<noteq> 0) statuses)))"

lemma streak_Nil [simp]: "streak [] = 0" by (simp add: streak_def)

lemma streak_snoc:
  "streak (xs @ [st]) = (if st = 0 then streak xs else if 500 \<le> st then streak xs + 1 else 0)"
  by (simp add: streak_def)

definition closed_observe :: "(int \<times> time) list \<Rightarrow> breaker \<Rightarrow> breaker" where
  "closed_observe obs b = fold (\<lambda>(status, t). br_observe status False t) obs b"

lemma closed_observe_snoc:
  "closed_observe (obs @ [(st, t)]) b = br_observe st False t (closed_observe obs b)"
  by (simp add: closed_observe_def)

lemma br_observe_threshold [simp]: "br_threshold (br_observe st p t b) = br_threshold b"
  by (auto simp: br_observe_def setStateLocked_def Let_def)

lemma closed_observe_threshold [simp]: "br_threshold (closed_observe obs b) = br_threshold b"
  by (induction obs rule: rev_induct) (auto simp: closed_observe_def)

lemma closed_observe_streak:
  assumes "br_state b = BreakerClosed" "br_failures b = 0" "0 < br_threshold b"
    and "\<forall>k \<le> length obs. int (streak (map fst (take k obs))) < br_threshold b"
  shows "br_state (closed_observe obs b) = BreakerClosed \<and>
         br_failures (closed_observe obs b) = int (streak (map fst obs)) \<and>
         br_transitions (closed_observe obs b) = br_transitions b"
  using assms(4)
proof (induction obs rule: rev_induct)
  case Nil
  then show ?case using assms(1,2) by (simp add: closed_observe_def)
next
  case (snoc o' obs)
  obtain st t where o: "o' = (st, t)" by (cases o')
  have "int (streak (map fst (take k obs))) < br_threshold b" if "k \<le> length obs" for k
    using snoc.prems [rule_format, of k] that by simp
  with snoc.IH have IH: "br_state (closed_observe obs b) = BreakerClosed"
    "br_failures (closed_observe obs b) = int (streak (map fst obs))"
    "br_transitions (closed_observe obs b) = br_transitions b" by blast+
  have lt: "int (streak (map fst obs @ [st])) < br_threshold b"
    using snoc.prems [rule_format, of "Suc (length obs)"] by (simp add: o)
  consider "st = 0" | "st \<noteq> 0" "st < 500" | "500 \<le> st" by linarith
  then show ?case
    unfolding o closed_observe_snoc
    using IH lt by cases (simp_all add: br_observe_def streak_snoc)
qed

lemma open_ignores:
  "br_state b \<noteq> BreakerClosed \<Longrightarrow> closed_observe obs b = b"
  by (induction obs arbitrary: b) (auto simp: closed_observe_def br_observe_def)

lemma closed_observe_append:
  "closed_observe (xs @ ys) b = closed_observe ys (closed_observe xs b)"
  by (simp add: closed_observe_def)

text \<open>The response at which the run of failures first reaches the threshold.\<close>

lemma first_at_threshold:
  assumes "0 < n" "j \<le> length obs" "n \<le> int (streak (map fst (take j obs)))"
  obtains xs st t ys where "obs = xs @ (st, t) # ys" "n \<le> int (streak (map fst xs @ [st]))"
    "\<forall>i \<le> length xs. int (streak (map fst (take i xs))) < n"
proof -
  define k where "k = (LEAST k. n \<le> int (streak (map fst (take k obs))))"
  have k: "n \<le> int (streak (map fst (take k obs)))"
    unfolding k_def using assms(3) by (rule LeastI)
  have "k \<le> j" unfolding k_def using assms(3) by (rule Least_le)
  have less: "int (streak (map fst (take i obs))) < n" if "i < k" for i
    using not_less_Least [of i "\<lambda>k. n \<le> int (streak (map fst (take k obs)))"] that
    by (simp add: k_def)
  have "k \<noteq> 0"
  proof
    assume "k = 0"
    with k assms(1) show False by simp
  qed
  then obtain p where p: "k = Suc p" by (cases k) auto
  then have pl: "p < length obs" using \<open>k \<le> j\<close> assms(2) by simp
  obtain st t where o: "obs ! p = (st, t)" by (cases "obs ! p")
  show thesis
  proof (rule that)
    show "obs = take p obs @ (st, t) # drop (Suc p) obs"
      using pl o by (metis id_take_nth_drop)
    show "n \<le> int (streak (map fst (take p obs) @ [st]))"
      using k pl o by (simp add: p take_Suc_conv_app_nth)
    show "\<forall>i \<le> length (take p obs). int (streak (map fst (take i (take p obs)))) < n"
      using less p by (simp add: min_def)
  qed
qed

section \<open>Properties of the state machine\<close>

definition ex_breaker :: "int \<Rightarrow> breaker" where
  "ex_breaker n = \<lparr>br_threshold = n, br_state = BreakerClosed, br_failures = 0, br_openedAt = 0,
     br_probing = False, br_transitions = []\<rparr>"

text \<open>
  C40. A closed breaker opens exactly at the threshold of consecutive failures: over any
  sequence of responses that are not probes it has opened if and only if some prefix ends
  in a run of at least that many 5xx responses, where a response that wrote nothing
  neither extends nor breaks the run; until then the count is the length of that run.
\<close>

theorem breaker_opens_at_threshold:
  assumes "0 < n"
  shows "(br_state (closed_observe obs (ex_breaker n)) = BreakerOpen \<longleftrightarrow>
            (\<exists>k \<le> length obs. n \<le> int (streak (map fst (take k obs))))) \<and>
         (br_state (closed_observe obs (ex_breaker n)) \<noteq> BreakerOpen \<longrightarrow>
            br_failures (closed_observe obs (ex_breaker n)) = int (streak (map fst obs)))"
proof (cases "\<forall>k \<le> length obs. int (streak (map fst (take k obs))) < n")
  case True
  with closed_observe_streak [of "ex_breaker n" obs] assms show ?thesis
    by (auto simp: ex_breaker_def not_le)
next
  case False
  then obtain j where j: "j \<le> length obs" "n \<le> int (streak (map fst (take j obs)))"
    by (auto simp: not_less)
  obtain xs st t ys where obs: "obs = xs @ (st, t) # ys" and at: "n \<le> int (streak (map fst xs @ [st]))"
    and less: "\<forall>i \<le> length xs. int (streak (map fst (take i xs))) < n"
    using first_at_threshold [OF assms j] by blast
  let ?b = "closed_observe xs (ex_breaker n)"
  have cl: "br_state ?b = BreakerClosed" "br_failures ?b = int (streak (map fst xs))"
    using closed_observe_streak [of "ex_breaker n" xs] assms less by (simp_all add: ex_breaker_def)
  have "500 \<le> st"
    using at less [rule_format, of "length xs"] assms by (auto simp: streak_snoc split: if_splits)
  then have op: "br_state (br_observe st False t ?b) = BreakerOpen"
    using at cl by (simp add: br_observe_def streak_snoc setStateLocked_def ex_breaker_def)
  have "closed_observe obs (ex_breaker n) = closed_observe ys (br_observe st False t ?b)"
    by (simp add: obs closed_observe_append) (simp add: closed_observe_def)
  with op open_ignores [of "br_observe st False t ?b" ys] j show ?thesis by auto
qed

theorem breaker_opens_at_threshold_witness:
  "br_state (closed_observe [(500, 1), (0, 2), (503, 3)] (ex_breaker 2)) = BreakerOpen"
proof -
  have "\<exists>k \<le> length [(500, 1), (0, 2), (503, 3)]. (2::int) \<le> int (streak (map fst (take k [(500, 1), (0, 2), (503, 3::int)])))"
    by (intro exI [of _ 3]) (simp add: streak_def)
  then show ?thesis using breaker_opens_at_threshold [of 2 "[(500, 1), (0, 2), (503, 3)]"] by simp
qed
section \<open>The single probe\<close>

definition probe_count :: "breaker_gate \<Rightarrow> nat" where
  "probe_count s = length (filter (\<lambda>r. bq_phase r = BrForwarding True) (bg_reqs s))"

definition release_count :: "breaker_gate \<Rightarrow> nat" where
  "release_count s = length (filter (\<lambda>r. bq_phase r = BrReleasing) (bg_reqs s))"

text \<open>Runs in which a finished probe releases the flag before anything else happens.\<close>

definition br_step_prompt :: "breaker_gate \<Rightarrow> br_event \<Rightarrow> breaker_gate option" where
  "br_step_prompt s e =
     (if release_count s \<noteq> 0 \<and> (\<forall>i. e \<noteq> BrRelease i) then None else br_step s e)"

definition br_inv :: "int \<Rightarrow> breaker_gate \<Rightarrow> bool" where
  "br_inv n s \<longleftrightarrow>
     br_threshold (bg_breaker s) = n \<and>
     (br_state (bg_breaker s) = BreakerClosed \<longrightarrow> br_failures (bg_breaker s) < n) \<and>
     (probe_count s = 1 \<longrightarrow> br_state (bg_breaker s) = BreakerHalfOpen) \<and>
     (if release_count s = 0 then probe_count s = of_bool (br_probing (bg_breaker s))
      else release_count s = 1 \<and> probe_count s = 0)"

lemma bg_set_counts:
  assumes "i < length (bg_reqs s)"
  shows "int (probe_count (bg_set i ph w s)) = int (probe_count s) + of_bool (ph = BrForwarding True)
           - of_bool (bq_phase (bg_reqs s ! i) = BrForwarding True)"
    and "int (release_count (bg_set i ph w s)) = int (release_count s) + of_bool (ph = BrReleasing)
           - of_bool (bq_phase (bg_reqs s ! i) = BrReleasing)"
  using assms by (simp_all add: probe_count_def release_count_def bg_set_def length_filter_update)

lemma plain_finished:
  assumes "i < length (bg_reqs s)" "bq_phase (bg_reqs s ! i) = BrForwarding False"
  shows "probe_count (bg_set i BrDone w s) = probe_count s"
    "release_count (bg_set i BrDone w s) = release_count s"
  using bg_set_counts [OF assms(1), of BrDone w] assms(2) by simp_all

lemma probe_finished:
  assumes "i < length (bg_reqs s)" "bq_phase (bg_reqs s ! i) = BrForwarding True"
  shows "Suc (probe_count (bg_set i BrReleasing w s)) = probe_count s"
    "release_count (bg_set i BrReleasing w s) = Suc (release_count s)"
  using bg_set_counts [OF assms(1), of BrReleasing w] assms(2) by simp_all

lemma probe_released:
  assumes "i < length (bg_reqs s)" "bq_phase (bg_reqs s ! i) = BrReleasing"
  shows "probe_count (bg_set i BrDone w s) = probe_count s"
    "Suc (release_count (bg_set i BrDone w s)) = release_count s"
  using bg_set_counts [OF assms(1), of BrDone w] assms(2) by simp_all

lemma breaker_irrelevant [simp]:
  "probe_count (s\<lparr>bg_breaker := b\<rparr>) = probe_count s" "release_count (s\<lparr>bg_breaker := b\<rparr>) = release_count s"
  "bg_breaker (bg_set i ph w s) = bg_breaker s"
  by (simp_all add: probe_count_def release_count_def bg_set_def)

lemma br_arrive_inv:
  assumes "br_inv n s" "release_count s = 0"
  shows "br_inv n (br_arrive w now s)"
proof (cases "br_state (bg_breaker s)")
  case BreakerClosed
  with assms show ?thesis
    by (simp add: br_inv_def br_arrive_def br_admit_def probe_count_def release_count_def)
next
  case BreakerOpen
  then have "probe_count s = 0" using assms by (auto simp: br_inv_def split: if_splits)
  with BreakerOpen assms show ?thesis
    by (simp add: br_inv_def br_arrive_def br_admit_def probe_count_def release_count_def
        setStateLocked_def)
next
  case BreakerHalfOpen
  with assms show ?thesis
    by (simp add: br_inv_def br_arrive_def br_admit_def probe_count_def release_count_def)
qed

lemma br_observe_probe_inv:
  assumes "br_threshold b = n" "0 < n"
  shows "br_threshold (br_observe st True t b) = n"
    "br_state (br_observe st True t b) = BreakerClosed \<longrightarrow> br_failures (br_observe st True t b) < n"
  using assms by (auto simp: br_observe_def setStateLocked_def Let_def)

lemma br_observe_plain_inv:
  assumes "br_threshold b = n" "br_state b = BreakerClosed \<longrightarrow> br_failures b < n" "0 < n"
  shows "br_state (br_observe st False t b) = BreakerClosed \<longrightarrow> br_failures (br_observe st False t b) < n"
    "br_state b = BreakerHalfOpen \<Longrightarrow> br_observe st False t b = b"
    "br_probing (br_observe st False t b) \<longrightarrow> br_probing b"
    "br_state b \<noteq> BreakerClosed \<or> \<not> br_probing b \<Longrightarrow> br_probing (br_observe st False t b) = br_probing b"
  using assms by (auto simp: br_observe_def setStateLocked_def Let_def)

lemma br_returns_inv:
  assumes inv: "br_inv n s" and n: "0 < n" and rel: "release_count s = 0" and i: "i < length (bg_reqs s)"
    and ph: "bq_phase (bg_reqs s ! i) = BrForwarding probe"
  shows "br_inv n (bg_set i (if probe then BrReleasing else BrDone) w
           (s\<lparr>bg_breaker := br_observe st probe t (bg_breaker s)\<rparr>))"
proof -
  let ?s = "s\<lparr>bg_breaker := br_observe st probe t (bg_breaker s)\<rparr>"
  have th: "br_threshold (bg_breaker s) = n"
    and cl: "br_state (bg_breaker s) = BreakerClosed \<longrightarrow> br_failures (bg_breaker s) < n"
    and half: "probe_count s = 1 \<longrightarrow> br_state (bg_breaker s) = BreakerHalfOpen"
    and pc: "probe_count s = of_bool (br_probing (bg_breaker s))"
    using inv rel by (simp_all add: br_inv_def)
  have i': "i < length (bg_reqs ?s)" "bq_phase (bg_reqs ?s ! i) = BrForwarding probe" using i ph by simp_all
  show ?thesis
  proof (cases probe)
    case True
    have "Suc (probe_count (bg_set i BrReleasing w ?s)) = probe_count s"
      "release_count (bg_set i BrReleasing w ?s) = 1"
      using probe_finished [OF i'(1), of w] i'(2) True rel by simp_all
    then have "probe_count (bg_set i BrReleasing w ?s) = 0" using pc by (simp add: of_bool_def split: if_splits)
    with \<open>release_count _ = 1\<close> True br_observe_probe_inv [OF th n, of st t]
    show ?thesis by (simp add: br_inv_def)
  next
    case False
    have pr: "br_probing (br_observe st False t (bg_breaker s)) = br_probing (bg_breaker s)"
      using br_observe_plain_inv(4) [OF th cl n] half pc by (cases "br_probing (bg_breaker s)") auto
    have st: "br_state (br_observe st False t (bg_breaker s)) = BreakerHalfOpen" if "probe_count s = 1"
      using half that br_observe_plain_inv(2) [OF th cl n] by simp
    show ?thesis
      using False plain_finished [OF i'(1), of w] i'(2) rel th pc pr st
        br_observe_plain_inv(1) [OF th cl n, of st t]
      by (simp add: br_inv_def)
  qed
qed

lemma br_panics_inv:
  assumes "br_inv n s" "release_count s = 0" "i < length (bg_reqs s)"
    "bq_phase (bg_reqs s ! i) = BrForwarding probe"
  shows "br_inv n (bg_set i (if probe then BrReleasing else BrDone) w s)"
proof (cases probe)
  case True
  have "Suc (probe_count (bg_set i BrReleasing w s)) = probe_count s"
    "release_count (bg_set i BrReleasing w s) = 1"
    using probe_finished [OF assms(3), of w] assms(2,4) True by simp_all
  moreover have "probe_count s \<le> 1" using assms(1,2) by (simp add: br_inv_def of_bool_def)
  ultimately have "probe_count (bg_set i BrReleasing w s) = 0" by linarith
  with \<open>release_count (bg_set i BrReleasing w s) = 1\<close> True assms(1) show ?thesis
    by (simp add: br_inv_def)
next
  case False
  with assms plain_finished [OF assms(3), of w] show ?thesis by (simp add: br_inv_def)
qed

lemma br_release_inv:
  assumes "br_inv n s" "i < length (bg_reqs s)" "bq_phase (bg_reqs s ! i) = BrReleasing"
  shows "br_inv n (bg_set i BrDone w (s\<lparr>bg_breaker := releaseProbe (bg_breaker s)\<rparr>))"
proof -
  let ?s = "s\<lparr>bg_breaker := releaseProbe (bg_breaker s)\<rparr>"
  have c: "probe_count (bg_set i BrDone w ?s) = probe_count s"
    "Suc (release_count (bg_set i BrDone w ?s)) = release_count s"
    using probe_released [of i ?s w] assms(2,3) by simp_all
  then have "release_count s \<noteq> 0" by linarith
  then have one: "release_count s = 1" "probe_count s = 0" using assms(1) by (simp_all add: br_inv_def)
  with c have "release_count (bg_set i BrDone w ?s) = 0" "probe_count (bg_set i BrDone w ?s) = 0" by simp_all
  with assms(1) show ?thesis by (simp add: br_inv_def releaseProbe_def)
qed

interpretation breaker: step_invariant "\<lambda>s. NewCircuitBreaker n = Some s" br_step_prompt
  "\<lambda>s. 0 < n \<and> br_inv n s" for n
proof unfold_locales
  show "0 < n \<and> br_inv n s" if "NewCircuitBreaker n = Some s" for s
    using that
    by (auto simp: NewCircuitBreaker_def br_inv_def probe_count_def release_count_def split: if_splits)
  fix s e s' assume inv: "0 < n \<and> br_inv n s" and st: "br_step_prompt s e = Some s'"
  then have step: "br_step s e = Some s'" and rel: "(\<forall>i. e \<noteq> BrRelease i) \<longrightarrow> release_count s = 0"
    by (auto simp: br_step_prompt_def split: if_splits)
  show "0 < n \<and> br_inv n s'"
  proof (cases e)
    case (BrArrive w now)
    with step rel inv br_arrive_inv [of n s w now] show ?thesis by (auto simp: br_step_def)
  next
    case (BrReturns i calls now)
    with step obtain probe where i: "i < length (bg_reqs s)" "bq_phase (bg_reqs s ! i) = BrForwarding probe"
      by (auto simp: br_step_def split: if_splits br_phase.splits)
    with step BrReturns obtain w st where "s' = bg_set i (if probe then BrReleasing else BrDone) w
        (s\<lparr>bg_breaker := br_observe st probe now (bg_breaker s)\<rparr>)"
      by (simp add: br_step_def Let_def) metis
    with br_returns_inv [OF _ _ _ i] inv rel BrReturns show ?thesis by simp
  next
    case (BrPanics i)
    with step obtain probe where i: "i < length (bg_reqs s)" "bq_phase (bg_reqs s ! i) = BrForwarding probe"
      by (auto simp: br_step_def split: if_splits br_phase.splits)
    with step BrPanics have "s' = bg_set i (if probe then BrReleasing else BrDone) (bq_resp (bg_reqs s ! i)) s"
      by (simp add: br_step_def)
    with br_panics_inv [OF _ _ i] inv rel BrPanics show ?thesis by simp
  next
    case (BrRelease i)
    with step have i: "i < length (bg_reqs s)" "bq_phase (bg_reqs s ! i) = BrReleasing"
      and "s' = bg_set i BrDone (bq_resp (bg_reqs s ! i)) (s\<lparr>bg_breaker := releaseProbe (bg_breaker s)\<rparr>)"
      by (simp_all add: br_step_def split: if_splits br_phase.splits)
    with br_release_inv [OF _ i] inv show ?thesis by simp
  qed
qed

section \<open>Properties of the gate\<close>

definition ex_req :: "response \<times> rejection_slot" where "ex_req = (fresh_response, Some [])"

lemmas br_eval =
  br_step_prompt_def br_step_def br_arrive_def br_admit_def br_observe_def setStateLocked_def
  releaseProbe_def bg_set_def release_count_def probe_count_def ex_req_def fresh_response_def
  sr_call_def sr_new_def sr_WriteHeader_def write_header_def breakerOpenPeriod_def
  breakerOpenPeriodSeconds_def second_ns_def NewCircuitBreaker_def Let_def

text \<open>
  C18. At most one probe is in flight: in every run in which a finished probe releases its
  flag before the next event, no two requests are forwarded as probes at the same time, a
  probe in flight means that the breaker is half open, and a closed breaker has counted
  fewer failures than its threshold.
\<close>

theorem single_probe_in_flight:
  assumes "NewCircuitBreaker n = Some s0" "run_steps br_step_prompt s0 es = Some s"
  shows "length (filter (\<lambda>r. bq_phase r = BrForwarding True) (bg_reqs s)) \<le> 1 \<and>
         (BrForwarding True \<in> bq_phase ` set (bg_reqs s) \<longrightarrow> br_State (bg_breaker s) = ''half_open'') \<and>
         (br_State (bg_breaker s) = ''closed'' \<longrightarrow> br_failures (bg_breaker s) < n)"
proof -
  have inv: "br_inv n s" using breaker.reachable_inv [OF assms] by blast
  then have le: "probe_count s \<le> 1" by (auto simp: br_inv_def of_bool_def split: if_splits)
  have half: "br_state (bg_breaker s) = BreakerHalfOpen" if "BrForwarding True \<in> bq_phase ` set (bg_reqs s)"
  proof -
    have "probe_count s \<noteq> 0" using that by (auto simp: probe_count_def filter_empty_conv)
    with le inv show ?thesis by (simp add: br_inv_def)
  qed
  have cl: "br_state (bg_breaker s) = BreakerClosed" if "br_State (bg_breaker s) = ''closed''"
    using that by (simp add: br_State_def breakerStateLabel_def split: breaker_state.splits)
  show ?thesis
  proof (intro conjI impI)
    show "length (filter (\<lambda>r. bq_phase r = BrForwarding True) (bg_reqs s)) \<le> 1"
      using le unfolding probe_count_def .
    show "br_State (bg_breaker s) = ''half_open''" if "BrForwarding True \<in> bq_phase ` set (bg_reqs s)"
      using half [OF that] by (simp add: br_State_def breakerStateLabel_def)
    show "br_failures (bg_breaker s) < n" if "br_State (bg_breaker s) = ''closed''"
      using cl [OF that] inv by (simp add: br_inv_def)
  qed
qed

theorem single_probe_in_flight_witness:
  "\<exists>s0 s. NewCircuitBreaker 1 = Some s0 \<and>
     run_steps br_step_prompt s0 [BrArrive ex_req 0, BrReturns 0 [CallWriteHeader 500] 0,
       BrArrive ex_req (30 * second_ns), BrArrive ex_req (30 * second_ns)] = Some s \<and>
     map bq_phase (bg_reqs s) = [BrDone, BrForwarding True, BrDone] \<and>
     br_State (bg_breaker s) = ''half_open''"
proof -
  let ?es = "[BrArrive ex_req 0, BrReturns 0 [CallWriteHeader 500] 0,
       BrArrive ex_req (30 * second_ns), BrArrive ex_req (30 * second_ns)]"
  have "\<exists>s. run_steps br_step_prompt (the (NewCircuitBreaker 1)) ?es = Some s \<and>
     map bq_phase (bg_reqs s) = [BrDone, BrForwarding True, BrDone]"
    by (simp add: br_eval)
  then obtain s where s: "run_steps br_step_prompt (the (NewCircuitBreaker 1)) ?es = Some s"
    "map bq_phase (bg_reqs s) = [BrDone, BrForwarding True, BrDone]" by metis
  have new: "NewCircuitBreaker 1 = Some (the (NewCircuitBreaker 1))" by (simp add: NewCircuitBreaker_def)
  have "BrForwarding True \<in> bq_phase ` set (bg_reqs s)"
    using s(2) by (metis image_set list.set_intros(1) list.set_intros(2))
  with single_probe_in_flight [OF new s(1)] s new show ?thesis by metis
qed

text \<open>
  Without that promptness the guarantee fails: when a failed probe's goroutine is
  delayed between its observation and its deferred release for longer than the open
  period, the late release clears the flag of the next probe, and two probes reach the
  upstream at once.
\<close>

theorem late_release_admits_second_probe:
  "\<exists>es s. run_steps br_step (the (NewCircuitBreaker 1)) es = Some s \<and>
     length (filter (\<lambda>r. bq_phase r = BrForwarding True) (bg_reqs s)) = 2"
  by (intro exI [of _ "[BrArrive ex_req 0, BrReturns 0 [CallWriteHeader 500] 0,
        BrArrive ex_req (30 * second_ns), BrReturns 1 [CallWriteHeader 500] (31 * second_ns),
        BrArrive ex_req (61 * second_ns), BrRelease 1, BrArrive ex_req (62 * second_ns)]"])
     (simp add: br_eval)

text \<open>
  While the breaker is open within the open period, or half open with a probe in
  flight, an arriving request never reaches the upstream: it is answered 429 with
  \<open>Retry-After: 30\<close> and the reason \<open>circuit_open\<close>, and the breaker does not change.
\<close>

theorem open_breaker_refuses:
  assumes "br_state (bg_breaker s) = BreakerOpen \<and> now - br_openedAt (bg_breaker s) < 30 * second_ns \<or>
           br_state (bg_breaker s) = BreakerHalfOpen \<and> br_probing (bg_breaker s)"
  shows "br_step s (BrArrive (fresh_response, Some []) now) =
    Some (s\<lparr>bg_reqs := bg_reqs s @ [\<lparr>bq_phase = BrDone, bq_resp =
      (\<lparr>rs_headers = [(''Retry-After'', ''30''), (''Content-Type'', ''application/json'')],
        rs_status = Some 429, rs_body = limiter429Body\<rparr>, Some ''circuit_open'')\<rparr>]\<rparr>)"
proof -
  have thirty: "itoa 30 = ''30''" by code_simp
  have "br_admit now (bg_breaker s) = (bg_breaker s, False, False)"
    using assms by (auto simp: br_admit_def breakerOpenPeriod_def breakerOpenPeriodSeconds_def)
  then show ?thesis
    by (simp add: br_step_def br_arrive_def writeRateLimited_fresh breakerOpenPeriodSeconds_def
        rejection_reasons thirty)
qed

theorem open_breaker_refuses_witness:
  "\<exists>s. br_step \<lparr>bg_breaker = (ex_breaker 1)\<lparr>br_state := BreakerOpen\<rparr>, bg_reqs = []\<rparr>
     (BrArrive (fresh_response, Some []) 7) = Some s \<and>
     rs_status (fst (bq_resp (hd (bg_reqs s)))) = Some 429"
  using open_breaker_refuses [of "\<lparr>bg_breaker = (ex_breaker 1)\<lparr>br_state := BreakerOpen\<rparr>, bg_reqs = []\<rparr>" 7]
  by (simp add: ex_breaker_def second_ns_def)

text \<open>
  A probe that wrote nothing (its client disconnected) closes the breaker and resets
  the failure count, although it says nothing about the upstream.
\<close>

theorem silent_probe_closes:
  assumes "br_state b = BreakerHalfOpen"
  shows "br_state (br_observe (first_status []) True t b) = BreakerClosed \<and>
         br_failures (br_observe (first_status []) True t b) = 0"
  using assms by (simp add: br_observe_def setStateLocked_def)

theorem silent_probe_closes_witness:
  "br_state (br_observe (first_status []) True 5 ((ex_breaker 3)\<lparr>br_state := BreakerHalfOpen,
     br_failures := 3, br_probing := True\<rparr>)) = BreakerClosed"
  using silent_probe_closes [of "(ex_breaker 3)\<lparr>br_state := BreakerHalfOpen, br_failures := 3,
    br_probing := True\<rparr>" 5] by simp

end
