(* ===== verification/Factory.thy ===== *)
theory Factory
  imports Router Limiter Throttle Breaker ColdGate Access
begin

text \<open>
  The wiring (\<open>factory.go\<close>): from a configuration to the handler tree. Objects that are
  shared by reference, the semaphores, are numbered in a heap: \<open>MemberLim\<close> for the limiter a
  member owns, \<open>HostLim\<close> for the budget of a host; the counter functions passed around are
  references into it. \<open>url.Parse\<close> is the argument \<open>url_parse\<close>; whether the Prometheus registerer
  accepts the collectors is the argument \<open>registers\<close>; a context is done or not for the whole
  construction.
\<close>

section \<open>Waits\<close>

definition defaultMaxConcurrentWaitSeconds :: int where "defaultMaxConcurrentWaitSeconds = 30"

definition resolveMaxConcurrentWait :: "int \<Rightarrow> duration" where
  "resolveMaxConcurrentWait waitSeconds =
     wrap64 ((if waitSeconds \<le> 0 then defaultMaxConcurrentWaitSeconds else waitSeconds) * second_ns)"

definition defaultThrottleMaxDelaySeconds :: int where "defaultThrottleMaxDelaySeconds = 30"

section \<open>Members\<close>

datatype lim_ref = MemberLim nat | HostLim string

datatype member_handler =
    ProxyHandler url string
  | LimiterHandler wrapper duration lim_ref member_handler
  | HostCounter string member_handler

datatype counter = InFlightOf lim_ref | QueuedOf lim_ref

definition memberCounters :: "member_handler \<Rightarrow> counter option \<times> counter option" where
  "memberCounters h =
     (case h of
        LimiterHandler w wait ref next \<Rightarrow> (Some (InFlightOf ref), Some (QueuedOf ref))
      | _ \<Rightarrow> (None, None))"

record heap =
  hp_limiters :: "limiter list"
  hp_hosts :: "string \<rightharpoonup> host_limiter \<times> duration"

definition hostLimiterFor :: "(string \<times> host_limit) list \<Rightarrow> string \<Rightarrow> heap \<Rightarrow> heap \<times> host_limiter \<times> duration" where
  "hostLimiterFor limits hostKey hp =
     (case hp_hosts hp hostKey of
        Some limiter \<Rightarrow> (hp, limiter)
      | None \<Rightarrow>
          (let limit = (case map_of limits hostKey of
                 None \<Rightarrow> \<lparr>hl_MaxConcurrentRequests = 0, hl_MaxConcurrentWaitSeconds = 0\<rparr> | Some l \<Rightarrow> l);
               limiter = (NewHostLimiter (hl_MaxConcurrentRequests limit),
                          resolveMaxConcurrentWait (hl_MaxConcurrentWaitSeconds limit))
           in (hp\<lparr>hp_hosts := (hp_hosts hp)(hostKey \<mapsto> limiter)\<rparr>, limiter)))"

definition host_wrap_handler :: "string \<Rightarrow> host_limiter \<times> duration \<Rightarrow> string \<Rightarrow> member_handler \<Rightarrow> member_handler" where
  "host_wrap_handler hostKey h prov next =
     (case host_Wrap (fst h) prov of
        None \<Rightarrow> HostCounter hostKey next
      | Some w \<Rightarrow> LimiterHandler w (snd h) (HostLim hostKey) next)"

definition limit_member :: "string \<Rightarrow> 't upstream \<Rightarrow> member_handler \<Rightarrow> heap \<Rightarrow> heap \<times> member_handler" where
  "limit_member name up proxy hp =
     (case NewConcurrencyLimiter name (up_MaxConcurrentRequests up) of
        None \<Rightarrow> (hp, proxy)
      | Some (w, limiter) \<Rightarrow>
          (hp\<lparr>hp_limiters := hp_limiters hp @ [limiter]\<rparr>,
           LimiterHandler w (resolveMaxConcurrentWait (up_MaxConcurrentWaitSeconds up))
             (MemberLim (length (hp_limiters hp))) proxy))"

definition effective_token :: "string \<Rightarrow> 't upstream \<Rightarrow> string" where
  "effective_token defaultToken up = (if up_Token up = [] then defaultToken else up_Token up)"

record 't provider_parts =
  pp_members :: "'t upstream_member list"
  pp_handlers :: "member_handler list"
  pp_caps :: "int list"
  pp_inflights :: "counter option list"
  pp_queueds :: "counter option list"

definition no_parts :: "'t provider_parts" where
  "no_parts = \<lparr>pp_members = [], pp_handlers = [], pp_caps = [], pp_inflights = [], pp_queueds = []\<rparr>"

definition add_member :: "string \<Rightarrow> string \<Rightarrow> (string \<times> host_limit) list \<Rightarrow> 't upstream \<Rightarrow> url \<Rightarrow>
    't provider_parts \<times> heap \<Rightarrow> 't provider_parts \<times> heap" where
  "add_member name defaultToken hostLimits up u ph =
     (case ph of (parts, hp) \<Rightarrow>
      (case limit_member name up (ProxyHandler u (effective_token defaultToken up)) hp of (hp1, memberHandler) \<Rightarrow>
       (case memberCounters memberHandler of (inFlight, queued) \<Rightarrow>
        (case hostLimiterFor hostLimits (UpstreamHostKey u) hp1 of (hp2, host) \<Rightarrow>
          (\<lparr>pp_members = pp_members parts @
              [\<lparr>um_Upstream = up_Upstream up, um_Weight = up_Weight up, um_HasInFlight = inFlight \<noteq> None,
                um_Window = up_Window up, um_Days = up_Days up\<rparr>],
            pp_handlers = pp_handlers parts @ [host_wrap_handler (UpstreamHostKey u) host name memberHandler],
            pp_caps = pp_caps parts @ [up_MaxConcurrentRequests up],
            pp_inflights = pp_inflights parts @ [inFlight],
            pp_queueds = pp_queueds parts @ [queued]\<rparr>, hp2)))))"

datatype factory_error =
    Cancelled
  | BadUpstream string string
  | NoDefaultHandler string
  | NoPoolHandler string string
  | RegisterFailed

fun build_members :: "(string \<Rightarrow> url option) \<Rightarrow> bool \<Rightarrow> string \<Rightarrow> string \<Rightarrow> (string \<times> host_limit) list \<Rightarrow>
    't upstream list \<Rightarrow> 't provider_parts \<times> heap \<Rightarrow> factory_error + 't provider_parts \<times> heap" where
  "build_members url_parse cancelled name defaultToken hostLimits [] ph = Inr ph"
| "build_members url_parse cancelled name defaultToken hostLimits (up # ups) ph =
     (if cancelled then Inl Cancelled
      else case url_parse (up_Upstream up) of
        None \<Rightarrow> Inl (BadUpstream name (up_Upstream up))
      | Some u \<Rightarrow>
          build_members url_parse cancelled name defaultToken hostLimits ups
            (add_member name defaultToken hostLimits up u ph))"

definition buildUpstreamMembers :: "(string \<Rightarrow> url option) \<Rightarrow> bool \<Rightarrow> string \<Rightarrow> 't provider \<Rightarrow> string \<Rightarrow>
    (string \<times> host_limit) list \<Rightarrow> heap \<Rightarrow> factory_error + 't provider_parts \<times> heap" where
  "buildUpstreamMembers url_parse cancelled name prov defaultToken hostLimits hp =
     build_members url_parse cancelled name defaultToken hostLimits (UpstreamList prov) (no_parts, hp)"

section \<open>Providers\<close>

text \<open>\<open>None\<close> is a gate that is not configured: its constructor returns the inner handler.\<close>

record 't provider_tree =
  pt_handler :: "'t http_handler"
  pt_parts :: "'t provider_parts"
  pt_cold :: "cold_gate option"
  pt_throttle :: "throttle option"
  pt_breaker :: "breaker_gate option"

definition coldGateHandler :: "'t provider \<Rightarrow> backpressure option \<Rightarrow> time \<Rightarrow> cold_gate option" where
  "coldGateHandler prov backpressure now =
     NewColdStartGateWithBackpressure (prov_ColdPrefillBudgetTokens prov) backpressure
       (wrap64 (prov_ColdSessionWindowSeconds prov * second_ns)) (prov_NewSessionRatePerMinute prov) 0 now"

definition throttle_gate :: "'t provider \<Rightarrow> throttle option" where
  "throttle_gate prov =
     NewThrottleGate (prov_Throttle429Threshold prov)
       (wrap64 ((if prov_ThrottleMaxDelaySeconds prov \<le> 0 then defaultThrottleMaxDelaySeconds
                 else prov_ThrottleMaxDelaySeconds prov) * second_ns))"

definition wrap_if :: "'g option \<Rightarrow> ('h \<Rightarrow> 'h) \<Rightarrow> 'h \<Rightarrow> 'h" where
  "wrap_if gate wrap h = (case gate of None \<Rightarrow> h | Some _ \<Rightarrow> wrap h)"

definition provider_handler :: "'t provider \<Rightarrow> time \<Rightarrow> 't provider_parts \<Rightarrow> 't provider_tree" where
  "provider_handler prov now parts =
     (let backpressure = NewTTFTBackpressure (prov_ColdPrefillBudgetTokens prov)
            (prov_TtftBackpressureThresholdSeconds prov);
          pool = NewUpstreamPoolHandler (length (pp_members parts)) (pp_members parts);
          cold = coldGateHandler prov backpressure now;
          throttle = throttle_gate prov;
          breaker = NewCircuitBreaker (prov_BreakerFailureThreshold prov)
      in \<lparr>pt_handler = wrap_if breaker BreakerHandler (wrap_if throttle ThrottleHandler
            (wrap_if cold ColdStartHandler (PoolHandler pool))),
          pt_parts = parts, pt_cold = cold, pt_throttle = throttle, pt_breaker = breaker\<rparr>)"

definition provider_routes :: "string \<Rightarrow> 't provider \<Rightarrow> 't http_handler \<Rightarrow> 't model_route list" where
  "provider_routes name prov h =
     map (\<lambda>pattern. \<lparr>mr_Pattern = pattern, mr_ProviderName = name, mr_Handler = h,
       mr_RequiresLeadingSystem = prov_RequiresLeadingSystem prov,
       mr_AllowedApiKeys = prov_AllowedApiKeys prov\<rparr>) (prov_Models prov)"

definition providerKeys :: "bool \<Rightarrow> 't config \<Rightarrow> string list" where
  "providerKeys cancelled cfg =
     (if cfg_ProviderOrder cfg \<noteq> [] then cfg_ProviderOrder cfg
      else if cancelled then []
      else sort (map fst (cfg_Providers cfg)))"

text \<open>Go's map lookup: the zero \<open>Provider\<close> for a name that is not a key.\<close>

definition zero_provider :: "'t provider" where
  "zero_provider = \<lparr>prov_Upstream = [], prov_Token = [], prov_Models = [], prov_RequiresLeadingSystem = [],
     prov_AllowedApiKeys = [], prov_MaxConcurrentRequests = 0, prov_MaxConcurrentWaitSeconds = 0,
     prov_Upstreams = [], prov_Window = None, prov_Days = None, prov_Throttle429Threshold = 0,
     prov_ThrottleMaxDelaySeconds = 0, prov_ColdPrefillBudgetTokens = 0, prov_ColdSessionWindowSeconds = 0,
     prov_NewSessionRatePerMinute = 0, prov_TtftBackpressureThresholdSeconds = 0,
     prov_BreakerFailureThreshold = 0\<rparr>"

definition provider_of :: "'t config \<Rightarrow> string \<Rightarrow> 't provider" where
  "provider_of cfg name = (case map_of (cfg_Providers cfg) name of None \<Rightarrow> zero_provider | Some p \<Rightarrow> p)"

record 't build =
  bd_providers :: "string \<rightharpoonup> 't provider_tree"
  bd_routes :: "'t model_route list"
  bd_heap :: heap
  bd_metrics :: metrics

fun build_providers :: "(string \<Rightarrow> url option) \<Rightarrow> bool \<Rightarrow> time \<Rightarrow> 't config \<Rightarrow> string list \<Rightarrow> 't build \<Rightarrow>
    factory_error + 't build" where
  "build_providers url_parse cancelled now cfg [] bd = Inr bd"
| "build_providers url_parse cancelled now cfg (name # names) bd =
     (if cancelled then Inl Cancelled
      else
        (let prov = provider_of cfg name
         in case buildUpstreamMembers url_parse cancelled name prov (cfg_DefaultToken cfg)
                   (cfg_UpstreamHostLimits cfg) (bd_heap bd) of
              Inl e \<Rightarrow> Inl e
            | Inr (parts, hp) \<Rightarrow>
                (let tree = provider_handler prov now parts
                 in build_providers url_parse cancelled now cfg names
                      \<lparr>bd_providers = (bd_providers bd)(name \<mapsto> tree),
                       bd_routes = bd_routes bd @ provider_routes name prov (pt_handler tree),
                       bd_heap = hp, bd_metrics = PreInitRejection name (bd_metrics bd)\<rparr>)))"

section \<open>Model pools\<close>

definition buildPoolMember :: "string \<Rightarrow> (string \<rightharpoonup> 't provider_tree) \<Rightarrow> model_pool_member \<Rightarrow>
    factory_error + 't model_member" where
  "buildPoolMember poolName providers m =
     (case providers (mpm_Provider m) of
        None \<Rightarrow> Inl (NoPoolHandler poolName (mpm_Provider m))
      | Some tree \<Rightarrow>
          Inr \<lparr>mm_Provider = mpm_Provider m, mm_Model = mpm_Model m, mm_Weight = mpm_Weight m,
               mm_Overflow = mpm_Overflow m, mm_Handler = pt_handler tree,
               mm_HasInFlight = True, mm_HasSaturated = True\<rparr>)"

fun build_pool_members :: "bool \<Rightarrow> string \<Rightarrow> (string \<rightharpoonup> 't provider_tree) \<Rightarrow> model_pool_member list \<Rightarrow>
    factory_error + 't model_member list" where
  "build_pool_members cancelled name providers [] = Inr []"
| "build_pool_members cancelled name providers (m # ms) =
     (if cancelled then Inl Cancelled
      else case buildPoolMember name providers m of
        Inl e \<Rightarrow> Inl e
      | Inr member \<Rightarrow>
          (case build_pool_members cancelled name providers ms of
             Inl e \<Rightarrow> Inl e
           | Inr members \<Rightarrow> Inr (member # members)))"

fun buildModelPools :: "bool \<Rightarrow> (string \<rightharpoonup> 't provider_tree) \<Rightarrow> (string \<times> model_pool_member list) list \<Rightarrow>
    factory_error + (string \<rightharpoonup> 't model_pool)" where
  "buildModelPools cancelled providers [] = Inr Map.empty"
| "buildModelPools cancelled providers ((name, ms) # pools) =
     (if cancelled then Inl Cancelled
      else case build_pool_members cancelled name providers ms of
        Inl e \<Rightarrow> Inl e
      | Inr members \<Rightarrow>
          (case NewModelPool cancelled members of
             None \<Rightarrow> Inl Cancelled
           | Some pool \<Rightarrow>
               (case buildModelPools cancelled providers pools of
                  Inl e \<Rightarrow> Inl e
                | Inr built \<Rightarrow> Inr (built(name \<mapsto> pool)))))"

text \<open>The closures a member of a model pool reads, on the values of the counters (\<open>None\<close>: nil).\<close>

fun sumInFlight :: "int option list \<Rightarrow> int" where
  "sumInFlight [] = 0"
| "sumInFlight (fn # inflights) = (case fn of None \<Rightarrow> 0 | Some n \<Rightarrow> n) + sumInFlight inflights"

fun saturated_scan :: "int list \<Rightarrow> int option list \<Rightarrow> go_panic + bool" where
  "saturated_scan [] inflights = Inr True"
| "saturated_scan (cap # caps) inflights =
     (if cap \<le> 0 then Inr False
      else case inflights of
        [] \<Rightarrow> Inl IndexOutOfRange
      | None # _ \<Rightarrow> Inr False
      | Some n # rest \<Rightarrow> if n < cap then Inr False else saturated_scan caps rest)"

definition providerSaturated :: "int list \<Rightarrow> int option list \<Rightarrow> go_panic + bool" where
  "providerSaturated caps inflights = (if caps = [] then Inr False else saturated_scan caps inflights)"

section \<open>The router\<close>

record 't handler_tree =
  ht_router :: "'t router"
  ht_providers :: "string \<rightharpoonup> 't provider_tree"
  ht_heap :: heap
  ht_metrics :: metrics
  ht_trace :: bool
  ht_authKeys :: "string set"

definition CreateRouterFromConfig :: "(string \<Rightarrow> url option) \<Rightarrow> bool \<Rightarrow> bool \<Rightarrow> time \<Rightarrow> 't config \<Rightarrow>
    factory_error + 't handler_tree" where
  "CreateRouterFromConfig url_parse cancelled registers now cfg =
     (case build_providers url_parse cancelled now cfg (providerKeys cancelled cfg)
             \<lparr>bd_providers = Map.empty, bd_routes = [], bd_heap = \<lparr>hp_limiters = [], hp_hosts = Map.empty\<rparr>,
              bd_metrics = NewMetrics (cfg_Aliases cfg)\<rparr> of
        Inl e \<Rightarrow> Inl e
      | Inr bd \<Rightarrow>
          (case bd_providers bd (cfg_DefaultProvider cfg) of
             None \<Rightarrow> Inl (NoDefaultHandler (cfg_DefaultProvider cfg))
           | Some tree \<Rightarrow>
               (case buildModelPools cancelled (bd_providers bd) (cfg_ModelPools cfg) of
                  Inl e \<Rightarrow> Inl e
                | Inr pools \<Rightarrow>
                    if \<not> registers then Inl RegisterFailed
                    else Inr \<lparr>ht_router = NewModelRouterWithPools (bd_routes bd) (cfg_DefaultProvider cfg)
                                 (pt_handler tree) (map_of (cfg_Aliases cfg)) pools,
                              ht_providers = bd_providers bd, ht_heap = bd_heap bd,
                              ht_metrics = bd_metrics bd, ht_trace = cfg_Trace cfg,
                              ht_authKeys = AllowedApiKeySet cfg\<rparr>)))"


section \<open>What a member is built from\<close>

definition member_of :: "'t upstream \<Rightarrow> 't upstream_member" where
  "member_of up = \<lparr>um_Upstream = up_Upstream up, um_Weight = up_Weight up,
     um_HasInFlight = (0 < up_MaxConcurrentRequests up), um_Window = up_Window up, um_Days = up_Days up\<rparr>"

definition host_spec :: "(string \<times> host_limit) list \<Rightarrow> string \<Rightarrow> host_limiter \<times> duration" where
  "host_spec limits key =
     (case map_of limits key of
        None \<Rightarrow> (NewHostLimiter 0, resolveMaxConcurrentWait 0)
      | Some l \<Rightarrow> (NewHostLimiter (hl_MaxConcurrentRequests l),
                   resolveMaxConcurrentWait (hl_MaxConcurrentWaitSeconds l)))"

text \<open>The chain around one upstream, given the number of its own limiter if it has one.\<close>

definition member_chain :: "string \<Rightarrow> string \<Rightarrow> (string \<times> host_limit) list \<Rightarrow> 't upstream \<Rightarrow> url \<Rightarrow> nat option \<Rightarrow>
    member_handler" where
  "member_chain name defaultToken limits up u n =
     (let proxy = ProxyHandler u (effective_token defaultToken up)
      in host_wrap_handler (UpstreamHostKey u) (host_spec limits (UpstreamHostKey u)) name
           (case n of
              None \<Rightarrow> proxy
            | Some k \<Rightarrow>
                LimiterHandler \<lparr>wr_provider = name, wr_rejectReason = rejectionReasonQueueTimeout, wr_reselectable = True\<rparr>
                  (resolveMaxConcurrentWait (up_MaxConcurrentWaitSeconds up)) (MemberLim k) proxy))"

fun numbers :: "nat \<Rightarrow> 't upstream list \<Rightarrow> nat option list" where
  "numbers k [] = []"
| "numbers k (up # ups) =
     (if 0 < up_MaxConcurrentRequests up then Some k # numbers (Suc k) ups else None # numbers k ups)"

definition new_limiters :: "'t upstream list \<Rightarrow> limiter list" where
  "new_limiters ups = [limiter_start (nat (up_MaxConcurrentRequests up)). up \<leftarrow> ups, 0 < up_MaxConcurrentRequests up]"

fun member_lim :: "member_handler \<Rightarrow> nat option" where
  "member_lim (ProxyHandler u tok) = None"
| "member_lim (LimiterHandler w d (MemberLim k) h) = Some k"
| "member_lim (LimiterHandler w d (HostLim key) h) = member_lim h"
| "member_lim (HostCounter key h) = member_lim h"

fun host_of :: "member_handler \<Rightarrow> string option" where
  "host_of (LimiterHandler w d (HostLim key) h) = Some key"
| "host_of (HostCounter key h) = Some key"
| "host_of h = None"

fun proxy_of :: "member_handler \<Rightarrow> url \<times> string" where
  "proxy_of (ProxyHandler u tok) = (u, tok)"
| "proxy_of (LimiterHandler w d r h) = proxy_of h"
| "proxy_of (HostCounter key h) = proxy_of h"

lemma chain_facts [simp]:
  "member_lim (member_chain name tok limits up u n) = n"
  "host_of (member_chain name tok limits up u n) = Some (UpstreamHostKey u)"
  "proxy_of (member_chain name tok limits up u n) = (u, effective_token tok up)"
  by (auto simp: member_chain_def host_wrap_handler_def Let_def split: option.splits)

definition hosts_ok :: "(string \<times> host_limit) list \<Rightarrow> heap \<Rightarrow> bool" where
  "hosts_ok limits hp \<longleftrightarrow> (\<forall>key x. hp_hosts hp key = Some x \<longrightarrow> x = host_spec limits key)"

lemma hostLimiterFor_ok:
  assumes "hosts_ok limits hp"
  shows "hostLimiterFor limits key hp =
    (hp\<lparr>hp_hosts := (hp_hosts hp)(key \<mapsto> host_spec limits key)\<rparr>, host_spec limits key)"
proof (cases "hp_hosts hp key")
  case None
  then show ?thesis
    by (auto simp: hostLimiterFor_def host_spec_def Let_def split: option.splits)
next
  case (Some x)
  then have "x = host_spec limits key" using assms unfolding hosts_ok_def by blast
  moreover have "(hp_hosts hp)(key \<mapsto> x) = hp_hosts hp" using Some by auto
  ultimately show ?thesis using Some by (simp add: hostLimiterFor_def)
qed

definition with_member :: "string \<Rightarrow> string \<Rightarrow> (string \<times> host_limit) list \<Rightarrow> 't upstream \<Rightarrow> url \<Rightarrow> nat option \<Rightarrow>
    't provider_parts \<Rightarrow> 't provider_parts" where
  "with_member name tok limits up u n parts =
     \<lparr>pp_members = pp_members parts @ [member_of up],
      pp_handlers = pp_handlers parts @ [member_chain name tok limits up u n],
      pp_caps = pp_caps parts @ [up_MaxConcurrentRequests up],
      pp_inflights = pp_inflights parts @ [map_option (InFlightOf \<circ> MemberLim) n],
      pp_queueds = pp_queueds parts @ [map_option (QueuedOf \<circ> MemberLim) n]\<rparr>"

lemma add_member_eq:
  assumes "hosts_ok limits hp"
  shows "add_member name tok limits up u (parts, hp) =
    (with_member name tok limits up u (hd (numbers (length (hp_limiters hp)) [up])) parts,
     \<lparr>hp_limiters = hp_limiters hp @ new_limiters [up],
      hp_hosts = (hp_hosts hp)(UpstreamHostKey u \<mapsto> host_spec limits (UpstreamHostKey u))\<rparr>)"
proof -
  have ok: "hosts_ok limits (hp\<lparr>hp_limiters := ls\<rparr>)" for ls using assms by (simp add: hosts_ok_def)
  show ?thesis
    by (auto simp: add_member_def limit_member_def NewConcurrencyLimiter_def memberCounters_def with_member_def
        member_of_def member_chain_def new_limiters_def Let_def hostLimiterFor_ok [OF assms] hostLimiterFor_ok [OF ok])
qed

lemma numbers_Cons:
  "numbers k (up # ups) = hd (numbers k [up]) # numbers (k + length (new_limiters [up])) ups"
  by (simp add: new_limiters_def)

lemma new_limiters_Cons: "new_limiters (up # ups) = new_limiters [up] @ new_limiters ups"
  by (simp add: new_limiters_def)

text \<open>What building the members of one provider does, without the heap.\<close>

definition with_members :: "(string \<Rightarrow> url option) \<Rightarrow> string \<Rightarrow> string \<Rightarrow> (string \<times> host_limit) list \<Rightarrow>
    't upstream list \<Rightarrow> nat \<Rightarrow> 't provider_parts \<Rightarrow> 't provider_parts" where
  "with_members url_parse name tok limits ups k parts =
     \<lparr>pp_members = pp_members parts @ map member_of ups,
      pp_handlers = pp_handlers parts @
        map2 (\<lambda>up n. member_chain name tok limits up (the (url_parse (up_Upstream up))) n) ups (numbers k ups),
      pp_caps = pp_caps parts @ map up_MaxConcurrentRequests ups,
      pp_inflights = pp_inflights parts @ map (map_option (InFlightOf \<circ> MemberLim)) (numbers k ups),
      pp_queueds = pp_queueds parts @ map (map_option (QueuedOf \<circ> MemberLim)) (numbers k ups)\<rparr>"

definition add_hosts :: "(string \<Rightarrow> url option) \<Rightarrow> (string \<times> host_limit) list \<Rightarrow> 't upstream list \<Rightarrow>
    (string \<rightharpoonup> host_limiter \<times> duration) \<Rightarrow> (string \<rightharpoonup> host_limiter \<times> duration)" where
  "add_hosts url_parse limits ups =
     fold (\<lambda>up hosts. let key = UpstreamHostKey (the (url_parse (up_Upstream up)))
       in hosts(key \<mapsto> host_spec limits key)) ups"

lemma build_members_eq:
  assumes "hosts_ok limits hp" "\<forall>up \<in> set ups. url_parse (up_Upstream up) \<noteq> None"
  shows "build_members url_parse False name tok limits ups (parts, hp) =
    Inr (with_members url_parse name tok limits ups (length (hp_limiters hp)) parts,
         \<lparr>hp_limiters = hp_limiters hp @ new_limiters ups,
          hp_hosts = add_hosts url_parse limits ups (hp_hosts hp)\<rparr>)"
  using assms
proof (induction ups arbitrary: parts hp)
  case Nil
  then show ?case by (simp add: with_members_def new_limiters_def add_hosts_def)
next
  case (Cons up ups)
  obtain u where u: "url_parse (up_Upstream up) = Some u" using Cons.prems(2) by auto
  let ?hp = "\<lparr>hp_limiters = hp_limiters hp @ new_limiters [up],
      hp_hosts = (hp_hosts hp)(UpstreamHostKey u \<mapsto> host_spec limits (UpstreamHostKey u))\<rparr>"
  have ok: "hosts_ok limits ?hp" using Cons.prems(1) by (auto simp: hosts_ok_def)
  have step: "build_members url_parse False name tok limits (up # ups) (parts, hp) =
      build_members url_parse False name tok limits ups
        (with_member name tok limits up u (hd (numbers (length (hp_limiters hp)) [up])) parts, ?hp)"
    using u by (simp add: add_member_eq [OF Cons.prems(1)])
  show ?case
    unfolding step Cons.IH [OF ok, of "with_member name tok limits up u (hd (numbers (length (hp_limiters hp)) [up])) parts",
        OF Cons.prems(2) [unfolded list.set ball_simps, THEN conjunct2]]
      numbers_Cons [of _ up ups] new_limiters_Cons [of up ups]
    using u by (simp add: with_members_def with_member_def add_hosts_def numbers_Cons [of _ up ups] Let_def del: numbers.simps)
qed


section \<open>Numbers of limiters\<close>

lemma numbers_length [simp]: "length (numbers k ups) = length ups"
  by (induction ups arbitrary: k) auto

lemma numbers_nth:
  "i < length ups \<Longrightarrow> numbers k ups ! i =
     (if 0 < up_MaxConcurrentRequests (ups ! i) then Some (k + length (new_limiters (take i ups))) else None)"
proof (induction ups arbitrary: k i)
  case (Cons up ups)
  then show ?case by (cases i) (auto simp: new_limiters_def)
qed simp

lemma new_limiters_nth:
  assumes "i < length ups" "0 < up_MaxConcurrentRequests (ups ! i)"
  shows "length (new_limiters (take i ups)) < length (new_limiters ups) \<and>
    new_limiters ups ! length (new_limiters (take i ups)) = limiter_start (nat (up_MaxConcurrentRequests (ups ! i)))"
proof -
  have "ups = take i ups @ ups ! i # drop (Suc i) ups" using assms(1) by (simp add: id_take_nth_drop)
  then have "new_limiters ups = new_limiters (take i ups) @ new_limiters (ups ! i # drop (Suc i) ups)"
    unfolding new_limiters_def by (metis concat_append map_append)
  then show ?thesis using assms(2) by (simp add: new_limiters_def)
qed

lemma numbers_inj:
  assumes "i < length ups" "j < length ups" "numbers k ups ! i = Some a" "numbers k ups ! j = Some a"
  shows "i = j"
proof -
  have less: False if "i < j" "i < length ups" "j < length ups" "numbers k ups ! i = Some a"
    "numbers k ups ! j = Some a" for i j
  proof -
    have "length (new_limiters (take i (take j ups))) < length (new_limiters (take j ups))"
      using new_limiters_nth [of i "take j ups"] that by (simp add: numbers_nth split: if_splits)
    then show False using that by (simp add: numbers_nth min_def split: if_splits)
  qed
  show ?thesis using less [of i j] less [of j i] assms by (cases i j rule: linorder_cases) auto
qed

section \<open>The trees of the providers\<close>

definition parts_of :: "(string \<Rightarrow> url option) \<Rightarrow> 't config \<Rightarrow> string \<Rightarrow> nat \<Rightarrow> 't provider_parts" where
  "parts_of url_parse cfg name k =
     with_members url_parse name (cfg_DefaultToken cfg) (cfg_UpstreamHostLimits cfg)
       (UpstreamList (provider_of cfg name)) k no_parts"

definition urls_ok :: "(string \<Rightarrow> url option) \<Rightarrow> 't provider \<Rightarrow> bool" where
  "urls_ok url_parse prov \<longleftrightarrow> (\<forall>up \<in> set (UpstreamList prov). url_parse (up_Upstream up) \<noteq> None)"

definition tree_ok :: "(string \<Rightarrow> url option) \<Rightarrow> time \<Rightarrow> 't config \<Rightarrow> heap \<Rightarrow> string \<Rightarrow> 't provider_tree \<Rightarrow> bool" where
  "tree_ok url_parse now cfg hp name tree \<longleftrightarrow>
     (let prov = provider_of cfg name; ups = UpstreamList prov
      in urls_ok url_parse prov \<and>
         (\<forall>up \<in> set ups. let key = UpstreamHostKey (the (url_parse (up_Upstream up)))
            in hp_hosts hp key = Some (host_spec (cfg_UpstreamHostLimits cfg) key)) \<and>
         (\<exists>k. tree = provider_handler prov now (parts_of url_parse cfg name k) \<and>
            k + length (new_limiters ups) \<le> length (hp_limiters hp) \<and>
            take (length (new_limiters ups)) (drop k (hp_limiters hp)) = new_limiters ups))"

definition owns :: "(string \<rightharpoonup> 't provider_tree) \<Rightarrow> string \<Rightarrow> nat \<Rightarrow> nat \<Rightarrow> bool" where
  "owns providers name i a \<longleftrightarrow>
     (\<exists>tree. providers name = Some tree \<and> i < length (pp_handlers (pt_parts tree)) \<and>
        member_lim (pp_handlers (pt_parts tree) ! i) = Some a)"

definition build_ok :: "(string \<Rightarrow> url option) \<Rightarrow> time \<Rightarrow> 't config \<Rightarrow> 't build \<Rightarrow> bool" where
  "build_ok url_parse now cfg bd \<longleftrightarrow>
     hosts_ok (cfg_UpstreamHostLimits cfg) (bd_heap bd) \<and>
     (\<forall>name tree. bd_providers bd name = Some tree \<longrightarrow> tree_ok url_parse now cfg (bd_heap bd) name tree) \<and>
     (\<forall>m n i j a. owns (bd_providers bd) m i a \<and> owns (bd_providers bd) n j a \<longrightarrow> m = n \<and> i = j)"

lemma provider_handler_parts [simp]: "pt_parts (provider_handler prov now parts) = parts"
  by (simp add: provider_handler_def Let_def)

lemma parts_of_handlers:
  "pp_handlers (parts_of url_parse cfg name k) =
     map2 (\<lambda>up n. member_chain name (cfg_DefaultToken cfg) (cfg_UpstreamHostLimits cfg) up
        (the (url_parse (up_Upstream up))) n)
       (UpstreamList (provider_of cfg name)) (numbers k (UpstreamList (provider_of cfg name)))"
  "pp_members (parts_of url_parse cfg name k) = map member_of (UpstreamList (provider_of cfg name))"
  "pp_caps (parts_of url_parse cfg name k) = map up_MaxConcurrentRequests (UpstreamList (provider_of cfg name))"
  "pp_inflights (parts_of url_parse cfg name k) =
     map (map_option (InFlightOf \<circ> MemberLim)) (numbers k (UpstreamList (provider_of cfg name)))"
  "pp_queueds (parts_of url_parse cfg name k) =
     map (map_option (QueuedOf \<circ> MemberLim)) (numbers k (UpstreamList (provider_of cfg name)))"
  by (simp_all add: parts_of_def with_members_def no_parts_def)

lemma add_hosts_simps [simp]:
  "add_hosts url_parse limits [] hosts = hosts"
  "add_hosts url_parse limits (up # ups) hosts = add_hosts url_parse limits ups
     (hosts(UpstreamHostKey (the (url_parse (up_Upstream up))) \<mapsto>
        host_spec limits (UpstreamHostKey (the (url_parse (up_Upstream up))))))"
  by (simp_all add: add_hosts_def Let_def)

lemma add_hosts_mono:
  assumes "hosts key = Some (host_spec limits key)"
  shows "add_hosts url_parse limits ups hosts key = Some (host_spec limits key)"
  using assms
proof (induction ups arbitrary: hosts)
  case (Cons up ups)
  show ?case unfolding add_hosts_simps by (rule Cons.IH) (use Cons.prems in auto)
qed simp

lemma add_hosts_has:
  "up \<in> set ups \<Longrightarrow> key = UpstreamHostKey (the (url_parse (up_Upstream up))) \<Longrightarrow>
   add_hosts url_parse limits ups hosts key = Some (host_spec limits key)"
proof (induction ups arbitrary: hosts)
  case (Cons x ups)
  show ?case
  proof (cases "up = x")
    case True
    then show ?thesis
      using Cons.prems add_hosts_mono [of "hosts(key \<mapsto> host_spec limits key)" key limits url_parse ups]
      by simp
  next
    case False
    then show ?thesis using Cons by simp
  qed
qed simp

lemma add_hosts_ok:
  "hosts_ok limits hp \<Longrightarrow> hosts_ok limits (\<lparr>hp_limiters = ls, hp_hosts = add_hosts url_parse limits ups (hp_hosts hp)\<rparr>)"
proof (induction ups arbitrary: hp)
  case Nil
  then show ?case by (simp add: hosts_ok_def)
next
  case (Cons up ups)
  let ?key = "UpstreamHostKey (the (url_parse (up_Upstream up)))"
  have "hosts_ok limits (hp\<lparr>hp_hosts := (hp_hosts hp)(?key \<mapsto> host_spec limits ?key)\<rparr>)"
    using Cons.prems by (auto simp: hosts_ok_def)
  from Cons.IH [OF this] show ?case unfolding add_hosts_simps by (simp del: fun_upd_apply)
qed

lemma tree_ok_mono:
  assumes "tree_ok url_parse now cfg hp name tree"
  shows "tree_ok url_parse now cfg \<lparr>hp_limiters = hp_limiters hp @ ls,
    hp_hosts = add_hosts url_parse (cfg_UpstreamHostLimits cfg) ups (hp_hosts hp)\<rparr> name tree"
proof -
  let ?ups = "UpstreamList (provider_of cfg name)"
  obtain k where k: "tree = provider_handler (provider_of cfg name) now (parts_of url_parse cfg name k)"
      "k + length (new_limiters ?ups) \<le> length (hp_limiters hp)"
      "take (length (new_limiters ?ups)) (drop k (hp_limiters hp)) = new_limiters ?ups"
    using assms by (auto simp: tree_ok_def Let_def)
  have "take (length (new_limiters ?ups)) (drop k (hp_limiters hp @ ls)) = new_limiters ?ups"
    using k(2,3) by simp
  then show ?thesis
    using assms k(1,2) unfolding tree_ok_def Let_def
    by (auto simp: add_hosts_mono intro!: exI [of _ k])
qed


lemma UpstreamList_ne [simp]: "UpstreamList prov \<noteq> []"
  by (simp add: UpstreamList_def)

lemma build_members_Inr:
  "build_members url_parse cancelled name tok limits ups ph = Inr res \<Longrightarrow>
   (ups = [] \<or> \<not> cancelled) \<and> (\<forall>up \<in> set ups. url_parse (up_Upstream up) \<noteq> None)"
  by (induction url_parse cancelled name tok limits ups ph rule: build_members.induct)
    (auto split: if_splits option.splits)

lemma buildUpstreamMembers_eq:
  assumes "hosts_ok (cfg_UpstreamHostLimits cfg) hp" "urls_ok url_parse (provider_of cfg name)"
  shows "buildUpstreamMembers url_parse False name (provider_of cfg name) (cfg_DefaultToken cfg)
      (cfg_UpstreamHostLimits cfg) hp =
    Inr (parts_of url_parse cfg name (length (hp_limiters hp)),
      \<lparr>hp_limiters = hp_limiters hp @ new_limiters (UpstreamList (provider_of cfg name)),
       hp_hosts = add_hosts url_parse (cfg_UpstreamHostLimits cfg) (UpstreamList (provider_of cfg name)) (hp_hosts hp)\<rparr>)"
  using build_members_eq [OF assms(1), of "UpstreamList (provider_of cfg name)" url_parse name "cfg_DefaultToken cfg" no_parts]
    assms(2) by (simp add: buildUpstreamMembers_def urls_ok_def parts_of_def)

lemma owns_new:
  assumes "owns (providers(name \<mapsto> provider_handler prov now (parts_of url_parse cfg name k))) n i a"
  shows "if n = name then i < length (UpstreamList (provider_of cfg name)) \<and> k \<le> a \<and>
      numbers k (UpstreamList (provider_of cfg name)) ! i = Some a
    else owns providers n i a"
  using assms by (auto simp: owns_def parts_of_handlers numbers_nth split: if_splits)

lemma owns_bound:
  assumes "tree_ok url_parse now cfg hp name tree" "providers name = Some tree" "owns providers name i a"
  shows "a < length (hp_limiters hp)"
proof -
  let ?ups = "UpstreamList (provider_of cfg name)"
  obtain k where k: "tree = provider_handler (provider_of cfg name) now (parts_of url_parse cfg name k)"
      "k + length (new_limiters ?ups) \<le> length (hp_limiters hp)"
    using assms(1) by (auto simp: tree_ok_def Let_def)
  have "i < length ?ups" "0 < up_MaxConcurrentRequests (?ups ! i)" "a = k + length (new_limiters (take i ?ups))"
    using assms(2,3) k(1) by (auto simp: owns_def parts_of_handlers numbers_nth split: if_splits)
  then show ?thesis using new_limiters_nth [of i ?ups] k(2) by simp
qed

definition next_build :: "(string \<Rightarrow> url option) \<Rightarrow> time \<Rightarrow> 't config \<Rightarrow> string \<Rightarrow> 't build \<Rightarrow> 't build" where
  "next_build url_parse now cfg name bd =
     (let prov = provider_of cfg name; hp = bd_heap bd;
          tree = provider_handler prov now (parts_of url_parse cfg name (length (hp_limiters hp)))
      in \<lparr>bd_providers = (bd_providers bd)(name \<mapsto> tree),
          bd_routes = bd_routes bd @ provider_routes name prov (pt_handler tree),
          bd_heap = \<lparr>hp_limiters = hp_limiters hp @ new_limiters (UpstreamList prov),
            hp_hosts = add_hosts url_parse (cfg_UpstreamHostLimits cfg) (UpstreamList prov) (hp_hosts hp)\<rparr>,
          bd_metrics = PreInitRejection name (bd_metrics bd)\<rparr>)"

lemma build_providers_step:
  assumes "build_ok url_parse now cfg bd" "urls_ok url_parse (provider_of cfg name)"
  shows "build_providers url_parse False now cfg (name # names) bd =
    build_providers url_parse False now cfg names (next_build url_parse now cfg name bd)"
proof -
  have "hosts_ok (cfg_UpstreamHostLimits cfg) (bd_heap bd)" using assms(1) by (simp add: build_ok_def)
  from buildUpstreamMembers_eq [OF this assms(2)] show ?thesis
    by (simp add: next_build_def Let_def)
qed

lemma next_build_ok:
  assumes "build_ok url_parse now cfg bd" "urls_ok url_parse (provider_of cfg name)"
  shows "build_ok url_parse now cfg (next_build url_parse now cfg name bd)"
proof -
  let ?hp = "bd_heap bd" and ?bd = "next_build url_parse now cfg name bd"
  let ?prov = "provider_of cfg name" and ?ups = "UpstreamList (provider_of cfg name)"
  let ?k = "length (hp_limiters ?hp)"
  let ?tree = "provider_handler ?prov now (parts_of url_parse cfg name ?k)"
  have old: "hosts_ok (cfg_UpstreamHostLimits cfg) ?hp"
    "\<And>n t. bd_providers bd n = Some t \<Longrightarrow> tree_ok url_parse now cfg ?hp n t"
    "\<And>m n i j a. owns (bd_providers bd) m i a \<Longrightarrow> owns (bd_providers bd) n j a \<Longrightarrow> m = n \<and> i = j"
    using assms(1) unfolding build_ok_def by (blast, blast, blast)
  have ps: "bd_providers ?bd = (bd_providers bd)(name \<mapsto> ?tree)"
    and hp: "bd_heap ?bd = \<lparr>hp_limiters = hp_limiters ?hp @ new_limiters ?ups,
      hp_hosts = add_hosts url_parse (cfg_UpstreamHostLimits cfg) ?ups (hp_hosts ?hp)\<rparr>"
    by (simp_all add: next_build_def Let_def)
  have "hosts_ok (cfg_UpstreamHostLimits cfg) (bd_heap ?bd)" unfolding hp by (rule add_hosts_ok [OF old(1)])
  moreover have "tree_ok url_parse now cfg (bd_heap ?bd) name ?tree"
    unfolding hp tree_ok_def Let_def using assms(2) by (auto simp: add_hosts_has intro!: exI [of _ ?k])
  then have "tree_ok url_parse now cfg (bd_heap ?bd) n t" if "bd_providers ?bd n = Some t" for n t
    using that tree_ok_mono [OF old(2)] unfolding ps hp by (auto split: if_splits)
  moreover have bound: "a < ?k" if "owns (bd_providers bd) n i a" for n i a
    using that owns_bound [OF old(2)] by (auto simp: owns_def)
  have "m = n \<and> i = j" if own: "owns (bd_providers ?bd) m i a" "owns (bd_providers ?bd) n j a" for m n i j a
  proof -
    note new = owns_new [OF own(1) [unfolded ps]] owns_new [OF own(2) [unfolded ps]]
    show ?thesis
    proof (cases "m = name"; cases "n = name")
      assume "m = name" "n = name"
      then show ?thesis using new numbers_inj [of i ?ups j ?k a] by simp
    next
      assume "m = name" "n \<noteq> name"
      then show ?thesis using new bound [of n j a] by simp
    next
      assume "m \<noteq> name" "n = name"
      then show ?thesis using new bound [of m i a] by simp
    next
      assume "m \<noteq> name" "n \<noteq> name"
      then show ?thesis using new old(3) [of m i a n j] by simp
    qed
  qed
  ultimately show ?thesis unfolding build_ok_def by blast
qed

definition handler_of :: "time \<Rightarrow> 't provider \<Rightarrow> 't http_handler" where
  "handler_of now prov = pt_handler (provider_handler prov now (no_parts\<lparr>pp_members := map member_of (UpstreamList prov)\<rparr>))"

definition routes_of :: "time \<Rightarrow> 't config \<Rightarrow> string \<Rightarrow> 't model_route list" where
  "routes_of now cfg name = provider_routes name (provider_of cfg name) (handler_of now (provider_of cfg name))"

lemma pt_handler_parts: "pp_members parts = pp_members parts' \<Longrightarrow>
    pt_handler (provider_handler prov now parts) = pt_handler (provider_handler prov now parts')"
  by (simp add: provider_handler_def Let_def)

lemma tree_handler:
  "tree_ok url_parse now cfg hp name tree \<Longrightarrow> pt_handler tree = handler_of now (provider_of cfg name)"
  by (auto simp: tree_ok_def handler_of_def Let_def parts_of_handlers intro!: pt_handler_parts)

lemma build_providers_ok:
  assumes "build_ok url_parse now cfg bd" "\<forall>name \<in> set names. urls_ok url_parse (provider_of cfg name)"
  shows "\<exists>bd'. build_providers url_parse False now cfg names bd = Inr bd' \<and> build_ok url_parse now cfg bd' \<and>
    dom (bd_providers bd') = dom (bd_providers bd) \<union> set names \<and>
    bd_routes bd' = bd_routes bd @ concat (map (routes_of now cfg) names)"
  using assms
proof (induction names arbitrary: bd)
  case (Cons name names)
  let ?bd = "next_build url_parse now cfg name bd"
  have n: "urls_ok url_parse (provider_of cfg name)" using Cons.prems(2) by simp
  obtain bd' where bd': "build_providers url_parse False now cfg names ?bd = Inr bd'" "build_ok url_parse now cfg bd'"
    "dom (bd_providers bd') = dom (bd_providers ?bd) \<union> set names"
    "bd_routes bd' = bd_routes ?bd @ concat (map (routes_of now cfg) names)"
    using Cons.IH [OF next_build_ok [OF Cons.prems(1) n]] Cons.prems(2) by auto
  let ?tree = "provider_handler (provider_of cfg name) now (parts_of url_parse cfg name (length (hp_limiters (bd_heap bd))))"
  have "bd_providers ?bd name = Some ?tree" by (simp add: next_build_def Let_def)
  then have "tree_ok url_parse now cfg (bd_heap ?bd) name ?tree"
    using next_build_ok [OF Cons.prems(1) n] unfolding build_ok_def by blast
  from tree_handler [OF this] have "bd_routes ?bd = bd_routes bd @ routes_of now cfg name"
    by (simp add: next_build_def routes_of_def Let_def)
  moreover have "dom (bd_providers ?bd) = insert name (dom (bd_providers bd))"
    by (simp add: next_build_def Let_def)
  ultimately show ?case
    using bd' build_providers_step [OF Cons.prems(1) n, of names] by (intro exI [of _ bd']) auto
qed auto

text \<open>Without cancellation only an upstream whose URL does not parse stops the construction.\<close>

lemma build_members_Inl:
  "build_members url_parse False name tok limits ups ph = Inl e \<Longrightarrow>
   \<exists>up \<in> set ups. url_parse (up_Upstream up) = None \<and> e = BadUpstream name (up_Upstream up)"
  by (induction url_parse "False" name tok limits ups ph rule: build_members.induct) (auto split: option.splits)

lemma build_providers_Inl:
  "build_providers url_parse False now cfg names bd = Inl e \<Longrightarrow>
   \<exists>name \<in> set names. \<exists>up \<in> set (UpstreamList (provider_of cfg name)).
     url_parse (up_Upstream up) = None \<and> e = BadUpstream name (up_Upstream up)"
proof (induction names arbitrary: bd)
  case (Cons name names)
  show ?case
  proof (cases "buildUpstreamMembers url_parse False name (provider_of cfg name) (cfg_DefaultToken cfg)
       (cfg_UpstreamHostLimits cfg) (bd_heap bd)")
    case (Inl e')
    then have "e' = e" using Cons.prems by (simp add: Let_def)
    with build_members_Inl [OF Inl [unfolded buildUpstreamMembers_def]] show ?thesis by auto
  next
    case (Inr res)
    then obtain parts hp where "res = (parts, hp)" by fastforce
    with Inr Cons.prems Cons.IH show ?thesis by (auto simp: Let_def)
  qed
qed simp

lemma build_providers_Inr:
  "build_providers url_parse cancelled now cfg names bd = Inr bd' \<Longrightarrow>
   (names = [] \<or> \<not> cancelled) \<and> (\<forall>name \<in> set names. urls_ok url_parse (provider_of cfg name))"
proof (induction names arbitrary: bd)
  case (Cons name names)
  then obtain parts hp bd1 where
    "buildUpstreamMembers url_parse cancelled name (provider_of cfg name) (cfg_DefaultToken cfg)
       (cfg_UpstreamHostLimits cfg) (bd_heap bd) = Inr (parts, hp)" "\<not> cancelled"
    "build_providers url_parse cancelled now cfg names bd1 = Inr bd'"
    by (auto simp: Let_def split: if_splits sum.splits)
  then show ?case
    using Cons.IH build_members_Inr unfolding buildUpstreamMembers_def urls_ok_def by (metis set_ConsD)
qed simp


section \<open>Model pools and the router\<close>

definition pool_member_of :: "(string \<rightharpoonup> 't provider_tree) \<Rightarrow> model_pool_member \<Rightarrow> 't model_member" where
  "pool_member_of providers m =
     \<lparr>mm_Provider = mpm_Provider m, mm_Model = mpm_Model m, mm_Weight = mpm_Weight m, mm_Overflow = mpm_Overflow m,
      mm_Handler = pt_handler (the (providers (mpm_Provider m))), mm_HasInFlight = True, mm_HasSaturated = True\<rparr>"

lemma build_pool_members_ok:
  "\<forall>m \<in> set ms. mpm_Provider m \<in> dom providers \<Longrightarrow>
   build_pool_members False name providers ms = Inr (map (pool_member_of providers) ms)"
  by (induction ms) (auto simp: buildPoolMember_def pool_member_of_def)

lemma buildModelPools_ok:
  "\<forall>pool \<in> set pools. \<forall>m \<in> set (snd pool). mpm_Provider m \<in> dom providers \<Longrightarrow>
   buildModelPools False providers pools =
     Inr (map_of (map (\<lambda>pool. (fst pool, \<lparr>mp_members = map (pool_member_of providers) (snd pool), mp_rr = 0\<rparr>)) pools))"
  by (induction pools) (auto simp: build_pool_members_ok NewModelPool_def)

definition start_build :: "'t config \<Rightarrow> 't build" where
  "start_build cfg = \<lparr>bd_providers = Map.empty, bd_routes = [],
     bd_heap = \<lparr>hp_limiters = [], hp_hosts = Map.empty\<rparr>, bd_metrics = NewMetrics (cfg_Aliases cfg)\<rparr>"

lemma start_build_ok: "build_ok url_parse now cfg (start_build cfg)"
  by (simp add: build_ok_def start_build_def hosts_ok_def owns_def)

text \<open>A successful construction, whatever the configuration.\<close>

lemma CreateRouter_Inr:
  assumes "CreateRouterFromConfig url_parse cancelled registers now cfg = Inr t"
  obtains bd where "build_ok url_parse now cfg bd" "ht_providers t = bd_providers bd" "ht_heap t = bd_heap bd"
    "dom (ht_providers t) = set (providerKeys cancelled cfg)"
    "rt_routes (ht_router t) = concat (map (routes_of now cfg) (providerKeys cancelled cfg))"
proof -
  obtain bd tree where bd: "build_providers url_parse cancelled now cfg (providerKeys cancelled cfg) (start_build cfg) = Inr bd"
      "bd_providers bd (cfg_DefaultProvider cfg) = Some tree"
      "ht_providers t = bd_providers bd" "ht_heap t = bd_heap bd" "rt_routes (ht_router t) = bd_routes bd"
    using assms unfolding CreateRouterFromConfig_def start_build_def
    by (auto simp: NewModelRouterWithPools_def split: sum.splits option.splits if_splits)
  have "providerKeys cancelled cfg \<noteq> []"
    using bd(1,2) by (auto simp: start_build_def)
  with build_providers_Inr [OF bd(1)] have "\<not> cancelled"
    and u: "\<forall>name \<in> set (providerKeys cancelled cfg). urls_ok url_parse (provider_of cfg name)" by auto
  then show thesis
    using build_providers_ok [OF start_build_ok u, of now] bd that [of bd] by (auto simp: start_build_def)
qed

lemma CreateRouter_ok:
  assumes "\<forall>name \<in> set (providerKeys False cfg). urls_ok url_parse (provider_of cfg name)"
    and "cfg_DefaultProvider cfg \<in> set (providerKeys False cfg)"
    and "\<forall>pool \<in> set (cfg_ModelPools cfg). \<forall>m \<in> set (snd pool). mpm_Provider m \<in> set (providerKeys False cfg)"
  obtains t where "CreateRouterFromConfig url_parse False True now cfg = Inr t"
    "rt_routes (ht_router t) = concat (map (routes_of now cfg) (providerKeys False cfg))"
    "rt_defaultProviderName (ht_router t) = cfg_DefaultProvider cfg"
    "rt_defaultHandler (ht_router t) = handler_of now (provider_of cfg (cfg_DefaultProvider cfg))"
    "rt_modelPools (ht_router t) = map_of (map (\<lambda>pool. (fst pool,
       \<lparr>mp_members = map (pool_member_of (ht_providers t)) (snd pool), mp_rr = 0\<rparr>)) (cfg_ModelPools cfg))"
    "\<And>name. name \<in> set (providerKeys False cfg) \<Longrightarrow>
       pt_handler (the (ht_providers t name)) = handler_of now (provider_of cfg name)"
proof -
  obtain bd where bd: "build_providers url_parse False now cfg (providerKeys False cfg) (start_build cfg) = Inr bd"
      "build_ok url_parse now cfg bd" "dom (bd_providers bd) = set (providerKeys False cfg)"
      "bd_routes bd = concat (map (routes_of now cfg) (providerKeys False cfg))"
    using build_providers_ok [OF start_build_ok assms(1), of now] by (auto simp: start_build_def)
  have h: "\<exists>tree. bd_providers bd name = Some tree \<and> pt_handler tree = handler_of now (provider_of cfg name)"
    if name: "name \<in> set (providerKeys False cfg)" for name
  proof -
    obtain tree where "bd_providers bd name = Some tree" using name bd(3) domD [of name "bd_providers bd"] by auto
    moreover from this have "tree_ok url_parse now cfg (bd_heap bd) name tree" using bd(2) unfolding build_ok_def by blast
    ultimately show ?thesis using tree_handler by blast
  qed
  then obtain tree where tree: "bd_providers bd (cfg_DefaultProvider cfg) = Some tree"
      "pt_handler tree = handler_of now (provider_of cfg (cfg_DefaultProvider cfg))" using assms(2) by blast
  have p: "buildModelPools False (bd_providers bd) (cfg_ModelPools cfg) = Inr (map_of (map (\<lambda>pool. (fst pool,
       \<lparr>mp_members = map (pool_member_of (bd_providers bd)) (snd pool), mp_rr = 0\<rparr>)) (cfg_ModelPools cfg)))"
    using assms(3) bd(3) by (intro buildModelPools_ok) simp
  define t where "t = \<lparr>ht_router = NewModelRouterWithPools (bd_routes bd) (cfg_DefaultProvider cfg)
      (pt_handler tree) (map_of (cfg_Aliases cfg)) (map_of (map (\<lambda>pool. (fst pool,
       \<lparr>mp_members = map (pool_member_of (bd_providers bd)) (snd pool), mp_rr = 0\<rparr>)) (cfg_ModelPools cfg))),
      ht_providers = bd_providers bd, ht_heap = bd_heap bd, ht_metrics = bd_metrics bd, ht_trace = cfg_Trace cfg,
      ht_authKeys = AllowedApiKeySet cfg\<rparr>"
  have "CreateRouterFromConfig url_parse False True now cfg = Inr t"
    using bd(1) tree(1) p by (simp add: CreateRouterFromConfig_def start_build_def t_def)
  moreover have "pt_handler (the (ht_providers t name)) = handler_of now (provider_of cfg name)"
    if "name \<in> set (providerKeys False cfg)" for name
    using h [OF that] by (auto simp: t_def)
  ultimately show thesis
    using that bd(4) tree(2) by (simp add: t_def NewModelRouterWithPools_def)
qed

section \<open>Sequences of requests\<close>

fun route_requests :: "'t time_api \<Rightarrow> (json \<Rightarrow> bytes) \<Rightarrow> (router_request \<times> body) list \<Rightarrow> 't router \<Rightarrow> metrics \<Rightarrow>
    't router \<times> metrics \<times> (route_stop + 't routed) list" where
  "route_requests api marshal [] r m = (r, m, [])"
| "route_requests api marshal ((rq, b) # rqs) r m =
     (case route_request api marshal rq b r m of (r', m', res) \<Rightarrow>
        (case route_requests api marshal rqs r' m' of (r'', m'', ress) \<Rightarrow> (r'', m'', res # ress)))"

text \<open>Where a router can send a request; it never changes, the pools only count.\<close>

definition targets :: "'t router \<Rightarrow> (string \<times> 't http_handler) set" where
  "targets r = insert (rt_defaultProviderName r, rt_defaultHandler r)
     ((\<lambda>route. (mr_ProviderName route, mr_Handler route)) ` set (rt_routes r) \<union>
      {(mm_Provider mem, mm_Handler mem) |mem name pool. rt_modelPools r name = Some pool \<and> mem \<in> set (mp_members pool)})"

definition same_tables :: "'t router \<Rightarrow> 't router \<Rightarrow> bool" where
  "same_tables r r' \<longleftrightarrow> rt_routes r' = rt_routes r \<and> rt_defaultProviderName r' = rt_defaultProviderName r \<and>
     rt_defaultHandler r' = rt_defaultHandler r \<and>
     (\<forall>name. map_option mp_members (rt_modelPools r' name) = map_option mp_members (rt_modelPools r name))"

lemma mp_Resolve_keeps: "mp_members (fst (mp_Resolve api p w sat w' s)) = mp_members p"
  by (auto simp: mp_Resolve_def mp_leastLoaded_def Let_def split: sum.splits)

lemma same_tables_pool:
  assumes "same_tables r r'" "rt_modelPools r' name = Some pool"
  obtains p where "rt_modelPools r name = Some p" "mp_members p = mp_members pool"
proof -
  have "map_option mp_members (rt_modelPools r name) = Some (mp_members pool)"
    using assms unfolding same_tables_def by (metis option.simps(9))
  then show thesis using that by auto
qed

lemma same_tables_targets: "same_tables r r' \<Longrightarrow> targets r' \<subseteq> targets r"
proof
  fix x assume s: "same_tables r r'" and x: "x \<in> targets r'"
  have "\<exists>p. rt_modelPools r name = Some p \<and> mp_members p = mp_members pool"
    if "rt_modelPools r' name = Some pool" for name pool
    using same_tables_pool [OF s that] by metis
  then show "x \<in> targets r" using s x unfolding targets_def same_tables_def by fastforce
qed

lemma same_tables_pools_wf:
  assumes "same_tables r r'" "pools_wf r"
  shows "pools_wf r'"
  unfolding pools_wf_def
proof (intro allI impI)
  fix name pool assume "rt_modelPools r' name = Some pool"
  then obtain p where "rt_modelPools r name = Some p" "mp_members p = mp_members pool"
    by (rule same_tables_pool [OF assms(1)])
  then show "wf_model_pool pool" using assms(2) unfolding pools_wf_def wf_model_pool_def by metis
qed

text \<open>A pool that only counted stops the same requests.\<close>

lemma loads_moved_members:
  assumes "mp_members p = mp_members p'"
  shows "loads_moved api p w s = loads_moved api p' w s"
proof -
  have "mp_memberEligible api p w = mp_memberEligible api p' w" by (simp add: mp_memberEligible_def fun_eq_iff assms)
  then have "mp_eligibleIndices api p w = mp_eligibleIndices api p' w" by (simp add: mp_eligibleIndices_def assms)
  moreover have "mp_load p = mp_load p'" by (simp add: mp_load_def fun_eq_iff assms)
  ultimately show ?thesis by (simp add: loads_moved_def)
qed

lemma same_tables_stops:
  assumes "same_tables r r'"
  shows "pool_stops api rq r' b s = pool_stops api rq r b s"
proof -
  let ?pool = "rt_modelPools r (extractModel b)" and ?pool' = "rt_modelPools r' (extractModel b)"
  have "map_option mp_members ?pool' = map_option mp_members ?pool" using assms by (simp add: same_tables_def)
  then consider "?pool = None" "?pool' = None" | p p' where "?pool = Some p" "?pool' = Some p'" "mp_members p' = mp_members p"
    by (cases ?pool; cases ?pool') simp_all
  then show ?thesis
  proof cases
    case 2
    note loads_moved_members [OF 2(3), of api "rq_pool_world rq" "rq_sessionID rq"]
    then show ?thesis by (simp add: pool_stops_def 2(1,2))
  qed (simp add: pool_stops_def)
qed

lemma route_request_tables: "same_tables r (fst (route_request api marshal rq b r m))"
proof -
  have "same_tables r (fst (pool_stage api marshal rq r d))" for d
  proof (cases "rt_modelPools r (rd_model d)")
    case (Some pool)
    then show ?thesis
      using mp_Resolve_keeps [of api pool "rq_pool_world rq" "rq_saturated rq" "rq_overflow_world rq" "rq_sessionID rq"]
      by (auto simp: pool_stage_def same_tables_def split: prod.splits)
  qed (simp add: pool_stage_def same_tables_def)
  moreover have "fst (route_request api marshal rq b r m) = fst (pool_stage api marshal rq r (initial_routed r b))"
    unfolding route_request_def by (simp split: prod.splits sum.splits if_splits)
  ultimately show ?thesis by simp
qed


lemma dispatch_in_targets:
  assumes "pools_wf r"
  shows "case route_request api marshal rq b r m of
      (r', m', Inr d) \<Rightarrow> (\<forall>s. \<not> pool_stops api rq r b s) \<and> (rd_provider d, rd_target d) \<in> targets r
    | (r', m', Inl s) \<Rightarrow> pool_stops api rq r b s"
proof (rule route_request_total [OF assms, of api marshal rq b m])
  fix r' m' d0 d
  assume d: "route_request api marshal rq b r m = (r', m', Inr d)" "\<forall>s. \<not> pool_stops api rq r b s"
    "d = lift_stage marshal rq (route_stage api rq r' d0)" "rt_routes r' = rt_routes r"
    "case rt_modelPools r (extractModel b) of
       None \<Rightarrow> \<not> rd_byPool d0 \<and> rd_provider d0 = rt_defaultProviderName r \<and> rd_target d0 = rt_defaultHandler r
     | Some pool \<Rightarrow> rd_byPool d0 \<and> (\<exists>mem \<in> set (mp_members pool). rd_provider d0 = mm_Provider mem \<and> rd_target d0 = mm_Handler mem)"
  let ?d = "route_stage api rq r' d0"
  have "(rd_provider ?d, rd_target ?d) \<in> targets r"
  proof (cases "rt_modelPools r (extractModel b)")
    case None
    then have d0: "\<not> rd_byPool d0" "rd_provider d0 = rt_defaultProviderName r" "rd_target d0 = rt_defaultHandler r"
      using d(5) by simp_all
    from route_stage_cases [OF d0(1), of api rq r'] consider
        route where "pinned_route api rq r' route" "goes_to (mr_ProviderName route) (mr_Handler route) ?d"
      | j where "j < length (rt_routes r)" "goes_to (mr_ProviderName (rt_routes r ! j)) (mr_Handler (rt_routes r ! j)) ?d"
      | "goes_to (rd_provider d0) (rd_target d0) ?d"
      using d(4) by (auto simp: Let_def)
    then show ?thesis
    proof cases
      case 1
      then have "route \<in> set (rt_routes r)" using d(4) by (auto simp: pinned_route_def)
      then show ?thesis using 1(2) by (auto simp: targets_def goes_to_def)
    next
      case 2
      then show ?thesis by (auto simp: targets_def goes_to_def)
    next
      case 3
      then show ?thesis using d0 by (auto simp: targets_def goes_to_def)
    qed
  next
    case (Some pool)
    with d(5) show ?thesis by (auto simp: targets_def route_stage_def)
  qed
  then show ?thesis using d(1-3) by (simp add: lift_stage_same)
qed simp

lemma route_requests_total:
  assumes "pools_wf r"
  shows "\<exists>r' m' outs. route_requests api marshal rqs r m = (r', m', outs) \<and>
    list_all2 (\<lambda>(rq, b) out. case out of
        Inl s \<Rightarrow> pool_stops api rq r b s
      | Inr d \<Rightarrow> (\<forall>s. \<not> pool_stops api rq r b s) \<and> (rd_provider d, rd_target d) \<in> targets r) rqs outs"
  using assms
proof (induction rqs arbitrary: r m)
  case (Cons x rqs)
  obtain rq b where x: "x = (rq, b)" by (cases x)
  obtain r1 m1 out where o: "route_request api marshal rq b r m = (r1, m1, out)" by (metis surj_pair)
  have t: "same_tables r r1" using route_request_tables [of r api marshal rq b m] o by simp
  obtain r' m' outs where outs: "route_requests api marshal rqs r1 m1 = (r', m', outs)"
    "list_all2 (\<lambda>(rq, b) out. case out of
        Inl s \<Rightarrow> pool_stops api rq r1 b s
      | Inr d \<Rightarrow> (\<forall>s. \<not> pool_stops api rq r1 b s) \<and> (rd_provider d, rd_target d) \<in> targets r1) rqs outs"
    using Cons.IH [OF same_tables_pools_wf [OF t Cons.prems], of m1] by blast
  have "list_all2 (\<lambda>(rq, b) out. case out of
        Inl s \<Rightarrow> pool_stops api rq r b s
      | Inr d \<Rightarrow> (\<forall>s. \<not> pool_stops api rq r b s) \<and> (rd_provider d, rd_target d) \<in> targets r) rqs outs"
    by (rule list_all2_mono [OF outs(2)])
       (use same_tables_targets [OF t] in \<open>auto simp: same_tables_stops [OF t] split: sum.splits\<close>)
  with o outs(1) x dispatch_in_targets [OF Cons.prems, where api = api and marshal = marshal and rq = rq and b = b and m = m] show ?case
    by (intro exI [of _ r'] exI [of _ m'] exI [of _ "out # outs"]) (cases out; simp)
qed simp

section \<open>From a configuration to the upstream pools\<close>

fun inner_pool :: "'t http_handler \<Rightarrow> 't upstream_pool" where
  "inner_pool (PoolHandler p) = p"
| "inner_pool (ColdStartHandler h) = inner_pool h"
| "inner_pool (ThrottleHandler h) = inner_pool h"
| "inner_pool (BreakerHandler h) = inner_pool h"

definition small_config :: "'t config \<Rightarrow> bool" where
  "small_config cfg \<longleftrightarrow>
     (\<forall>np \<in> set (cfg_Providers cfg). length (UpstreamList (snd np)) < 2 ^ 64 \<and>
        sum_list (map up_Weight (UpstreamList (snd np))) < 2 ^ 63) \<and>
     (\<forall>pool \<in> set (cfg_ModelPools cfg). length (snd pool) < 2 ^ 64 \<and>
        sum_list (map mpm_Weight (snd pool)) < 2 ^ 63)"

lemma inner_pool_handler:
  "inner_pool (handler_of now prov) =
     NewUpstreamPoolHandler (length (UpstreamList prov)) (map member_of (UpstreamList prov))"
  by (simp add: handler_of_def provider_handler_def wrap_if_def Let_def split: option.splits)

lemma member_of_Weight [simp]: "um_Weight (member_of up) = up_Weight up"
  by (simp add: member_of_def)

lemma handler_pool_wf:
  assumes "wf_provider api prov" "length (UpstreamList prov) < 2 ^ 64"
    "sum_list (map up_Weight (UpstreamList prov)) < 2 ^ 63"
  shows "wf_upstream_pool (inner_pool (handler_of now prov))"
proof -
  have "UpstreamList prov = prov_Upstreams prov" using assms(1) by (simp add: wf_provider_def UpstreamList_def)
  then have "0 < up_Weight up" if "up \<in> set (UpstreamList prov)" for up
    using assms(1) that by (fastforce simp: wf_provider_def)
  then show ?thesis
    using assms(2,3) by (simp add: wf_upstream_pool_def inner_pool_handler NewUpstreamPoolHandler_def comp_def)
qed

lemma providerKeys_set:
  assumes "cfg_ProviderOrder cfg = [] \<or> set (cfg_ProviderOrder cfg) = fst ` set (cfg_Providers cfg)"
  shows "set (providerKeys False cfg) = fst ` set (cfg_Providers cfg)"
  using assms by (auto simp: providerKeys_def)

lemma provider_of_mem:
  assumes "name \<in> fst ` set (cfg_Providers cfg)"
  shows "map_of (cfg_Providers cfg) name = Some (provider_of cfg name)" "(name, provider_of cfg name) \<in> set (cfg_Providers cfg)"
proof -
  obtain p where p: "map_of (cfg_Providers cfg) name = Some p"
    using assms by (metis map_of_eq_None_iff not_None_eq)
  then show "map_of (cfg_Providers cfg) name = Some (provider_of cfg name)" by (simp add: provider_of_def)
  then show "(name, provider_of cfg name) \<in> set (cfg_Providers cfg)" by (rule map_of_SomeD)
qed

lemma pool_member_facts [simp]:
  "mm_Provider (pool_member_of providers m) = mpm_Provider m" "mm_Weight (pool_member_of providers m) = mpm_Weight m"
  "mm_Handler (pool_member_of providers m) = pt_handler (the (providers (mpm_Provider m)))"
  by (simp_all add: pool_member_of_def)

lemma built_pool_wf:
  assumes "wf_pool provs ms" "length ms < 2 ^ 64" "sum_list (map mpm_Weight ms) < 2 ^ 63"
  shows "wf_model_pool \<lparr>mp_members = map (pool_member_of providers) ms, mp_rr = 0\<rparr>"
proof -
  have "\<forall>m \<in> set ms. 0 < mpm_Weight m" using assms(1) by (auto simp: wf_pool_def)
  then show ?thesis using assms by (simp add: wf_model_pool_def wf_pool_def comp_def)
qed

lemma validated_router:
  assumes "wf_config api cfg" "set (providerKeys False cfg) = fst ` set (cfg_Providers cfg)"
    and urls: "\<forall>name \<in> fst ` set (cfg_Providers cfg). urls_ok url_parse (provider_of cfg name)" and "small_config cfg"
  obtains t where "CreateRouterFromConfig url_parse False True now cfg = Inr t" "pools_wf (ht_router t)"
    "\<And>name x. (name, x) \<in> targets (ht_router t) \<Longrightarrow>
       name \<in> fst ` set (cfg_Providers cfg) \<and> x = handler_of now (provider_of cfg name)"
proof -
  note keys = assms(2)
  have mem: "mpm_Provider m \<in> fst ` set (cfg_Providers cfg)"
    if "pool \<in> set (cfg_ModelPools cfg)" "m \<in> set (snd pool)" for pool m
    using assms(1) that unfolding wf_config_def wf_pool_def by blast
  have default: "cfg_DefaultProvider cfg \<in> fst ` set (cfg_Providers cfg)" using assms(1) by (simp add: wf_config_def)
  obtain t where t: "CreateRouterFromConfig url_parse False True now cfg = Inr t"
    and routes: "rt_routes (ht_router t) = concat (map (routes_of now cfg) (providerKeys False cfg))"
    and def: "rt_defaultProviderName (ht_router t) = cfg_DefaultProvider cfg"
      "rt_defaultHandler (ht_router t) = handler_of now (provider_of cfg (cfg_DefaultProvider cfg))"
    and pools: "rt_modelPools (ht_router t) = map_of (map (\<lambda>pool. (fst pool,
       \<lparr>mp_members = map (pool_member_of (ht_providers t)) (snd pool), mp_rr = 0\<rparr>)) (cfg_ModelPools cfg))"
    and h: "\<And>name. name \<in> fst ` set (cfg_Providers cfg) \<Longrightarrow>
       pt_handler (the (ht_providers t name)) = handler_of now (provider_of cfg name)"
    by (rule CreateRouter_ok [of cfg url_parse now, unfolded keys, OF urls default])
       (use mem in \<open>auto\<close>)
  have pool: "\<exists>ms. (name, ms) \<in> set (cfg_ModelPools cfg) \<and> p = \<lparr>mp_members = map (pool_member_of (ht_providers t)) ms, mp_rr = 0\<rparr>"
    if "rt_modelPools (ht_router t) name = Some p" for name p
    using map_of_SomeD [OF that [unfolded pools]] by auto
  have "wf_model_pool p" if p: "rt_modelPools (ht_router t) name = Some p" for name p
  proof -
    obtain ms where ms: "(name, ms) \<in> set (cfg_ModelPools cfg)" "p = \<lparr>mp_members = map (pool_member_of (ht_providers t)) ms, mp_rr = 0\<rparr>"
      using pool [OF p] by blast
    show ?thesis
      unfolding ms(2) using assms(1,4) ms(1)
      by (intro built_pool_wf [of "fst ` set (cfg_Providers cfg)"]) (fastforce simp: wf_config_def small_config_def)+
  qed
  then have "pools_wf (ht_router t)" by (simp add: pools_wf_def)
  moreover have "name \<in> fst ` set (cfg_Providers cfg) \<and> x = handler_of now (provider_of cfg name)"
    if tgt: "(name, x) \<in> targets (ht_router t)" for name x
  proof -
    consider "name = cfg_DefaultProvider cfg" "x = handler_of now (provider_of cfg (cfg_DefaultProvider cfg))"
      | route where "route \<in> set (rt_routes (ht_router t))" "name = mr_ProviderName route" "x = mr_Handler route"
      | mem n p where "rt_modelPools (ht_router t) n = Some p" "mem \<in> set (mp_members p)"
          "name = mm_Provider mem" "x = mm_Handler mem"
      using tgt def by (auto simp: targets_def)
    then show ?thesis
    proof cases
      case 1
      then show ?thesis using default by simp
    next
      case 2
      then show ?thesis using routes keys by (force simp: routes_of_def provider_routes_def)
    next
      case 3
      with pool [OF 3(1)] obtain ms m where "(n, ms) \<in> set (cfg_ModelPools cfg)" "m \<in> set ms" "mem = pool_member_of (ht_providers t) m"
        by auto
      then show ?thesis using 3 mem [of "(n, ms)" m] h [of "mpm_Provider m"] by simp
    qed
  qed
  ultimately show thesis using that t by blast
qed

text \<open>
  C1. From the file to the upstream: a configuration that passed validation, whose weights add up to an
  \<open>int\<close> and whose provider order, if it has one, lists its providers, either builds or names an
  upstream whose URL does not parse. The router it builds dispatches each request of every sequence
  of readable bodies to a provider of the configuration, and there to the handler built from that
  provider's entry, whose gates end in a well-formed pool with one member per upstream; the only
  exceptions are the requests that the resolution of a model pool stops (C2). The construction is not
  cancelled, and the registerer accepts the collectors.
\<close>

theorem configured_providers_serve:
  assumes "Validate api False c = Inr (cfg, warned)"
    and "cfg_ProviderOrder c = [] \<or> set (cfg_ProviderOrder c) = fst ` set (cfg_Providers c)"
    and "small_config cfg"
  shows "if \<forall>name \<in> fst ` set (cfg_Providers cfg). urls_ok url_parse (provider_of cfg name)
    then \<exists>t r' m' outs. CreateRouterFromConfig url_parse False True now cfg = Inr t \<and>
      route_requests api marshal rqs (ht_router t) (ht_metrics t) = (r', m', outs) \<and>
      list_all2 (\<lambda>(rq, b) out. case out of
          Inl s \<Rightarrow> pool_stops api rq (ht_router t) b s
        | Inr d \<Rightarrow> (\<forall>s. \<not> pool_stops api rq (ht_router t) b s) \<and>
            (\<exists>prov. map_of (cfg_Providers cfg) (rd_provider d) = Some prov \<and>
               rd_target d = handler_of now prov \<and> wf_upstream_pool (inner_pool (rd_target d)) \<and>
               pool_members (inner_pool (rd_target d)) = map member_of (UpstreamList prov))) rqs outs
    else \<exists>name prov up. map_of (cfg_Providers cfg) name = Some prov \<and> up \<in> set (UpstreamList prov) \<and>
      url_parse (up_Upstream up) = None \<and>
      CreateRouterFromConfig url_parse False True now cfg = Inl (BadUpstream name (up_Upstream up))"
proof -
  have v: "wf_config api cfg" "fst ` set (cfg_Providers cfg) = fst ` set (cfg_Providers c)"
    "cfg_ProviderOrder cfg = cfg_ProviderOrder c"
    using Validate_Inr [OF assms(1)] by (auto simp flip: set_map)
  have keys: "set (providerKeys False cfg) = fst ` set (cfg_Providers cfg)"
    using assms(2) v(2,3) by (intro providerKeys_set) simp
  show ?thesis
  proof (cases "\<forall>name \<in> fst ` set (cfg_Providers cfg). urls_ok url_parse (provider_of cfg name)")
    case False
    then obtain e where e: "build_providers url_parse False now cfg (providerKeys False cfg) (start_build cfg) = Inl e"
      using build_providers_Inr keys by (cases "build_providers url_parse False now cfg (providerKeys False cfg) (start_build cfg)") blast+
    then have "CreateRouterFromConfig url_parse False True now cfg = Inl e"
      by (simp add: CreateRouterFromConfig_def start_build_def)
    moreover obtain name up where "name \<in> fst ` set (cfg_Providers cfg)" "up \<in> set (UpstreamList (provider_of cfg name))"
      "url_parse (up_Upstream up) = None" "e = BadUpstream name (up_Upstream up)"
      using build_providers_Inl [OF e] keys by blast
    moreover from this(1) have "map_of (cfg_Providers cfg) name = Some (provider_of cfg name)" by (rule provider_of_mem)
    ultimately show ?thesis unfolding if_not_P [OF False]
      by (intro exI [of _ name] exI [of _ "provider_of cfg name"] exI [of _ up]) simp
  next
    case True
    obtain t where t: "CreateRouterFromConfig url_parse False True now cfg = Inr t" "pools_wf (ht_router t)"
      and tgt: "\<And>name x. (name, x) \<in> targets (ht_router t) \<Longrightarrow>
         name \<in> fst ` set (cfg_Providers cfg) \<and> x = handler_of now (provider_of cfg name)"
      using validated_router [OF v(1) keys True assms(3), of now] by blast
    have "wf_upstream_pool (inner_pool (handler_of now (provider_of cfg name)))" if "name \<in> fst ` set (cfg_Providers cfg)" for name
      using provider_of_mem(2) [OF that] v(1) assms(3)
      by (intro handler_pool_wf [of api]) (fastforce simp: wf_config_def small_config_def)+
    then have served: "\<exists>prov. map_of (cfg_Providers cfg) name = Some prov \<and>
         x = handler_of now prov \<and> wf_upstream_pool (inner_pool x) \<and>
         pool_members (inner_pool x) = map member_of (UpstreamList prov)" if "(name, x) \<in> targets (ht_router t)" for name x
      using tgt [OF that] provider_of_mem(1) [of name cfg] by (simp add: inner_pool_handler NewUpstreamPoolHandler_def)
    obtain r' m' outs where outs: "route_requests api marshal rqs (ht_router t) (ht_metrics t) = (r', m', outs)"
      "list_all2 (\<lambda>(rq, b) out. case out of
          Inl s \<Rightarrow> pool_stops api rq (ht_router t) b s
        | Inr d \<Rightarrow> (\<forall>s. \<not> pool_stops api rq (ht_router t) b s) \<and>
            (rd_provider d, rd_target d) \<in> targets (ht_router t)) rqs outs"
      using route_requests_total [OF t(2), of api marshal rqs "ht_metrics t"] by blast
    have "list_all2 (\<lambda>(rq, b) out. case out of
          Inl s \<Rightarrow> pool_stops api rq (ht_router t) b s
        | Inr d \<Rightarrow> (\<forall>s. \<not> pool_stops api rq (ht_router t) b s) \<and>
            (\<exists>prov. map_of (cfg_Providers cfg) (rd_provider d) = Some prov \<and>
               rd_target d = handler_of now prov \<and> wf_upstream_pool (inner_pool (rd_target d)) \<and>
               pool_members (inner_pool (rd_target d)) = map member_of (UpstreamList prov))) rqs outs"
      using outs(2)
    proof (rule list_all2_mono, goal_cases)
      case (1 x out)
      then show ?case using served by (cases x; cases out) simp_all
    qed
    with t(1) outs(1) show ?thesis unfolding if_P [OF True] by blast
  qed
qed

definition ex_url :: "string \<Rightarrow> url option" where
  "ex_url s = Some \<lparr>url_Scheme = ''http'', url_Hostname = ''h'', url_Port = []\<rparr>"

lemma ex_small: "small_config ex_validated"
  by (simp add: small_config_def ex_validated_def ex_config_def UpstreamList_def ex_provider_def synthesized_upstream_def)

lemma ex_built:
  "\<exists>t. CreateRouterFromConfig ex_url False True 0 ex_validated = Inr t \<and> ''b'' \<in> dom (ht_providers t)"
proof -
  have keys: "set (providerKeys False ex_validated) = fst ` set (cfg_Providers ex_validated)"
    by (rule providerKeys_set) (simp add: ex_validated_def ex_config_def)
  have "wf_config ex_api ex_validated" using Validate_Inr [OF ex_config_valid] by simp
  then obtain t where t: "CreateRouterFromConfig ex_url False True 0 ex_validated = Inr t"
    by (rule validated_router [OF _ keys _ ex_small, of ex_api ex_url 0]) (simp_all add: urls_ok_def ex_url_def)
  moreover have "''b'' \<in> dom (ht_providers t)"
    by (rule CreateRouter_Inr [OF t]) (use keys in \<open>simp add: ex_validated_def ex_config_def\<close>)
  ultimately show ?thesis by blast
qed

theorem configured_providers_serve_witness:
  "\<exists>t r' m' outs. CreateRouterFromConfig ex_url False True 0 ex_validated = Inr t \<and>
    route_requests ex_api (\<lambda>_. []) [(ex_rq, ex_body ''q''), (ex_rq, ex_body ''q'')] (ht_router t) (ht_metrics t) =
      (r', m', outs) \<and> length outs = 2"
proof -
  have o: "cfg_ProviderOrder ex_config = [] \<or> set (cfg_ProviderOrder ex_config) = fst ` set (cfg_Providers ex_config)"
    by (auto simp: ex_config_def)
  have u: "\<forall>name \<in> fst ` set (cfg_Providers ex_validated). urls_ok ex_url (provider_of ex_validated name)"
    by (simp add: urls_ok_def ex_url_def)
  show ?thesis
    using configured_providers_serve [OF ex_config_valid o ex_small, where url_parse = ex_url and now = 0
        and marshal = "\<lambda>_. []" and rqs = "[(ex_rq, ex_body ''q''), (ex_rq, ex_body ''q'')]"] u
    by (fastforce dest: list_all2_lengthD)
qed

text \<open>The limiter a capped upstream was given, in the heap of the finished tree.\<close>

lemma owned_limiter:
  assumes "i < length ups" "0 < up_MaxConcurrentRequests (ups ! i)"
    and "k + length (new_limiters ups) \<le> length ls" "take (length (new_limiters ups)) (drop k ls) = new_limiters ups"
  shows "k + length (new_limiters (take i ups)) < length ls \<and>
    ls ! (k + length (new_limiters (take i ups))) = limiter_start (nat (up_MaxConcurrentRequests (ups ! i)))"
proof -
  let ?m = "length (new_limiters (take i ups))"
  have m: "?m < length (new_limiters ups)" using new_limiters_nth [OF assms(1,2)] by simp
  then have "ls ! (k + ?m) = take (length (new_limiters ups)) (drop k ls) ! ?m" using assms(3) by simp
  then show ?thesis using m new_limiters_nth [OF assms(1,2)] assms(3,4) by simp
qed

lemma wired_members:
  assumes "CreateRouterFromConfig url_parse cancelled registers now cfg = Inr t" "ht_providers t name = Some tree"
  shows "list_all2 (\<lambda>up h. \<exists>u. url_parse (up_Upstream up) = Some u \<and>
        h = member_chain name (cfg_DefaultToken cfg) (cfg_UpstreamHostLimits cfg) up u (member_lim h) \<and>
        hp_hosts (ht_heap t) (UpstreamHostKey u) = Some (host_spec (cfg_UpstreamHostLimits cfg) (UpstreamHostKey u)) \<and>
        (case member_lim h of
           None \<Rightarrow> up_MaxConcurrentRequests up \<le> 0
         | Some k \<Rightarrow> k < length (hp_limiters (ht_heap t)) \<and> 0 < up_MaxConcurrentRequests up \<and>
             hp_limiters (ht_heap t) ! k = limiter_start (nat (up_MaxConcurrentRequests up))))
      (UpstreamList (provider_of cfg name)) (pp_handlers (pt_parts tree))"
    and "pt_handler tree = handler_of now (provider_of cfg name)"
proof -
  from assms(1) obtain bd where bd: "build_ok url_parse now cfg bd" "ht_providers t = bd_providers bd" "ht_heap t = bd_heap bd"
    by (rule CreateRouter_Inr)
  let ?ups = "UpstreamList (provider_of cfg name)" and ?ls = "hp_limiters (ht_heap t)"
  have ok: "tree_ok url_parse now cfg (ht_heap t) name tree"
    using bd(1) assms(2) unfolding bd(2,3) build_ok_def by blast
  then show "pt_handler tree = handler_of now (provider_of cfg name)" by (rule tree_handler)
  from ok obtain k where tree: "tree = provider_handler (provider_of cfg name) now (parts_of url_parse cfg name k)"
    and k: "k + length (new_limiters ?ups) \<le> length ?ls" "take (length (new_limiters ?ups)) (drop k ?ls) = new_limiters ?ups"
    by (auto simp: tree_ok_def Let_def)
  have lim: "?ls ! (k + length (new_limiters (take i ?ups))) = limiter_start (nat (up_MaxConcurrentRequests (?ups ! i))) \<and>
      k + length (new_limiters (take i ?ups)) < length ?ls"
    if "i < length ?ups" "0 < up_MaxConcurrentRequests (?ups ! i)" for i
    using owned_limiter [OF that k] by simp
  have "\<forall>i < length ?ups. url_parse (up_Upstream (?ups ! i)) \<noteq> None \<and>
      hp_hosts (ht_heap t) (UpstreamHostKey (the (url_parse (up_Upstream (?ups ! i))))) =
        Some (host_spec (cfg_UpstreamHostLimits cfg) (UpstreamHostKey (the (url_parse (up_Upstream (?ups ! i))))))"
    using ok unfolding tree_ok_def urls_ok_def Let_def by (metis nth_mem)
  then show "list_all2 (\<lambda>up h. \<exists>u. url_parse (up_Upstream up) = Some u \<and>
        h = member_chain name (cfg_DefaultToken cfg) (cfg_UpstreamHostLimits cfg) up u (member_lim h) \<and>
        hp_hosts (ht_heap t) (UpstreamHostKey u) = Some (host_spec (cfg_UpstreamHostLimits cfg) (UpstreamHostKey u)) \<and>
        (case member_lim h of
           None \<Rightarrow> up_MaxConcurrentRequests up \<le> 0
         | Some k \<Rightarrow> k < length (hp_limiters (ht_heap t)) \<and> 0 < up_MaxConcurrentRequests up \<and>
             hp_limiters (ht_heap t) ! k = limiter_start (nat (up_MaxConcurrentRequests up))))
      (UpstreamList (provider_of cfg name)) (pp_handlers (pt_parts tree))"
    using lim unfolding tree provider_handler_parts parts_of_handlers list_all2_conv_all_nth
    by (auto simp: numbers_nth)
qed

text \<open>
  C17. What stands in front of each upstream: its own limiter, created with its own cap and shared
  with no other member of any provider, and around that the budget of its host, which is the
  one object for that host in the whole tree, created from the configured host limit; the
  proxy sends the member's token, or the default token if it has none.
\<close>

theorem members_wired:
  assumes "CreateRouterFromConfig url_parse cancelled registers now cfg = Inr t" "ht_providers t name = Some tree"
  shows "list_all2 (\<lambda>up h. \<exists>u. url_parse (up_Upstream up) = Some u \<and>
        h = member_chain name (cfg_DefaultToken cfg) (cfg_UpstreamHostLimits cfg) up u (member_lim h) \<and>
        hp_hosts (ht_heap t) (UpstreamHostKey u) = Some (host_spec (cfg_UpstreamHostLimits cfg) (UpstreamHostKey u)) \<and>
        (case member_lim h of
           None \<Rightarrow> up_MaxConcurrentRequests up \<le> 0
         | Some k \<Rightarrow> k < length (hp_limiters (ht_heap t)) \<and> 0 < up_MaxConcurrentRequests up \<and>
             hp_limiters (ht_heap t) ! k = limiter_start (nat (up_MaxConcurrentRequests up))))
      (UpstreamList (provider_of cfg name)) (pp_handlers (pt_parts tree)) \<and>
    (\<forall>name' i j k. owns (ht_providers t) name i k \<and> owns (ht_providers t) name' j k \<longrightarrow> name' = name \<and> j = i)"
proof (rule CreateRouter_Inr [OF assms(1)])
  fix bd assume bd: "build_ok url_parse now cfg bd" "ht_providers t = bd_providers bd" "ht_heap t = bd_heap bd"
  have "\<forall>name' i j k. owns (ht_providers t) name i k \<and> owns (ht_providers t) name' j k \<longrightarrow> name' = name \<and> j = i"
    using bd(1) unfolding bd(2) build_ok_def by metis
  then show ?thesis using wired_members(1) [OF assms] by blast
qed

theorem members_wired_witness:
  "\<exists>t tree. CreateRouterFromConfig ex_url False True 0 ex_validated = Inr t \<and> ht_providers t ''b'' = Some tree \<and>
     length (pp_handlers (pt_parts tree)) = length (UpstreamList (provider_of ex_validated ''b''))"
proof -
  obtain t where t: "CreateRouterFromConfig ex_url False True 0 ex_validated = Inr t" "''b'' \<in> dom (ht_providers t)"
    using ex_built by blast
  then obtain tree where tree: "ht_providers t ''b'' = Some tree" by blast
  have "length (UpstreamList (provider_of ex_validated ''b'')) = length (pp_handlers (pt_parts tree))"
    by (rule list_all2_lengthD [OF conjunct1 [OF members_wired [OF t(1) tree]]])
  then show ?thesis using t(1) tree by auto
qed

end
