(* ===== verification/Gates.thy ===== *)
theory Gates
  imports Limiter Throttle Breaker ColdGate
begin

text \<open>
  What the gates of a provider have in common. \<open>gate\<close> is any of them; the locale \<open>http_gate\<close> is the contract
  of a handler that wraps another one: a request waits at it, is inside the wrapped handler, or has left; a
  gate that answers by itself writes nothing or exactly its 429 with its reason; no request notices the
  events of another. Each gate interprets the contract, and so does the type of all gates.
\<close>

section \<open>Gates as one type\<close>

text \<open>
  Where a request stands at a gate:
  before the wrapped handler, inside it, behind it with a deferred
  action left, or gone. \<open>GCounter\<close> is the wrapper of an uncapped host (\<open>hostInFlightCounter\<close>) with, for each
  of its requests, whether it is inside.
\<close>

datatype stage = AtGate | Beyond | Leaving | Away

datatype gate =
    GBreaker breaker_gate
  | GThrottle throttle
  | GCold cold_gate
  | GLimiter "nat \<Rightarrow> wrapper" limiter
  | GCounter host_limiter "bool list"

datatype gate_event =
    BrE br_event
  | ThE th_event
  | CgE cg_event
  | LimE lim_event
  | CnArrive
  | CnReturns nat

fun gate_step :: "gate \<Rightarrow> gate_event \<Rightarrow> gate option" where
  "gate_step (GBreaker s) (BrE e) = map_option GBreaker (br_step s e)"
| "gate_step (GThrottle s) (ThE e) = map_option GThrottle (th_step s e)"
| "gate_step (GCold s) (CgE e) = map_option GCold (cg_step s e)"
| "gate_step (GLimiter ws s) (LimE e) = map_option (GLimiter ws) (lim_step ws s e)"
| "gate_step (GCounter h qs) CnArrive = Some (GCounter (host_count h CountEnter) (qs @ [True]))"
| "gate_step (GCounter h qs) (CnReturns i) =
     (if i < length qs \<and> qs ! i
      then Some (GCounter (host_count h CountLeave) (qs[i := False])) else None)"
| "gate_step _ _ = None"

fun gate_size :: "gate \<Rightarrow> nat" where
  "gate_size (GBreaker s) = length (bg_reqs s)"
| "gate_size (GThrottle s) = length (th_reqs s)"
| "gate_size (GCold s) = length (gate_reqs s)"
| "gate_size (GLimiter ws s) = length (lim_reqs s)"
| "gate_size (GCounter h qs) = length qs"

fun br_stage :: "br_phase \<Rightarrow> stage" where
  "br_stage (BrForwarding probe) = Beyond"
| "br_stage BrReleasing = Leaving"
| "br_stage BrDone = Away"

fun th_stage :: "th_phase \<Rightarrow> stage" where
  "th_stage Forwarding = Beyond"
| "th_stage ForwardingPaced = Beyond"
| "th_stage Releasing = Leaving"
| "th_stage ThDone = Away"
| "th_stage _ = AtGate"

fun cg_stage :: "cg_phase \<Rightarrow> stage" where
  "cg_stage CgPlain = Beyond"
| "cg_stage (CgCold d released) = Beyond"
| "cg_stage CgDone = Away"
| "cg_stage _ = AtGate"

fun lim_stage :: "lim_phase \<Rightarrow> stage" where
  "lim_stage Running = Beyond"
| "lim_stage (Returned res) = Away"
| "lim_stage _ = AtGate"

fun gate_stage :: "gate \<Rightarrow> nat \<Rightarrow> stage" where
  "gate_stage (GBreaker s) i = br_stage (bq_phase (bg_reqs s ! i))"
| "gate_stage (GThrottle s) i = th_stage (tq_phase (th_reqs s ! i))"
| "gate_stage (GCold s) i = cg_stage (cq_phase (gate_reqs s ! i))"
| "gate_stage (GLimiter ws s) i = lim_stage (lr_phase (lim_reqs s ! i))"
| "gate_stage (GCounter h qs) i = (if qs ! i then Beyond else Away)"

text \<open>What the gate itself made of the request's response writer and rejection slot.\<close>

fun gate_view :: "gate \<Rightarrow> nat \<Rightarrow> response \<times> rejection_slot" where
  "gate_view (GBreaker s) i = bq_resp (bg_reqs s ! i)"
| "gate_view (GThrottle s) i = tq_resp (th_reqs s ! i)"
| "gate_view (GCold s) i = (sr_writer (cq_rec (gate_reqs s ! i)), cq_slot (gate_reqs s ! i))"
| "gate_view (GLimiter ws s) i = lr_resp (lim_reqs s ! i)"
| "gate_view (GCounter h qs) i = (fresh_response, Some [])"

fun gate_handed_back :: "gate \<Rightarrow> nat \<Rightarrow> bool" where
  "gate_handed_back (GLimiter ws s) i = (lr_phase (lim_reqs s ! i) = Returned HandedBack)"
| "gate_handed_back _ i = False"

text \<open>The reason a gate records when it refuses request \<open>i\<close>.\<close>

fun gate_reason :: "gate \<Rightarrow> nat \<Rightarrow> string" where
  "gate_reason (GBreaker s) i = rejectionReasonCircuitOpen"
| "gate_reason (GThrottle s) i = rejectionReasonThrottle"
| "gate_reason (GCold s) i = rejectionReasonColdStart"
| "gate_reason (GLimiter ws s) i = timeoutReason (ws (lr_wrapper (lim_reqs s ! i)))"
| "gate_reason (GCounter h qs) i = []"

text \<open>The event by which a request enters, and those by which the wrapped handler returns, panics or writes.\<close>

record gate_entry =
  en_wrapper :: nat
  en_signal :: bool
  en_session :: string
  en_length :: int
  en_gone :: bool
  en_now :: time

fun enter_event :: "gate \<Rightarrow> gate_entry \<Rightarrow> response \<times> rejection_slot \<Rightarrow> gate_event" where
  "enter_event (GBreaker s) x w = BrE (BrArrive w (en_now x))"
| "enter_event (GThrottle s) x w = ThE (ThArrive w)"
| "enter_event (GCold s) x w = CgE (CgArrive (en_session x) (en_length x) w (en_gone x) (en_now x))"
| "enter_event (GLimiter ws s) x w = LimE (Arrive (en_wrapper x) (en_signal x) w)"
| "enter_event (GCounter h qs) x w = CnArrive"

fun return_event :: "gate \<Rightarrow> nat \<Rightarrow> write_call list \<Rightarrow> time \<Rightarrow> gate_event" where
  "return_event (GBreaker s) i calls now = BrE (BrReturns i calls now)"
| "return_event (GThrottle s) i calls now = ThE (InnerReturns i calls now)"
| "return_event (GCold s) i calls now = CgE (CgReturns i now)"
| "return_event (GLimiter ws s) i calls now = LimE (HandlerReturns i)"
| "return_event (GCounter h qs) i calls now = CnReturns i"

fun panic_event :: "gate \<Rightarrow> nat \<Rightarrow> gate_event" where
  "panic_event (GBreaker s) i = BrE (BrPanics i)"
| "panic_event (GThrottle s) i = ThE (InnerPanics i)"
| "panic_event (GCold s) i = CgE (CgPanics i)"
| "panic_event (GLimiter ws s) i = LimE (HandlerReturns i)"
| "panic_event (GCounter h qs) i = CnReturns i"

fun write_event :: "gate \<Rightarrow> nat \<Rightarrow> write_call \<Rightarrow> time \<Rightarrow> gate_event option" where
  "write_event (GCold s) i c now = Some (CgE (CgWrite i c now))"
| "write_event _ i c now = None"

text \<open>The events of a gate that are its own: timers, the client leaving, deferred releases.\<close>

fun own_event :: "gate_event \<Rightarrow> nat option" where
  "own_event (BrE (BrRelease i)) = Some i"
| "own_event (ThE (PaceSlot i)) = Some i"
| "own_event (ThE (QueueTimer i)) = Some i"
| "own_event (ThE (DelayTimer i)) = Some i"
| "own_event (ThE (ThClientDone i)) = Some i"
| "own_event (ThE (ThRelease i)) = Some i"
| "own_event (CgE (CgWake i now)) = Some i"
| "own_event (CgE (CgLeave i now)) = Some i"
| "own_event (CgE (CgDeadline i gone)) = Some i"
| "own_event (CgE (CgClientDone i)) = Some i"
| "own_event (LimE (CountIn i now)) = Some i"
| "own_event (LimE (TakeSlot i now)) = Some i"
| "own_event (LimE (TimeOut i)) = Some i"
| "own_event (LimE (Stale i)) = Some i"
| "own_event (LimE (ClientDone i)) = Some i"
| "own_event (LimE (CountOut i now)) = Some i"
| "own_event _ = None"

section \<open>The contract of a gate\<close>

abbreviation untouched :: "response \<times> rejection_slot" where "untouched \<equiv> (fresh_response, Some [])"

text \<open>A gate that answers leaves the writer alone, or writes its 429; it hands back untouched requests only.\<close>

definition gate_answers :: "response \<times> rejection_slot \<Rightarrow> string \<Rightarrow> bool \<Rightarrow> bool" where
  "gate_answers v reason handed \<longleftrightarrow>
     v = untouched \<or> (\<not> handed \<and> reason \<noteq> [] \<and> (\<exists>n. v = writeRateLimited n reason untouched))"

definition waits_or_answers :: "stage \<Rightarrow> response \<times> rejection_slot \<Rightarrow> string \<Rightarrow> bool \<Rightarrow> bool" where
  "waits_or_answers st v reason handed \<longleftrightarrow>
     (st = AtGate \<longrightarrow> v = untouched) \<and> (st \<in> {Leaving, Away} \<longrightarrow> gate_answers v reason handed)"

text \<open>Requests other than \<open>i\<close> do not notice.\<close>

definition others_same :: "('s \<Rightarrow> nat) \<Rightarrow> ('s \<Rightarrow> nat \<Rightarrow> 'v) \<Rightarrow> nat \<Rightarrow> 's \<Rightarrow> 's \<Rightarrow> bool" where
  "others_same count look i s s' \<longleftrightarrow> (\<forall>j < count s. j \<noteq> i \<longrightarrow> look s' j = look s j)"

locale http_gate =
  fixes step :: "'s \<Rightarrow> 'e \<Rightarrow> 's option"
    and count :: "'s \<Rightarrow> nat"
    and stage :: "'s \<Rightarrow> nat \<Rightarrow> stage"
    and view :: "'s \<Rightarrow> nat \<Rightarrow> response \<times> rejection_slot"
    and reason :: "'s \<Rightarrow> nat \<Rightarrow> string"
    and handed :: "'s \<Rightarrow> nat \<Rightarrow> bool"
    and enter :: "'s \<Rightarrow> gate_entry \<Rightarrow> response \<times> rejection_slot \<Rightarrow> 'e"
    and returns :: "'s \<Rightarrow> nat \<Rightarrow> write_call list \<Rightarrow> time \<Rightarrow> 'e"
    and panics :: "'s \<Rightarrow> nat \<Rightarrow> 'e"
    and writes :: "'s \<Rightarrow> nat \<Rightarrow> write_call \<Rightarrow> time \<Rightarrow> 'e option"
    and own :: "'e \<Rightarrow> nat option"
    and patience :: "'s \<Rightarrow> nat \<Rightarrow> nat"
  assumes enter_law: "\<exists>s'. step s (enter s x untouched) = Some s' \<and> count s' = Suc (count s) \<and>
      others_same count (\<lambda>s j. (stage s j, view s j, reason s j)) (count s) s s' \<and>
      waits_or_answers (stage s' (count s)) (view s' (count s)) (reason s' (count s)) (handed s' (count s))"
    and own_law: "own e = Some i \<Longrightarrow> i < count s \<Longrightarrow> step s e = Some s' \<Longrightarrow>
      count s' = count s \<and> reason s' i = reason s i \<and>
      others_same count (\<lambda>s j. (stage s j, view s j, reason s j)) i s s' \<and>
      (if stage s i = AtGate
       then view s i = untouched \<longrightarrow> waits_or_answers (stage s' i) (view s' i) (reason s' i) (handed s' i)
       else stage s i = Leaving \<and> stage s' i = Away)"
    and back_law: "i < count s \<Longrightarrow> stage s i = Beyond \<Longrightarrow> e = returns s i calls now \<or> e = panics s i \<Longrightarrow>
      \<exists>s'. step s e = Some s' \<and> count s' = count s \<and> reason s' i = reason s i \<and>
        others_same count (\<lambda>s j. (stage s j, view s j, reason s j)) i s s' \<and> stage s' i \<in> {Leaving, Away}"
    and write_law: "i < count s \<Longrightarrow> stage s i = Beyond \<Longrightarrow> writes s i c now = Some e \<Longrightarrow>
      \<exists>s'. step s e = Some s' \<and> count s' = count s \<and> reason s' i = reason s i \<and>
        others_same count (\<lambda>s j. (stage s j, view s j, reason s j)) i s s' \<and> stage s' i = Beyond"
    and patience_law: "i < count s \<Longrightarrow> stage s i \<in> {AtGate, Leaving} \<Longrightarrow>
      \<exists>e s'. own e = Some i \<and> step s e = Some s' \<and> (stage s' i = AtGate \<longrightarrow> patience s' i < patience s i)"

subsection \<open>The breaker\<close>

interpretation breaker_gate: http_gate br_step "\<lambda>s. length (bg_reqs s)"
    "\<lambda>s i. br_stage (bq_phase (bg_reqs s ! i))" "\<lambda>s i. bq_resp (bg_reqs s ! i)"
    "\<lambda>s i. rejectionReasonCircuitOpen" "\<lambda>s i. False"
    "\<lambda>s x w. BrArrive w (en_now x)" "\<lambda>s i calls now. BrReturns i calls now" "\<lambda>s i. BrPanics i"
    "\<lambda>s i c now. None" "\<lambda>e. own_event (BrE e)" "\<lambda>s i. 0"
proof (standard, goal_cases)
  case (1 s x)
  show ?case
    by (cases "br_admit (en_now x) (bg_breaker s)")
       (auto simp: br_step_def br_arrive_def others_same_def nth_append waits_or_answers_def gate_answers_def
          rejectionReasonCircuitOpen_def Let_def)
next
  case (2 e i s s')
  then show ?case by (cases e) (auto simp: br_step_def bg_set_def others_same_def split: br_phase.splits)
next
  case (3 i s e calls now)
  then show ?case
    by (cases "bq_phase (bg_reqs s ! i)") (auto simp: br_step_def bg_set_def others_same_def Let_def)
next
  case (5 i s)
  then have "bq_phase (bg_reqs s ! i) = BrReleasing" by (cases "bq_phase (bg_reqs s ! i)") auto
  then show ?case using 5(1) by (intro exI [of _ "BrRelease i"]) (simp add: br_step_def bg_set_def)
qed simp

subsection \<open>The throttle gate\<close>

interpretation throttle_gate: http_gate th_step "\<lambda>s. length (th_reqs s)"
    "\<lambda>s i. th_stage (tq_phase (th_reqs s ! i))" "\<lambda>s i. tq_resp (th_reqs s ! i)"
    "\<lambda>s i. rejectionReasonThrottle" "\<lambda>s i. False"
    "\<lambda>s x w. ThArrive w" "\<lambda>s i calls now. InnerReturns i calls now" "\<lambda>s i. InnerPanics i"
    "\<lambda>s i c now. None" "\<lambda>e. own_event (ThE e)" "\<lambda>s i. 0"
proof (standard, goal_cases)
  case (1 s x)
  show ?case
    by (auto simp: th_step_def th_arrive_def others_same_def nth_append waits_or_answers_def Let_def)
next
  case (2 e i s s')
  then show ?case
    by (cases "tq_phase (th_reqs s ! i)"; cases e)
       (auto simp: th_step_def th_act_def others_same_def waits_or_answers_def gate_answers_def
          rejectionReasonThrottle_def split: if_splits)
next
  case (3 i s e calls now)
  then show ?case
    by (cases "tq_phase (th_reqs s ! i)")
       (auto simp: th_step_def th_act_def th_forward_fields others_same_def)
next
  case (5 i s)
  let ?e = "case tq_phase (th_reqs s ! i) of AwaitSlot d \<Rightarrow> QueueTimer i | Pacing d \<Rightarrow> DelayTimer i | _ \<Rightarrow> ThRelease i"
  from 5 show ?case
    by (intro exI [of _ ?e]) (auto simp: th_step_def th_act_def split: th_phase.splits)
qed simp

subsection \<open>The limiters\<close>

interpretation limiter_gate: http_gate "lim_step ws" "\<lambda>s. length (lim_reqs s)"
    "\<lambda>s i. lim_stage (lr_phase (lim_reqs s ! i))" "\<lambda>s i. lr_resp (lim_reqs s ! i)"
    "\<lambda>s i. timeoutReason (ws (lr_wrapper (lim_reqs s ! i)))"
    "\<lambda>s i. lr_phase (lim_reqs s ! i) = Returned HandedBack"
    "\<lambda>s x w. Arrive (en_wrapper x) (en_signal x) w" "\<lambda>s i calls now. HandlerReturns i" "\<lambda>s i. HandlerReturns i"
    "\<lambda>s i c now. None" "\<lambda>e. own_event (LimE e)"
    "\<lambda>s i. case lr_phase (lim_reqs s ! i) of Entering \<Rightarrow> 2 | Waiting t \<Rightarrow> 1 | _ \<Rightarrow> 0" for ws
proof (standard, goal_cases)
  case (1 s x)
  show ?case
    by (auto simp: lim_step_def lim_arrive_def others_same_def nth_append waits_or_answers_def Let_def)
next
  case (2 e i s s')
  then show ?case
    by (cases "lr_phase (lim_reqs s ! i)"; cases e)
       (auto simp: lim_step_def lim_on_def others_same_def waits_or_answers_def gate_answers_def
          finish_giving_up_fields gave_up_def timeoutReason_def rejectionReasonQueueTimeout_def Let_def split: if_splits)
next
  case (3 i s e calls now)
  then show ?case
    by (cases "lr_phase (lim_reqs s ! i)") (auto simp: lim_step_def lim_on_def others_same_def Let_def)
next
  case (5 i s)
  let ?e = "case lr_phase (lim_reqs s ! i) of Entering \<Rightarrow> CountIn i 0 | Waiting t \<Rightarrow> TimeOut i | _ \<Rightarrow> CountOut i 0"
  from 5 show ?case
    by (intro exI [of _ ?e])
       (auto simp: lim_step_def lim_on_def finish_giving_up_fields gave_up_def Let_def split: lim_phase.splits)
qed simp

subsection \<open>The cold-start gate\<close>

lemma cg_refuse_view:
  assumes "i < length (gate_reqs s)"
    and "(sr_writer (cq_rec (gate_reqs s ! i)), cq_slot (gate_reqs s ! i)) = untouched"
  shows "cq_phase (gate_reqs (cg_refuse i gone s) ! i) = CgDone"
    and "gate_answers (sr_writer (cq_rec (gate_reqs (cg_refuse i gone s) ! i)),
           cq_slot (gate_reqs (cg_refuse i gone s) ! i)) rejectionReasonColdStart False"
  using assms
  by (auto simp: cg_refuse_def cg_upd_def gate_answers_def rejectionReasonColdStart_def writeRateLimited_fresh
        Let_def split: prod.splits)

lemma cg_refuse_others:
  "length (gate_reqs (cg_refuse i gone s)) = length (gate_reqs s)"
  "j \<noteq> i \<Longrightarrow> gate_reqs (cg_refuse i gone s) ! j = gate_reqs s ! j"
  by (auto simp: cg_refuse_def cg_upd_def Let_def split: prod.splits)

lemma cg_arrive_reqs:
  assumes "s' = cg_arrive sid n untouched gone now s"
  shows "length (gate_reqs s') = Suc (length (gate_reqs s))"
    and "j < length (gate_reqs s) \<Longrightarrow> gate_reqs s' ! j = gate_reqs s ! j"
    and "waits_or_answers (cg_stage (cq_phase (gate_reqs s' ! length (gate_reqs s))))
      (sr_writer (cq_rec (gate_reqs s' ! length (gate_reqs s))), cq_slot (gate_reqs s' ! length (gate_reqs s)))
      rejectionReasonColdStart False"
proof -
  let ?req = "\<lambda>ph. \<lparr>cq_session = sid, cq_estimate = cg_estimate n, cq_phase = ph,
      cq_rec = sr_new fresh_response, cq_slot = Some []\<rparr>"
  let ?i = "length (gate_reqs s)"
  obtain g v where v: "tryAdmitLocked sid (cg_estimate n) now (cg_pruneLocked now (gate_cold s)) = (g, v)"
    by fastforce
  let ?t = "s\<lparr>gate_cold := g, gate_reqs := gate_reqs s @ [?req CgDone]\<rparr>"
  have "(\<exists>ph. cg_stage ph \<in> {AtGate, Beyond} \<and> gate_reqs s' = gate_reqs s @ [?req ph]) \<or>
      s' = cg_refuse ?i gone ?t"
    using assms v by (auto simp: cg_arrive_def cg_forward_phase_def Let_def)
  then show "length (gate_reqs s') = Suc ?i"
    and "j < ?i \<Longrightarrow> gate_reqs s' ! j = gate_reqs s ! j"
    and "waits_or_answers (cg_stage (cq_phase (gate_reqs s' ! ?i)))
      (sr_writer (cq_rec (gate_reqs s' ! ?i)), cq_slot (gate_reqs s' ! ?i)) rejectionReasonColdStart False"
    using cg_refuse_view [of ?i ?t gone]
    by (auto simp: cg_refuse_others nth_append waits_or_answers_def sr_new_def)
qed

lemma cg_wake_reqs:
  assumes "i < length (gate_reqs s)"
  shows "\<exists>ph. cg_stage ph = AtGate \<and>
    gate_reqs (cg_wake i now s) = (gate_reqs s)[i := (gate_reqs s ! i)\<lparr>cq_phase := ph\<rparr>]"
  using assms by (auto simp: cg_wake_def cg_upd_def Let_def split: prod.splits intro!: exI)

lemma cg_write_reqs:
  assumes "i < length (gate_reqs s)" "cg_stage (cq_phase (gate_reqs s ! i)) = Beyond"
  shows "length (gate_reqs (cg_write i c now s)) = length (gate_reqs s)"
    and "j \<noteq> i \<Longrightarrow> gate_reqs (cg_write i c now s) ! j = gate_reqs s ! j"
    and "cg_stage (cq_phase (gate_reqs (cg_write i c now s) ! i)) = Beyond"
  using assms
  by (auto simp: cg_write_def cg_on_delta_def cg_upd_def Let_def split: write_call.splits cg_phase.splits bool.splits)

lemma cg_finish_reqs:
  "gate_reqs (cg_finish i s) = (gate_reqs s)[i := (gate_reqs s ! i)\<lparr>cq_phase := CgDone\<rparr>]"
  "gate_reqs (cg_returns i now s) = (gate_reqs s)[i := (gate_reqs s ! i)\<lparr>cq_phase := CgDone\<rparr>]"
  by (simp_all add: cg_returns_def cg_finish_def cg_upd_def Let_def)

interpretation cold_gate: http_gate cg_step "\<lambda>s. length (gate_reqs s)"
    "\<lambda>s i. cg_stage (cq_phase (gate_reqs s ! i))"
    "\<lambda>s i. (sr_writer (cq_rec (gate_reqs s ! i)), cq_slot (gate_reqs s ! i))"
    "\<lambda>s i. rejectionReasonColdStart" "\<lambda>s i. False"
    "\<lambda>s x w. CgArrive (en_session x) (en_length x) w (en_gone x) (en_now x)"
    "\<lambda>s i calls now. CgReturns i now" "\<lambda>s i. CgPanics i"
    "\<lambda>s i c now. Some (CgWrite i c now)" "\<lambda>e. own_event (CgE e)" "\<lambda>s i. 0"
proof (standard, goal_cases)
  case (1 s x)
  show ?case
    using cg_arrive_reqs [OF refl, where sid = "en_session x" and n = "en_length x" and gone = "en_gone x"
        and now = "en_now x" and s = s]
    by (simp add: cg_step_def others_same_def)
next
  case (2 e i s s')
  note act = 2(3) [unfolded cg_step_def cg_act_def]
  show ?case
  proof (cases "cq_phase (gate_reqs s ! i)")
    case (CgWaiting v)
    show ?thesis
    proof (cases e)
      case (CgWake j now)
      with 2 act CgWaiting have "s' = cg_wake i now s" by simp
      moreover obtain ph where "cg_stage ph = AtGate"
        "gate_reqs (cg_wake i now s) = (gate_reqs s)[i := (gate_reqs s ! i)\<lparr>cq_phase := ph\<rparr>]"
        using cg_wake_reqs [OF 2(2)] by blast
      ultimately show ?thesis using 2(2) CgWaiting by (auto simp: others_same_def waits_or_answers_def)
    next
      case (CgDeadline j gone)
      with 2 act CgWaiting have "s' = cg_refuse i gone (s\<lparr>gate_queue := gate_queue s - 1\<rparr>)" by simp
      then show ?thesis
        using 2(2) CgWaiting cg_refuse_view [of i "s\<lparr>gate_queue := gate_queue s - 1\<rparr>" gone]
        by (auto simp: others_same_def waits_or_answers_def cg_refuse_others)
    next
      case (CgClientDone j)
      with 2 act CgWaiting show ?thesis
        by (auto simp: cg_upd_def others_same_def waits_or_answers_def gate_answers_def)
    qed (use 2 act CgWaiting in simp_all)
  next
    case (CgLeaving warm)
    with 2 act show ?thesis
      by (cases e) (auto simp: cg_upd_def others_same_def waits_or_answers_def gate_answers_def)
  qed (use 2 act in \<open>cases e; simp\<close>)+
next
  case (3 i s e calls now)
  then show ?case
    by (cases "cq_phase (gate_reqs s ! i)")
       (auto simp: cg_step_def cg_act_def cg_finish_reqs others_same_def)
next
  case (4 i s c now e)
  then show ?case
    using cg_write_reqs [OF 4(1,2), where c = c and now = now]
    by (cases "cq_phase (gate_reqs s ! i)") (auto simp: cg_step_def cg_act_def others_same_def)
next
  case (5 i s)
  let ?e = "case cq_phase (gate_reqs s ! i) of CgWaiting v \<Rightarrow> CgClientDone i | _ \<Rightarrow> CgLeave i 0"
  from 5 show ?case
    by (intro exI [of _ ?e])
       (auto simp: cg_step_def cg_act_def cg_upd_def cg_forward_phase_def split: cg_phase.splits)
qed

subsection \<open>All gates\<close>

text \<open>How many of its own steps a waiting request needs at most before its last one.\<close>

fun gate_patience :: "gate \<Rightarrow> nat \<Rightarrow> nat" where
  "gate_patience (GLimiter ws s) i = (case lr_phase (lim_reqs s ! i) of Entering \<Rightarrow> 2 | Waiting t \<Rightarrow> 1 | _ \<Rightarrow> 0)"
| "gate_patience _ i = 0"

lemma counter_own: "gate_step (GCounter h qs) e = Some g \<Longrightarrow> own_event e = None"
  by (cases e) auto

interpretation gates: http_gate gate_step gate_size gate_stage gate_view gate_reason gate_handed_back
    enter_event return_event panic_event write_event own_event gate_patience
proof (standard, goal_cases)
  case (1 g x)
  show ?case
  proof (cases g)
    case (GBreaker s)
    then show ?thesis using breaker_gate.enter_law [of s x] by (auto simp: others_same_def)
  next
    case (GThrottle s)
    then show ?thesis using throttle_gate.enter_law [of s] by (auto simp: others_same_def)
  next
    case (GCold s)
    then show ?thesis using cold_gate.enter_law [of s x] by (auto simp: others_same_def)
  next
    case (GLimiter ws s)
    then show ?thesis using limiter_gate.enter_law [of ws s x] by (auto simp: others_same_def)
  qed (auto simp: others_same_def nth_append waits_or_answers_def)
next
  case (2 e i g g')
  show ?case
  proof (cases g)
    case (GBreaker s)
    with 2 obtain f t where "e = BrE f" "br_step s f = Some t" "g' = GBreaker t" by (cases e) auto
    with GBreaker 2 breaker_gate.own_law [of f i s t] show ?thesis by (auto simp: others_same_def)
  next
    case (GThrottle s)
    with 2 obtain f t where "e = ThE f" "th_step s f = Some t" "g' = GThrottle t" by (cases e) auto
    with GThrottle 2 throttle_gate.own_law [of f i s t] show ?thesis by (auto simp: others_same_def)
  next
    case (GCold s)
    with 2 obtain f t where "e = CgE f" "cg_step s f = Some t" "g' = GCold t" by (cases e) auto
    with GCold 2 cold_gate.own_law [of f i s t] show ?thesis by (auto simp: others_same_def)
  next
    case (GLimiter ws s)
    with 2 obtain f t where "e = LimE f" "lim_step ws s f = Some t" "g' = GLimiter ws t" by (cases e) auto
    with GLimiter 2 limiter_gate.own_law [of f i s ws t] show ?thesis by (auto simp: others_same_def)
  next
    case (GCounter h qs)
    with 2 counter_own show ?thesis by fastforce
  qed
next
  case (3 i g e calls now)
  show ?case
  proof (cases g)
    case (GBreaker s)
    with 3 breaker_gate.back_law [of i s "BrReturns i calls now" calls now]
      breaker_gate.back_law [of i s "BrPanics i" calls now]
    show ?thesis by (auto simp: others_same_def)
  next
    case (GThrottle s)
    with 3 throttle_gate.back_law [of i s "InnerReturns i calls now" calls now]
      throttle_gate.back_law [of i s "InnerPanics i" calls now]
    show ?thesis by (auto simp: others_same_def)
  next
    case (GCold s)
    with 3 cold_gate.back_law [of i s "CgReturns i now" now] cold_gate.back_law [of i s "CgPanics i" now]
    show ?thesis by (auto simp: others_same_def)
  next
    case (GLimiter ws s)
    with 3 limiter_gate.back_law [of i s "HandlerReturns i" ws]
    show ?thesis by (auto simp: others_same_def)
  next
    case (GCounter h qs)
    with 3 show ?thesis by (auto simp: others_same_def split: if_splits)
  qed
next
  case (4 i g c now e)
  then obtain s where "g = GCold s" "e = CgE (CgWrite i c now)" by (cases g) auto
  with 4 cold_gate.write_law [of i s c now] show ?case by (auto simp: others_same_def)
next
  case (5 i g)
  show ?case
  proof (cases g)
    case (GBreaker s)
    with 5 breaker_gate.patience_law [of i s] show ?thesis by (fastforce intro: exI [of _ "BrE _"])
  next
    case (GThrottle s)
    with 5 throttle_gate.patience_law [of i s] show ?thesis by (fastforce intro: exI [of _ "ThE _"])
  next
    case (GCold s)
    with 5 cold_gate.patience_law [of i s] show ?thesis by (fastforce intro: exI [of _ "CgE _"])
  next
    case (GLimiter ws s)
    with 5 limiter_gate.patience_law [of i s ws] show ?thesis by (fastforce intro: exI [of _ "LimE _"])
  next
    case (GCounter h qs)
    with 5 show ?thesis by (auto split: if_splits)
  qed
qed

end
