(* ===== verification/Chain.thy ===== *)
theory Chain
  imports Gates UpstreamPool
begin

text \<open>
  Requests through the nested handlers of the router's providers: breaker, throttle gate and cold-start
  gate around the upstream pool (\<open>upstream-pool-handler.go\<close>), and around each member the host limiter and
  the member limiter, in the order \<open>factory.go\<close> nests them. The gates live in a heap, because host
  limiters are shared between members and providers. A request keeps the stack of the gates it is inside;
  every event is one atomic action of one request's goroutine, so a list of events is an interleaving of
  any number of requests. Each gate moves only by the step function of its own theory; that the moves of
  the nested gates fit together is shown in \<open>Nesting\<close>.
\<close>

section \<open>Requests on their way\<close>

text \<open>Who ended the way in: the upstream, gate \<open>g\<close> for its request \<open>i\<close>, or the pool itself.\<close>

datatype answerer = Upstream | Gate nat nat | Pool

datatype chain_mode = Inward | Outward answerer bool | Finished answerer bool

text \<open>
  A request: the gates still to enter, each with the number of its wrapper, and those it is inside of
  with its number there, innermost first; the member chosen by the pool; whether a member limiter handed
  it back; the slot the pool publishes its choice in; the calls made on its response writer and its
  rejection slot.
\<close>

record chain_req =
  cr_provider :: nat
  cr_session :: string
  cr_length :: int
  cr_todo :: "(nat \<times> nat) list"
  cr_stack :: "(nat \<times> nat) list"
  cr_member :: "nat option"
  cr_bounced :: bool
  cr_index :: upstream_index_slot
  cr_mode :: chain_mode
  cr_calls :: "write_call list"
  cr_slot :: rejection_slot

record 't chain_provider =
  cp_outer :: "(nat \<times> nat) list"
  cp_pool :: "'t upstream_pool"
  cp_inner :: "(nat \<times> nat) list list"

record 't chain =
  ch_gates :: "gate list"
  ch_providers :: "'t chain_provider list"
  ch_reqs :: "chain_req list"

text \<open>The calls that lead from an untouched writer to a response.\<close>

definition replay :: "response \<Rightarrow> write_call list" where
  "replay w =
     map (\<lambda>(k, v). CallSetHeader k v) (rev (rs_headers w)) @
     (case rs_status w of
        None \<Rightarrow> []
      | Some code \<Rightarrow> CallWriteHeader code # (if rs_body w = [] then [] else [CallWrite (rs_body w)]))"

definition set_creq :: "nat \<Rightarrow> chain_req \<Rightarrow> 't chain \<Rightarrow> 't chain" where
  "set_creq r q s = s\<lparr>ch_reqs := (ch_reqs s)[r := q]\<rparr>"

definition move_gate :: "nat \<Rightarrow> gate_event \<Rightarrow> gate list \<Rightarrow> gate list option" where
  "move_gate g e gs =
     (if g < length gs then map_option (\<lambda>g'. gs[g := g']) (gate_step (gs ! g) e) else None)"

text \<open>A call on the writer passes the recorders of the gates around; the cold-start gate reads it.\<close>

definition write_gate :: "time \<Rightarrow> write_call \<Rightarrow> nat \<times> nat \<Rightarrow> gate list \<Rightarrow> gate list" where
  "write_gate now c = (\<lambda>(g, i) gs.
     (case write_event (gs ! g) i c now of
        None \<Rightarrow> gs
      | Some e \<Rightarrow> (case move_gate g e gs of None \<Rightarrow> gs | Some gs' \<Rightarrow> gs')))"

definition pass_calls :: "time \<Rightarrow> write_call list \<Rightarrow> (nat \<times> nat) list \<Rightarrow> gate list \<Rightarrow> gate list" where
  "pass_calls now calls stack gs = fold (\<lambda>c. fold (write_gate now c) stack) calls gs"

definition ready :: "gate list \<Rightarrow> chain_req \<Rightarrow> bool" where
  "ready gs q \<longleftrightarrow> cr_mode q = Inward \<and>
     (case cr_stack q of [] \<Rightarrow> True | (g, i) # _ \<Rightarrow> gate_stage (gs ! g) i = Beyond)"

definition at_pool :: "gate list \<Rightarrow> chain_req \<Rightarrow> bool" where
  "at_pool gs q \<longleftrightarrow> ready gs q \<and> cr_todo q = [] \<and> cr_member q = None"

definition at_upstream :: "gate list \<Rightarrow> chain_req \<Rightarrow> bool" where
  "at_upstream gs q \<longleftrightarrow> ready gs q \<and> cr_todo q = [] \<and> cr_member q \<noteq> None"

text \<open>
  After an event at the innermost gate the request still waits there, is inside the wrapped handler, or
  was answered by the gate: then what the gate wrote is what the writer holds.
\<close>

definition settle :: "nat \<Rightarrow> time \<Rightarrow> chain_req \<Rightarrow> gate list \<Rightarrow> 't chain \<Rightarrow> 't chain" where
  "settle r now q gs s =
     (case cr_stack q of
        [] \<Rightarrow> s
      | (g, i) # rest \<Rightarrow>
          if gate_stage (gs ! g) i \<in> {AtGate, Beyond} then set_creq r q (s\<lparr>ch_gates := gs\<rparr>)
          else
            (let (w, slot) = gate_view (gs ! g) i; calls = replay w
             in set_creq r
                  (q\<lparr>cr_mode := Outward (Gate g i) False, cr_bounced := gate_handed_back (gs ! g) i,
                     cr_calls := calls, cr_slot := slot\<rparr>)
                  (s\<lparr>ch_gates := pass_calls now calls rest gs\<rparr>)))"

section \<open>Steps\<close>

datatype chain_event =
    ChArrive nat string int
  | ChEnter nat bool time
  | ChOwn nat gate_event time
  | ChSelect nat pool_world
  | ChGone nat
  | ChWrite nat write_call time
  | ChReturn nat
  | ChPanic nat
  | ChBack nat time

definition chain_arrive :: "nat \<Rightarrow> string \<Rightarrow> int \<Rightarrow> 't chain \<Rightarrow> 't chain option" where
  "chain_arrive p sid n s =
     (if \<not> p < length (ch_providers s) then None
      else Some (s\<lparr>ch_reqs := ch_reqs s @
        [\<lparr>cr_provider = p, cr_session = sid, cr_length = n, cr_todo = cp_outer (ch_providers s ! p),
          cr_stack = [], cr_member = None, cr_bounced = False,
          cr_index = \<lparr>slot_index = 0, slot_selected = False\<rparr>, cr_mode = Inward, cr_calls = [],
          cr_slot = Some []\<rparr>]\<rparr>))"

definition chain_enter :: "nat \<Rightarrow> bool \<Rightarrow> time \<Rightarrow> 't chain \<Rightarrow> 't chain option" where
  "chain_enter r gone now s =
     (let q = ch_reqs s ! r; gs = ch_gates s; pv = ch_providers s ! cr_provider q
      in if \<not> (r < length (ch_reqs s) \<and> ready gs q) then None
         else case cr_todo q of
           [] \<Rightarrow> None
         | (g, k) # rest \<Rightarrow>
             (case move_gate g (enter_event (gs ! g)
                     \<lparr>en_wrapper = k, en_signal = pool_windowed (cp_pool pv), en_session = cr_session q,
                      en_length = cr_length q, en_gone = gone, en_now = now\<rparr> (fresh_response, cr_slot q)) gs of
                None \<Rightarrow> None
              | Some gs' \<Rightarrow>
                  Some (settle r now
                    (q\<lparr>cr_todo := rest, cr_stack := (g, gate_size (gs ! g)) # cr_stack q\<rparr>) gs' s)))"

definition chain_own :: "nat \<Rightarrow> gate_event \<Rightarrow> time \<Rightarrow> 't chain \<Rightarrow> 't chain option" where
  "chain_own r e now s =
     (let q = ch_reqs s ! r
      in if \<not> r < length (ch_reqs s) then None
         else case cr_stack q of
           [] \<Rightarrow> None
         | (g, i) # rest \<Rightarrow>
             if own_event e \<noteq> Some i then None
             else (case move_gate g e (ch_gates s) of
                None \<Rightarrow> None
              | Some gs' \<Rightarrow>
                  if cr_mode q = Inward then Some (settle r now q gs' s)
                  else Some (s\<lparr>ch_gates := gs'\<rparr>)))"

text \<open>The pool chooses a member; a panic of the selection unwinds the gates around the pool.\<close>

definition chain_select :: "'t time_api \<Rightarrow> nat \<Rightarrow> pool_world \<Rightarrow> 't chain \<Rightarrow> 't chain option" where
  "chain_select api r w s =
     (let q = ch_reqs s ! r; p = cr_provider q; pv = ch_providers s ! p
      in if \<not> (r < length (ch_reqs s) \<and> at_pool (ch_gates s) q) then None
         else case selectMember api (cp_pool pv) w (cr_session q) of
           (pool, res) \<Rightarrow>
             (let s' = s\<lparr>ch_providers := (ch_providers s)[p := pv\<lparr>cp_pool := pool\<rparr>]\<rparr>;
                  panic = set_creq r (q\<lparr>cr_mode := Outward Pool True\<rparr>) s'
              in case res of
                   Inl e \<Rightarrow> Some panic
                 | Inr m \<Rightarrow>
                     (let q' = q\<lparr>cr_index := \<lparr>slot_index = m, slot_selected = True\<rparr>\<rparr>
                      in if \<not> m < length (cp_inner pv) then Some (set_creq r (q'\<lparr>cr_mode := Outward Pool True\<rparr>) s')
                         else Some (set_creq r (q'\<lparr>cr_member := Some m, cr_todo := cp_inner pv ! m\<rparr>) s'))))"

definition chain_leave :: "(gate list \<Rightarrow> chain_req \<Rightarrow> bool) \<Rightarrow> answerer \<Rightarrow> bool \<Rightarrow> nat \<Rightarrow> 't chain \<Rightarrow> 't chain option" where
  "chain_leave here who panics r s =
     (let q = ch_reqs s ! r
      in if r < length (ch_reqs s) \<and> here (ch_gates s) q
         then Some (set_creq r (q\<lparr>cr_mode := Outward who panics\<rparr>) s) else None)"

definition chain_write :: "nat \<Rightarrow> write_call \<Rightarrow> time \<Rightarrow> 't chain \<Rightarrow> 't chain option" where
  "chain_write r c now s =
     (let q = ch_reqs s ! r
      in if r < length (ch_reqs s) \<and> at_upstream (ch_gates s) q
         then Some (set_creq r (q\<lparr>cr_calls := cr_calls q @ [c]\<rparr>)
                (s\<lparr>ch_gates := pass_calls now [c] (cr_stack q) (ch_gates s)\<rparr>))
         else None)"

text \<open>
  One step of the way out: back in the pool after a hand-back, the loop selects again; a gate whose
  wrapped handler is done gets to know; a gate that is done is left.
\<close>

definition chain_back :: "nat \<Rightarrow> time \<Rightarrow> 't chain \<Rightarrow> 't chain option" where
  "chain_back r now s =
     (let q = ch_reqs s ! r; gs = ch_gates s
      in if \<not> r < length (ch_reqs s) then None
         else case cr_mode q of
           Outward who panics \<Rightarrow>
             if cr_bounced q \<and> length (cr_stack q) = length (cp_outer (ch_providers s ! cr_provider q))
             then Some (set_creq r (q\<lparr>cr_mode := Inward, cr_bounced := False, cr_member := None,
                    cr_todo := []\<rparr>) s)
             else (case cr_stack q of
                [] \<Rightarrow> Some (set_creq r (q\<lparr>cr_mode := Finished who panics\<rparr>) s)
              | (g, i) # rest \<Rightarrow>
                  if gate_stage (gs ! g) i = Beyond then
                    map_option (\<lambda>gs'. s\<lparr>ch_gates := gs'\<rparr>)
                      (move_gate g (if panics then panic_event (gs ! g) i
                                    else return_event (gs ! g) i (cr_calls q) now) gs)
                  else if gate_stage (gs ! g) i = Away then Some (set_creq r (q\<lparr>cr_stack := rest\<rparr>) s)
                  else None)
         | _ \<Rightarrow> None)"

definition chain_step :: "'t time_api \<Rightarrow> 't chain \<Rightarrow> chain_event \<Rightarrow> 't chain option" where
  "chain_step api s e =
     (case e of
        ChArrive p sid n \<Rightarrow> chain_arrive p sid n s
      | ChEnter r gone now \<Rightarrow> chain_enter r gone now s
      | ChOwn r e now \<Rightarrow> chain_own r e now s
      | ChSelect r w \<Rightarrow> chain_select api r w s
      | ChGone r \<Rightarrow> chain_leave at_pool Pool False r s
      | ChWrite r c now \<Rightarrow> chain_write r c now s
      | ChReturn r \<Rightarrow> chain_leave at_upstream Upstream False r s
      | ChPanic r \<Rightarrow> chain_leave at_upstream Upstream True r s
      | ChBack r now \<Rightarrow> chain_back r now s)"

text \<open>A refusal leaves the slot with the gate's reason and the calls of the 429.\<close>

lemma replay_refusal: "replay (fst (writeRateLimited n reason untouched)) = rate_limited_calls n"
  by (simp add: writeRateLimited_fresh replay_def rate_limited_calls_def limiter429Body_def)

lemma refusal_slot: "snd (writeRateLimited n reason untouched) = Some reason"
  by (simp add: writeRateLimited_fresh)

lemma replay_fresh [simp]: "replay fresh_response = []"
  by (simp add: replay_def fresh_response_def)

section \<open>The heap of gates\<close>

definition entered :: "gate list \<Rightarrow> nat \<times> nat \<Rightarrow> bool" where
  "entered gs = (\<lambda>(g, i). g < length gs \<and> i < gate_size (gs ! g))"

definition stage_of :: "gate list \<Rightarrow> nat \<times> nat \<Rightarrow> stage" where
  "stage_of gs = (\<lambda>(g, i). gate_stage (gs ! g) i)"

definition view_of :: "gate list \<Rightarrow> nat \<times> nat \<Rightarrow> response \<times> rejection_slot" where
  "view_of gs = (\<lambda>(g, i). gate_view (gs ! g) i)"

definition reason_of :: "gate list \<Rightarrow> nat \<times> nat \<Rightarrow> string" where
  "reason_of gs = (\<lambda>(g, i). gate_reason (gs ! g) i)"

fun is_limiter :: "gate \<Rightarrow> bool" where
  "is_limiter (GLimiter ws s) = True"
| "is_limiter _ = False"

lemma step_keeps_kind: "gate_step g e = Some g' \<Longrightarrow> is_limiter g' = is_limiter g"
  by (cases "(g, e)" rule: gate_step.cases) (auto split: if_splits)

text \<open>The heap moved, but only the requests in \<open>X\<close> notice.\<close>

definition heap_frame :: "(nat \<times> nat) set \<Rightarrow> gate list \<Rightarrow> gate list \<Rightarrow> bool" where
  "heap_frame X gs gs' \<longleftrightarrow> length gs' = length gs \<and>
     (\<forall>g < length gs. is_limiter (gs' ! g) = is_limiter (gs ! g)) \<and>
     (\<forall>x. entered gs x \<longrightarrow> entered gs' x \<and> reason_of gs' x = reason_of gs x \<and>
        (x \<notin> X \<longrightarrow> stage_of gs' x = stage_of gs x \<and> view_of gs' x = view_of gs x))"

lemma heap_frame_entered:
  "heap_frame X gs gs' \<Longrightarrow> entered gs x \<Longrightarrow> entered gs' x"
  "heap_frame X gs gs' \<Longrightarrow> entered gs x \<Longrightarrow> reason_of gs' x = reason_of gs x"
  unfolding heap_frame_def by blast+

lemma heap_frame_same:
  "heap_frame X gs gs' \<Longrightarrow> entered gs x \<Longrightarrow> x \<notin> X \<Longrightarrow> stage_of gs' x = stage_of gs x"
  "heap_frame X gs gs' \<Longrightarrow> entered gs x \<Longrightarrow> x \<notin> X \<Longrightarrow> view_of gs' x = view_of gs x"
  unfolding heap_frame_def by blast+

lemma heap_frame_refl [simp]: "heap_frame X gs gs"
  by (simp add: heap_frame_def)

lemma heap_frame_trans: "heap_frame X gs gs' \<Longrightarrow> heap_frame X gs' gs'' \<Longrightarrow> heap_frame X gs gs''"
  unfolding heap_frame_def by auto

lemma heap_frame_mono: "heap_frame X gs gs' \<Longrightarrow> X \<subseteq> Y \<Longrightarrow> heap_frame Y gs gs'"
  unfolding heap_frame_def by blast

lemma heap_frame_step:
  assumes "g < length gs" "gate_step (gs ! g) e = Some g'" "gate_size (gs ! g) \<le> gate_size g'"
    and "others_same gate_size (\<lambda>s j. (gate_stage s j, gate_view s j, gate_reason s j)) i (gs ! g) g'"
    and "i < gate_size (gs ! g) \<Longrightarrow> gate_reason g' i = gate_reason (gs ! g) i"
  shows "move_gate g e gs = Some (gs[g := g'])" and "heap_frame {(g, i)} gs (gs[g := g'])"
proof -
  show "move_gate g e gs = Some (gs[g := g'])" using assms(1,2) by (simp add: move_gate_def)
  show "heap_frame {(g, i)} gs (gs[g := g'])"
    using assms step_keeps_kind [OF assms(2)]
    by (auto simp: heap_frame_def entered_def stage_of_def view_of_def reason_of_def others_same_def
          nth_list_update)
qed

lemma enter_heap:
  assumes "g < length gs"
  obtains gs' where "move_gate g (enter_event (gs ! g) x untouched) gs = Some gs'"
    "heap_frame {} gs gs'" "entered gs' (g, gate_size (gs ! g))"
    "waits_or_answers (stage_of gs' (g, gate_size (gs ! g))) (view_of gs' (g, gate_size (gs ! g)))
       (reason_of gs' (g, gate_size (gs ! g))) (gate_handed_back (gs' ! g) (gate_size (gs ! g)))"
proof -
  obtain g' where g': "gate_step (gs ! g) (enter_event (gs ! g) x untouched) = Some g'"
    "gate_size g' = Suc (gate_size (gs ! g))"
    "others_same gate_size (\<lambda>s j. (gate_stage s j, gate_view s j, gate_reason s j)) (gate_size (gs ! g)) (gs ! g) g'"
    "waits_or_answers (gate_stage g' (gate_size (gs ! g))) (gate_view g' (gate_size (gs ! g)))
       (gate_reason g' (gate_size (gs ! g))) (gate_handed_back g' (gate_size (gs ! g)))"
    using gates.enter_law [of "gs ! g" x] by blast
  note f = heap_frame_step [OF assms g'(1) _ g'(3)]
  have "heap_frame {} gs (gs[g := g'])"
    using f(2) g'(2) by (auto simp: heap_frame_def entered_def)
  then show thesis
    using that [of "gs[g := g']"] f(1) g' assms
    by (simp add: entered_def stage_of_def view_of_def reason_of_def)
qed

lemma own_heap:
  assumes "entered gs (g, i)" "own_event e = Some i" "move_gate g e gs = Some gs'"
  shows "heap_frame {(g, i)} gs gs'"
    and "if stage_of gs (g, i) = AtGate
      then view_of gs (g, i) = untouched \<longrightarrow> waits_or_answers (stage_of gs' (g, i)) (view_of gs' (g, i))
        (reason_of gs' (g, i)) (gate_handed_back (gs' ! g) i)
      else stage_of gs (g, i) = Leaving \<and> stage_of gs' (g, i) = Away"
proof -
  from assms(1,3) obtain g' where g': "g < length gs" "i < gate_size (gs ! g)"
    "gate_step (gs ! g) e = Some g'" "gs' = gs[g := g']"
    by (auto simp: move_gate_def entered_def split: if_splits)
  note law = gates.own_law [OF assms(2) g'(2,3)]
  from heap_frame_step(2) [OF g'(1,3)] law show "heap_frame {(g, i)} gs gs'" by (auto simp: g'(4))
  from law g'(1) show "if stage_of gs (g, i) = AtGate
      then view_of gs (g, i) = untouched \<longrightarrow> waits_or_answers (stage_of gs' (g, i)) (view_of gs' (g, i))
        (reason_of gs' (g, i)) (gate_handed_back (gs' ! g) i)
      else stage_of gs (g, i) = Leaving \<and> stage_of gs' (g, i) = Away"
    by (auto simp: stage_of_def view_of_def reason_of_def g'(4))
qed

lemma back_heap:
  assumes "entered gs (g, i)" "stage_of gs (g, i) = Beyond"
    and "e = return_event (gs ! g) i calls now \<or> e = panic_event (gs ! g) i"
  obtains gs' where "move_gate g e gs = Some gs'" "heap_frame {(g, i)} gs gs'"
    "stage_of gs' (g, i) \<in> {Leaving, Away}"
proof -
  from assms(1) have i: "g < length gs" "i < gate_size (gs ! g)" by (simp_all add: entered_def)
  obtain g' where g': "gate_step (gs ! g) e = Some g'" "gate_size g' = gate_size (gs ! g)"
    "gate_reason g' i = gate_reason (gs ! g) i"
    "others_same gate_size (\<lambda>s j. (gate_stage s j, gate_view s j, gate_reason s j)) i (gs ! g) g'"
    "gate_stage g' i \<in> {Leaving, Away}"
    using gates.back_law [OF i(2) _ assms(3)] assms(2) by (auto simp: stage_of_def)
  with heap_frame_step [OF i(1) g'(1) _ g'(4)] i that [of "gs[g := g']"] show thesis
    by (simp add: stage_of_def)
qed

lemma write_heap:
  assumes "entered gs x" "stage_of gs x = Beyond"
  shows "heap_frame {x} gs (write_gate now c x gs)" and "stage_of (write_gate now c x gs) x = Beyond"
proof -
  obtain g i where x: "x = (g, i)" by (cases x)
  from assms(1) have i: "g < length gs" "i < gate_size (gs ! g)" by (simp_all add: entered_def x)
  have "heap_frame {x} gs (write_gate now c x gs) \<and> stage_of (write_gate now c x gs) x = Beyond"
  proof (cases "write_event (gs ! g) i c now")
    case (Some e)
    obtain g' where g': "gate_step (gs ! g) e = Some g'" "gate_size g' = gate_size (gs ! g)"
      "gate_reason g' i = gate_reason (gs ! g) i"
      "others_same gate_size (\<lambda>s j. (gate_stage s j, gate_view s j, gate_reason s j)) i (gs ! g) g'"
      "gate_stage g' i = Beyond"
      using gates.write_law [OF i(2) _ Some] assms(2) by (auto simp: stage_of_def x)
    with heap_frame_step [OF i(1) g'(1) _ g'(4)] i Some show ?thesis
      by (simp add: write_gate_def stage_of_def x)
  qed (use assms x in \<open>simp add: write_gate_def\<close>)
  then show "heap_frame {x} gs (write_gate now c x gs)" and "stage_of (write_gate now c x gs) x = Beyond"
    by simp_all
qed

lemma write_stack_heap:
  "\<forall>x \<in> set stack. entered gs x \<and> stage_of gs x = Beyond \<Longrightarrow>
   heap_frame (set stack) gs (fold (write_gate now c) stack gs) \<and>
   (\<forall>x \<in> set stack. stage_of (fold (write_gate now c) stack gs) x = Beyond)"
proof (induction stack arbitrary: gs)
  case (Cons x stack)
  let ?gs = "write_gate now c x gs"
  have x: "heap_frame {x} gs ?gs" "stage_of ?gs x = Beyond" "entered gs x"
    using Cons.prems write_heap [of gs x] by simp_all
  then have "\<forall>y \<in> set stack. entered ?gs y \<and> stage_of ?gs y = Beyond"
    using Cons.prems heap_frame_entered(1) [OF x(1)] heap_frame_same(1) [OF x(1)]
    by (metis empty_iff insert_iff list.set_intros(2))
  from Cons.IH [OF this]
  have IH: "heap_frame (set stack) ?gs (fold (write_gate now c) stack ?gs)"
    "\<forall>y \<in> set stack. stage_of (fold (write_gate now c) stack ?gs) y = Beyond" by simp_all
  have "heap_frame (set (x # stack)) gs (fold (write_gate now c) stack ?gs)"
    by (rule heap_frame_trans [OF heap_frame_mono [OF x(1)] heap_frame_mono [OF IH(1)]]) auto
  moreover have "stage_of (fold (write_gate now c) stack ?gs) x = Beyond"
    using IH x heap_frame_same(1) [OF IH(1)] heap_frame_entered(1) [OF x(1,3)]
    by (cases "x \<in> set stack") simp_all
  ultimately show ?case using IH(2) by simp
qed simp

lemma pass_calls_heap:
  "\<forall>x \<in> set stack. entered gs x \<and> stage_of gs x = Beyond \<Longrightarrow>
   heap_frame (set stack) gs (pass_calls now calls stack gs) \<and>
   (\<forall>x \<in> set stack. stage_of (pass_calls now calls stack gs) x = Beyond)"
proof (induction calls arbitrary: gs)
  case (Cons c calls)
  let ?gs = "fold (write_gate now c) stack gs"
  have f: "heap_frame (set stack) gs ?gs" "\<forall>x \<in> set stack. stage_of ?gs x = Beyond"
    using write_stack_heap [OF Cons.prems] by simp_all
  moreover have "\<forall>x \<in> set stack. entered ?gs x"
    using heap_frame_entered(1) [OF f(1)] Cons.prems by blast
  ultimately show ?case
    using Cons.IH [of ?gs] heap_frame_trans [OF f(1)] by (auto simp: pass_calls_def)
qed (simp add: pass_calls_def)

section \<open>Invariant of the requests\<close>

text \<open>The gates of a request's way: those around the pool, then those of the chosen member.\<close>

definition way :: "'t chain_provider \<Rightarrow> nat option \<Rightarrow> nat list" where
  "way pv m = map fst (cp_outer pv) @ (case m of None \<Rightarrow> [] | Some j \<Rightarrow> map fst (cp_inner pv ! j))"

definition published :: "chain_req \<Rightarrow> bool" where
  "published q \<longleftrightarrow> (\<forall>m. cr_member q = Some m \<longrightarrow> cr_index q = \<lparr>slot_index = m, slot_selected = True\<rparr>)"

lemma published_update [simp]:
  "published (q\<lparr>cr_todo := todo\<rparr>) = published q" "published (q\<lparr>cr_stack := stack\<rparr>) = published q"
  "published (q\<lparr>cr_mode := mode\<rparr>) = published q" "published (q\<lparr>cr_calls := calls\<rparr>) = published q"
  "published (q\<lparr>cr_slot := slot\<rparr>) = published q" "published (q\<lparr>cr_bounced := b\<rparr>) = published q"
  "published (q\<lparr>cr_member := None\<rparr>)"
  "published (q\<lparr>cr_index := \<lparr>slot_index = m, slot_selected = True\<rparr>, cr_member := Some m\<rparr>)"
  by (simp_all add: published_def)

definition answer_ok :: "gate list \<Rightarrow> chain_req \<Rightarrow> answerer \<Rightarrow> bool" where
  "answer_ok gs q who =
     (case who of
        Upstream \<Rightarrow> cr_slot q = Some [] \<and> cr_member q \<noteq> None \<and> published q
      | Pool \<Rightarrow> cr_slot q = Some [] \<and> cr_calls q = []
      | Gate g i \<Rightarrow> entered gs (g, i) \<and>
          (cr_calls q = [] \<and> cr_slot q = Some [] \<or>
           reason_of gs (g, i) \<noteq> [] \<and>
           (\<exists>n. cr_calls q = rate_limited_calls n) \<and> cr_slot q = Some (reason_of gs (g, i))))"

definition inward_ok :: "gate list \<Rightarrow> 't chain_provider \<Rightarrow> chain_req \<Rightarrow> bool" where
  "inward_ok gs pv q \<longleftrightarrow>
     map fst (rev (cr_stack q)) @ map fst (cr_todo q) = way pv (cr_member q) \<and>
     \<not> cr_bounced q \<and> cr_slot q = Some [] \<and> published q \<and>
     (cr_calls q = [] \<or> cr_todo q = [] \<and> cr_member q \<noteq> None) \<and>
     (case cr_stack q of
        [] \<Rightarrow> True
      | x # _ \<Rightarrow> stage_of gs x = AtGate \<and> view_of gs x = untouched \<and> cr_calls q = [] \<or> stage_of gs x = Beyond)"

definition outward_ok :: "gate list \<Rightarrow> 't chain_provider \<Rightarrow> chain_req \<Rightarrow> answerer \<Rightarrow> bool" where
  "outward_ok gs pv q who \<longleftrightarrow>
     (\<exists>rest. map fst (rev (cr_stack q)) @ rest = way pv (cr_member q)) \<and> answer_ok gs q who \<and>
     (cr_stack q \<noteq> [] \<longrightarrow> stage_of gs (hd (cr_stack q)) \<noteq> AtGate) \<and>
     (cr_bounced q \<longrightarrow> cr_calls q = [] \<and> cr_slot q = Some [] \<and>
        length (cp_outer pv) \<le> length (cr_stack q) \<and>
        (length (cr_stack q) = length (cp_outer pv) \<longrightarrow> cr_stack q \<noteq> [] \<longrightarrow>
           stage_of gs (hd (cr_stack q)) = Beyond))"

definition req_ok :: "gate list \<Rightarrow> 't chain_provider \<Rightarrow> chain_req \<Rightarrow> bool" where
  "req_ok gs pv q \<longleftrightarrow>
     distinct (cr_stack q) \<and> (\<forall>x \<in> set (cr_stack q). entered gs x) \<and>
     (\<forall>x \<in> set (tl (cr_stack q)). stage_of gs x = Beyond) \<and>
     (case cr_mode q of
        Inward \<Rightarrow> inward_ok gs pv q
      | Outward who p \<Rightarrow> outward_ok gs pv q who
      | Finished who p \<Rightarrow> cr_stack q = [] \<and> answer_ok gs q who)"

definition provider_ok :: "gate list \<Rightarrow> 't chain_provider \<Rightarrow> bool" where
  "provider_ok gs pv \<longleftrightarrow>
     (\<forall>(g, k) \<in> set (cp_outer pv). g < length gs \<and> \<not> is_limiter (gs ! g)) \<and>
     (\<forall>gates \<in> set (cp_inner pv). \<forall>(g, k) \<in> set gates. g < length gs)"

definition chain_ok :: "'t chain \<Rightarrow> bool" where
  "chain_ok s \<longleftrightarrow>
     (\<forall>pv \<in> set (ch_providers s). provider_ok (ch_gates s) pv) \<and>
     (\<forall>q \<in> set (ch_reqs s). cr_provider q < length (ch_providers s) \<and>
        (\<forall>j. cr_member q = Some j \<longrightarrow> j < length (cp_inner (ch_providers s ! cr_provider q))) \<and>
        req_ok (ch_gates s) (ch_providers s ! cr_provider q) q) \<and>
     (\<forall>r < length (ch_reqs s). \<forall>r' < length (ch_reqs s).
        r \<noteq> r' \<longrightarrow> set (cr_stack (ch_reqs s ! r)) \<inter> set (cr_stack (ch_reqs s ! r')) = {})"

text \<open>A request does not notice a move of the heap that leaves its own entries alone.\<close>

lemma req_ok_frame:
  assumes "heap_frame X gs gs'" "X \<inter> set (cr_stack q) = {}" "req_ok gs pv q"
  shows "req_ok gs' pv q"
proof -
  have ent: "entered gs x" if "x \<in> set (cr_stack q)" for x using assms(3) that by (simp add: req_ok_def)
  have same: "stage_of gs' x = stage_of gs x \<and> view_of gs' x = view_of gs x" if "x \<in> set (cr_stack q)" for x
    using heap_frame_same [OF assms(1) ent [OF that]] assms(2) that by blast
  have ans: "answer_ok gs q who \<Longrightarrow> answer_ok gs' q who" for who
    using heap_frame_entered [OF assms(1)] by (auto simp: answer_ok_def split: answerer.splits)
  have tl: "x \<in> set (tl (cr_stack q)) \<Longrightarrow> x \<in> set (cr_stack q)" for x by (rule list.set_sel(2)) auto
  have inw: "inward_ok gs pv q \<Longrightarrow> inward_ok gs' pv q"
    using same by (auto simp: inward_ok_def split: list.splits)
  have outw: "outward_ok gs pv q who \<Longrightarrow> outward_ok gs' pv q who" for who
    using same ans by (auto simp: outward_ok_def)
  have mode: "case cr_mode q of Inward \<Rightarrow> inward_ok gs' pv q | Outward who p \<Rightarrow> outward_ok gs' pv q who
      | Finished who p \<Rightarrow> cr_stack q = [] \<and> answer_ok gs' q who"
    using assms(3) inw outw ans by (auto simp: req_ok_def split: chain_mode.splits)
  moreover have "\<forall>x \<in> set (tl (cr_stack q)). stage_of gs' x = Beyond"
    using assms(3) same tl by (auto simp: req_ok_def)
  moreover have "\<forall>x \<in> set (cr_stack q). entered gs' x" using heap_frame_entered(1) [OF assms(1)] ent by blast
  ultimately show ?thesis using assms(3) by (simp add: req_ok_def)
qed

lemma provider_ok_frame: "heap_frame X gs gs' \<Longrightarrow> provider_ok gs pv \<Longrightarrow> provider_ok gs' pv"
  by (fastforce simp: provider_ok_def heap_frame_def)

text \<open>One request moves: only it and its own entries in the gates have to be checked.\<close>

lemma chain_ok_update:
  assumes "chain_ok s" "r < length (ch_reqs s)" "q = ch_reqs s ! r" "pv = ch_providers s ! cr_provider q"
    and "heap_frame X (ch_gates s) gs'" "X \<subseteq> set (cr_stack q)"
    and "set (cr_stack q') \<subseteq> set (cr_stack q) \<union> {x. \<not> entered (ch_gates s) x}"
    and "cr_provider q' = cr_provider q" "\<And>j. cr_member q' = Some j \<Longrightarrow> j < length (cp_inner pv)"
    and "req_ok gs' pv q'"
  shows "chain_ok (set_creq r q' (s\<lparr>ch_gates := gs'\<rparr>))"
proof -
  let ?s = "set_creq r q' (s\<lparr>ch_gates := gs'\<rparr>)"
  have [simp]: "ch_gates ?s = gs'" "ch_providers ?s = ch_providers s" "ch_reqs ?s = (ch_reqs s)[r := q']"
    by (simp_all add: set_creq_def)
  have other: "X \<inter> set (cr_stack (ch_reqs s ! j)) = {}" if "j < length (ch_reqs s)" "j \<noteq> r" for j
    using assms(1,2,3,6) that by (fastforce simp: chain_ok_def)
  have req: "cr_provider p < length (ch_providers s) \<and>
      (\<forall>j. cr_member p = Some j \<longrightarrow> j < length (cp_inner (ch_providers s ! cr_provider p))) \<and>
      req_ok gs' (ch_providers s ! cr_provider p) p" if "p = (ch_reqs s)[r := q'] ! j" "j < length (ch_reqs s)" for p j
  proof (cases "j = r")
    case True
    then show ?thesis using assms(1-4,8-10) that by (auto simp: chain_ok_def)
  next
    case False
    then have "p = ch_reqs s ! j" "p \<in> set (ch_reqs s)" using that by simp_all
    then show ?thesis using req_ok_frame [OF assms(5) other [OF that(2) False]] assms(1)
      by (auto simp: chain_ok_def)
  qed
  have disj: "set (cr_stack ((ch_reqs s)[r := q'] ! j)) \<inter> set (cr_stack ((ch_reqs s)[r := q'] ! k)) = {}"
    if "j < length (ch_reqs s)" "k < length (ch_reqs s)" "j \<noteq> k" for j k
  proof -
    have "set (cr_stack q') \<inter> set (cr_stack (ch_reqs s ! m)) = {}" if "m < length (ch_reqs s)" "m \<noteq> r" for m
    proof -
      have "\<forall>x \<in> set (cr_stack (ch_reqs s ! m)). entered (ch_gates s) x"
        using assms(1) that by (auto simp: chain_ok_def req_ok_def)
      moreover have "set (cr_stack q) \<inter> set (cr_stack (ch_reqs s ! m)) = {}"
        using assms(1,2,3) that by (auto simp: chain_ok_def)
      ultimately show ?thesis using assms(7) by blast
    qed
    moreover have "set (cr_stack (ch_reqs s ! j)) \<inter> set (cr_stack (ch_reqs s ! k)) = {}"
      using assms(1) that by (simp add: chain_ok_def)
    ultimately show ?thesis
      using that by (cases "j = r"; cases "k = r") (simp_all add: Int_commute)
  qed
  show ?thesis
    unfolding chain_ok_def
  proof (intro conjI)
    show "\<forall>pv \<in> set (ch_providers ?s). provider_ok (ch_gates ?s) pv"
      using assms(1) provider_ok_frame [OF assms(5)] by (auto simp: chain_ok_def)
    show "\<forall>q \<in> set (ch_reqs ?s). cr_provider q < length (ch_providers ?s) \<and>
        (\<forall>j. cr_member q = Some j \<longrightarrow> j < length (cp_inner (ch_providers ?s ! cr_provider q))) \<and>
        req_ok (ch_gates ?s) (ch_providers ?s ! cr_provider q) q"
      using req by (metis \<open>ch_gates ?s = gs'\<close> \<open>ch_providers ?s = ch_providers s\<close>
          \<open>ch_reqs ?s = (ch_reqs s)[r := q']\<close> in_set_conv_nth length_list_update)
    show "\<forall>r < length (ch_reqs ?s). \<forall>r' < length (ch_reqs ?s).
        r \<noteq> r' \<longrightarrow> set (cr_stack (ch_reqs ?s ! r)) \<inter> set (cr_stack (ch_reqs ?s ! r')) = {}"
      using disj by simp
  qed
qed

lemma chain_reqD:
  assumes "chain_ok s" "r < length (ch_reqs s)"
  shows "cr_provider (ch_reqs s ! r) < length (ch_providers s)"
    and "provider_ok (ch_gates s) (ch_providers s ! cr_provider (ch_reqs s ! r))"
    and "req_ok (ch_gates s) (ch_providers s ! cr_provider (ch_reqs s ! r)) (ch_reqs s ! r)"
    and "cr_member (ch_reqs s ! r) = Some j \<Longrightarrow>
      j < length (cp_inner (ch_providers s ! cr_provider (ch_reqs s ! r)))"
  using assms by (auto simp: chain_ok_def)

lemma ready_iff:
  "ready gs q \<longleftrightarrow> cr_mode q = Inward \<and> (cr_stack q = [] \<or> stage_of gs (hd (cr_stack q)) = Beyond)"
  by (auto simp: ready_def stage_of_def split: list.splits)

lemma way_in_range:
  assumes "provider_ok gs pv" "\<And>j. m = Some j \<Longrightarrow> j < length (cp_inner pv)" "g \<in> set (way pv m)"
  shows "g < length gs"
  using assms by (fastforce simp: way_def provider_ok_def split: option.splits dest: nth_mem)

text \<open>Only limiters hand back, and they stand around the members.\<close>

lemma handed_back_inner:
  assumes "provider_ok gs pv" "gate_handed_back (gs ! g) i"
    and "map fst (rev stack) @ todo = way pv m" "stack = (g, i) # rest"
  shows "length (cp_outer pv) < length stack"
proof (rule ccontr)
  assume "\<not> length (cp_outer pv) < length stack"
  moreover have "map fst (rev stack) = take (length stack) (way pv m)"
    using arg_cong [OF assms(3), of "take (length stack)"] by simp
  ultimately have "map fst (rev stack) = take (length stack) (map fst (cp_outer pv))"
    by (simp add: way_def)
  then have "g \<in> set (take (length stack) (map fst (cp_outer pv)))"
    by (metis fst_conv image_eqI list.set_intros(1) list.set_map assms(4) set_rev)
  then have "g \<in> fst ` set (cp_outer pv)" by (metis in_set_takeD list.set_map)
  then have "\<not> is_limiter (gs ! g)" using assms(1) by (fastforce simp: provider_ok_def)
  with assms(2) show False by (cases "gs ! g") auto
qed

lemma answer_calls:
  assumes "gate_answers (w, slot) reason handed"
  shows "replay w = [] \<and> slot = Some [] \<or>
    \<not> handed \<and> reason \<noteq> [] \<and> (\<exists>n. replay w = rate_limited_calls n) \<and> slot = Some reason"
proof -
  have "replay w = rate_limited_calls n \<and> slot = Some reason"
    if "(w, slot) = writeRateLimited n reason untouched" for n
    using arg_cong [OF that, of fst] arg_cong [OF that, of snd]
    by (simp add: replay_refusal refusal_slot)
  with assms show ?thesis by (auto simp: gate_answers_def)
qed

text \<open>After an event at the innermost gate.\<close>

lemma settle_ok:
  assumes ok: "chain_ok s" "r < length (ch_reqs s)"
    and q: "cr_stack q = (g, i) # rest" "cr_mode q = Inward" "cr_slot q = Some []" "cr_calls q = []"
      "\<not> cr_bounced q" "cr_provider q = cr_provider (ch_reqs s ! r)" "cr_member q = cr_member (ch_reqs s ! r)"
      "map fst (rev (cr_stack q)) @ map fst (cr_todo q) = way (ch_providers s ! cr_provider q) (cr_member q)"
      "distinct (cr_stack q)" "\<forall>x \<in> set rest. entered (ch_gates s) x \<and> stage_of (ch_gates s) x = Beyond"
      "published q"
    and heap: "heap_frame X (ch_gates s) gs" "X \<subseteq> set (cr_stack (ch_reqs s ! r)) \<inter> {(g, i)}"
      "set (cr_stack q) \<subseteq> set (cr_stack (ch_reqs s ! r)) \<union> {x. \<not> entered (ch_gates s) x}"
      "set rest \<subseteq> set (cr_stack (ch_reqs s ! r))"
      "entered gs (g, i)"
      "waits_or_answers (stage_of gs (g, i)) (view_of gs (g, i)) (reason_of gs (g, i)) (gate_handed_back (gs ! g) i)"
  shows "chain_ok (settle r now q gs s)"
proof -
  let ?pv = "ch_providers s ! cr_provider q"
  have mem: "\<And>j. cr_member q = Some j \<Longrightarrow> j < length (cp_inner ?pv)"
    using chain_reqD(4) [OF ok] q(6,7) by simp
  have notin: "(g, i) \<notin> set rest" using q(1,9) by simp
  have rest: "entered gs x \<and> stage_of gs x = Beyond" if "x \<in> set rest" for x
  proof -
    have x: "entered (ch_gates s) x" "stage_of (ch_gates s) x = Beyond" "x \<noteq> (g, i)"
      using q(10) notin that by auto
    then have "x \<notin> X" using heap(2) by blast
    with x heap_frame_entered(1) [OF heap(1) x(1)] heap_frame_same(1) [OF heap(1) x(1)] show ?thesis by simp
  qed
  have pv: "?pv = ch_providers s ! cr_provider (ch_reqs s ! r)" using q(6) by simp
  show ?thesis
  proof (cases "stage_of gs (g, i) \<in> {AtGate, Beyond}")
    case True
    then have "settle r now q gs s = set_creq r q (s\<lparr>ch_gates := gs\<rparr>)"
      using q(1) by (simp add: settle_def stage_of_def)
    moreover have "req_ok gs ?pv q"
      using q rest heap(5,6) True by (auto simp: req_ok_def inward_ok_def waits_or_answers_def)
    ultimately show ?thesis
      using chain_ok_update [OF ok refl refl heap(1) _ heap(3) q(6)] mem heap(2) pv by auto
  next
    case False
    obtain w slot where v: "view_of gs (g, i) = (w, slot)" by fastforce
    let ?gs = "pass_calls now (replay w) rest gs"
    let ?q = "q\<lparr>cr_mode := Outward (Gate g i) False, cr_bounced := gate_handed_back (gs ! g) i,
      cr_calls := replay w, cr_slot := slot\<rparr>"
    have s': "settle r now q gs s = set_creq r ?q (s\<lparr>ch_gates := ?gs\<rparr>)"
      using q(1) False v by (simp add: settle_def stage_of_def view_of_def Let_def)
    have pass: "heap_frame (set rest) gs ?gs" "\<forall>x \<in> set rest. stage_of ?gs x = Beyond"
      using pass_calls_heap [of rest gs now "replay w"] rest by blast+
    have frame: "heap_frame (X \<union> set rest) (ch_gates s) ?gs"
      by (rule heap_frame_trans [OF heap_frame_mono [OF heap(1)] heap_frame_mono [OF pass(1)]]) auto
    have st: "stage_of gs (g, i) \<in> {Leaving, Away}" using False by (cases "stage_of gs (g, i)") auto
    then have calls: "replay w = [] \<and> slot = Some [] \<or> \<not> gate_handed_back (gs ! g) i \<and>
        reason_of gs (g, i) \<noteq> [] \<and> (\<exists>n. replay w = rate_limited_calls n) \<and> slot = Some (reason_of gs (g, i))"
      using heap(6) v by (intro answer_calls) (simp add: waits_or_answers_def)
    have top: "entered ?gs (g, i)" "reason_of ?gs (g, i) = reason_of gs (g, i)"
      "stage_of ?gs (g, i) = stage_of gs (g, i)"
      using heap_frame_entered [OF pass(1) heap(5)] heap_frame_same(1) [OF pass(1) heap(5) notin] by simp_all
    have outer: "length (cp_outer ?pv) < length (cr_stack q)" if "gate_handed_back (gs ! g) i"
      using handed_back_inner [OF provider_ok_frame [OF heap(1)] that q(8,1)] chain_reqD(2) [OF ok] pv by simp
    have "answer_ok ?gs ?q (Gate g i)" using calls top by (auto simp: answer_ok_def)
    moreover have "\<exists>todo. map fst (rev (cr_stack q)) @ todo = way ?pv (cr_member q)" using q(8) by blast
    ultimately have "outward_ok ?gs ?pv ?q (Gate g i)"
      using calls outer top(3) st q(1) by (auto simp: outward_ok_def)
    then have "req_ok ?gs ?pv ?q"
      using q(1,9) rest pass(2) top(1) heap_frame_entered(1) [OF pass(1)] by (auto simp: req_ok_def)
    then show ?thesis
      unfolding s'
      using chain_ok_update [OF ok refl refl frame, of ?q] heap(2,3,4) q(6) mem pv by auto
  qed
qed

subsection \<open>Every step keeps it\<close>

lemma chain_arrive_ok:
  assumes "chain_ok s" "chain_arrive p sid n s = Some s'"
  shows "chain_ok s'"
proof -
  let ?q = "\<lparr>cr_provider = p, cr_session = sid, cr_length = n, cr_todo = cp_outer (ch_providers s ! p),
    cr_stack = [], cr_member = None, cr_bounced = False, cr_index = \<lparr>slot_index = 0, slot_selected = False\<rparr>,
    cr_mode = Inward, cr_calls = [], cr_slot = Some []\<rparr>"
  have s': "s' = s\<lparr>ch_reqs := ch_reqs s @ [?q]\<rparr>" and p: "p < length (ch_providers s)"
    using assms(2) by (simp_all add: chain_arrive_def split: if_splits)
  have "req_ok gs (ch_providers s ! p) ?q" for gs
    by (simp add: req_ok_def inward_ok_def way_def published_def)
  then show ?thesis using assms(1) p unfolding s' by (auto simp: chain_ok_def nth_append)
qed

lemma ready_stack:
  assumes "chain_ok s" "r < length (ch_reqs s)" "ready (ch_gates s) (ch_reqs s ! r)"
  shows "\<forall>x \<in> set (cr_stack (ch_reqs s ! r)). entered (ch_gates s) x \<and> stage_of (ch_gates s) x = Beyond"
    and "inward_ok (ch_gates s) (ch_providers s ! cr_provider (ch_reqs s ! r)) (ch_reqs s ! r)"
    and "distinct (cr_stack (ch_reqs s ! r))" "cr_mode (ch_reqs s ! r) = Inward"
  using chain_reqD(3) [OF assms(1,2)] assms(3)
  by (cases "cr_stack (ch_reqs s ! r)"; auto simp: req_ok_def ready_iff)+

text \<open>Entering the next gate always succeeds, and is followed by a settled request.\<close>

lemma chain_enter_settles:
  assumes ok: "chain_ok s" and r: "r < length (ch_reqs s)" "ready (ch_gates s) (ch_reqs s ! r)"
    and todo: "cr_todo (ch_reqs s ! r) = (g, k) # rest"
  obtains gs' where
    "chain_enter r gone now s = Some (settle r now ((ch_reqs s ! r)\<lparr>cr_todo := rest,
       cr_stack := (g, gate_size (ch_gates s ! g)) # cr_stack (ch_reqs s ! r)\<rparr>) gs' s)"
    "heap_frame {} (ch_gates s) gs'" "entered gs' (g, gate_size (ch_gates s ! g))"
    "waits_or_answers (stage_of gs' (g, gate_size (ch_gates s ! g))) (view_of gs' (g, gate_size (ch_gates s ! g)))
       (reason_of gs' (g, gate_size (ch_gates s ! g))) (gate_handed_back (gs' ! g) (gate_size (ch_gates s ! g)))"
proof -
  let ?q = "ch_reqs s ! r" and ?gs = "ch_gates s"
  let ?pv = "ch_providers s ! cr_provider ?q"
  note q = ready_stack [OF ok r]
  have "g \<in> set (map fst (rev (cr_stack ?q)) @ map fst (cr_todo ?q))" using todo by simp
  then have g: "g < length ?gs"
    using way_in_range [OF chain_reqD(2) [OF ok r(1)], of "cr_member ?q" g] chain_reqD(4) [OF ok r(1)] q(2)
    by (simp add: inward_ok_def del: map_append set_append)
  let ?x = "\<lparr>en_wrapper = k, en_signal = pool_windowed (cp_pool ?pv), en_session = cr_session ?q,
    en_length = cr_length ?q, en_gone = gone, en_now = now\<rparr>"
  obtain gs' where gs': "move_gate g (enter_event (?gs ! g) ?x untouched) ?gs = Some gs'" "heap_frame {} ?gs gs'"
    "entered gs' (g, gate_size (?gs ! g))"
    "waits_or_answers (stage_of gs' (g, gate_size (?gs ! g))) (view_of gs' (g, gate_size (?gs ! g)))
       (reason_of gs' (g, gate_size (?gs ! g))) (gate_handed_back (gs' ! g) (gate_size (?gs ! g)))"
    by (rule enter_heap [OF g])
  have "chain_enter r gone now s =
      Some (settle r now (?q\<lparr>cr_todo := rest, cr_stack := (g, gate_size (?gs ! g)) # cr_stack ?q\<rparr>) gs' s)"
    using r todo gs'(1) q(2) by (simp add: chain_enter_def Let_def inward_ok_def)
  with gs'(2-4) that show thesis by blast
qed

lemma chain_enter_ok:
  assumes ok: "chain_ok s" and step: "chain_enter r gone now s = Some s'"
  shows "chain_ok s'"
proof -
  let ?q = "ch_reqs s ! r" and ?gs = "ch_gates s"
  from step have r: "r < length (ch_reqs s)" "ready ?gs ?q" "cr_todo ?q \<noteq> []"
    by (auto simp: chain_enter_def Let_def split: if_splits list.splits)
  then obtain g k rest where todo: "cr_todo ?q = (g, k) # rest" by (cases "cr_todo ?q") auto
  obtain gs' where gs': "s' = settle r now (?q\<lparr>cr_todo := rest,
      cr_stack := (g, gate_size (?gs ! g)) # cr_stack ?q\<rparr>) gs' s"
    "heap_frame {} ?gs gs'" "entered gs' (g, gate_size (?gs ! g))"
    "waits_or_answers (stage_of gs' (g, gate_size (?gs ! g))) (view_of gs' (g, gate_size (?gs ! g)))
       (reason_of gs' (g, gate_size (?gs ! g))) (gate_handed_back (gs' ! g) (gate_size (?gs ! g)))"
    using chain_enter_settles [OF ok r(1,2) todo, of gone now] step by (metis option.inject)
  note q = ready_stack [OF ok r(1,2)]
  have new: "\<not> entered ?gs (g, gate_size (?gs ! g))" by (simp add: entered_def)
  show ?thesis
    unfolding gs'(1)
    by (rule settle_ok [OF ok r(1), where g = g and i = "gate_size (?gs ! g)" and rest = "cr_stack ?q" and X = "{}"])
       (use q todo new gs' in \<open>auto simp: inward_ok_def\<close>)
qed

lemma chain_own_ok:
  assumes ok: "chain_ok s" and step: "chain_own r e now s = Some s'"
  shows "chain_ok s'"
proof -
  let ?q = "ch_reqs s ! r" and ?gs = "ch_gates s"
  let ?pv = "ch_providers s ! cr_provider ?q"
  from step obtain g i rest gs' where r: "r < length (ch_reqs s)" "cr_stack ?q = (g, i) # rest"
    "own_event e = Some i" "move_gate g e ?gs = Some gs'"
    "s' = (if cr_mode ?q = Inward then settle r now ?q gs' s else s\<lparr>ch_gates := gs'\<rparr>)"
    by (auto simp: chain_own_def Let_def split: if_splits list.splits option.splits)
  note q = chain_reqD(3) [OF ok r(1)]
  have ent: "entered ?gs (g, i)" "\<forall>x \<in> set rest. entered ?gs x \<and> stage_of ?gs x = Beyond" "distinct (cr_stack ?q)"
    using q r(2) by (auto simp: req_ok_def)
  note heap = own_heap [OF ent(1) r(3,4)]
  show ?thesis
  proof (cases "cr_mode ?q = Inward")
    case True
    then have inw: "inward_ok ?gs ?pv ?q" using q by (simp add: req_ok_def)
    with heap(2) r(2) have at: "stage_of ?gs (g, i) = AtGate" "view_of ?gs (g, i) = untouched"
      by (auto simp: inward_ok_def split: if_splits)
    have "chain_ok (settle r now ?q gs' s)"
      by (rule settle_ok [OF ok r(1), where g = g and i = i and rest = rest and X = "{(g, i)}"])
         (use r(2) True inw at ent heap heap_frame_entered(1) [OF heap(1)] in \<open>auto simp: inward_ok_def\<close>)
    then show ?thesis using r(5) True by simp
  next
    case False
    have st: "stage_of ?gs (g, i) = Leaving" "stage_of gs' (g, i) = Away" if "cr_mode ?q = Outward who p" for who p
      using that q heap(2) r(2) by (auto simp: req_ok_def outward_ok_def split: if_splits)
    have notin: "(g, i) \<notin> set rest" using ent(3) r(2) by simp
    have rest: "\<forall>x \<in> set rest. entered gs' x \<and> stage_of gs' x = Beyond"
      using ent(2) notin heap_frame_entered(1) [OF heap(1)] heap_frame_same(1) [OF heap(1)]
      by (metis singletonD)
    have "req_ok gs' ?pv ?q"
    proof (cases "cr_mode ?q")
      case (Outward who p)
      then have "answer_ok gs' ?q who"
        using q heap_frame_entered [OF heap(1)] by (auto simp: req_ok_def outward_ok_def answer_ok_def split: answerer.splits)
      then show ?thesis
        using q r(2) rest st [OF Outward] heap_frame_entered(1) [OF heap(1) ent(1)] Outward
        by (auto simp: req_ok_def outward_ok_def)
    qed (use False q r(2) in \<open>auto simp: req_ok_def\<close>)
    then have "chain_ok (set_creq r ?q (s\<lparr>ch_gates := gs'\<rparr>))"
      using chain_ok_update [OF ok r(1) refl refl heap(1), of ?q] chain_reqD(4) [OF ok r(1)] r(2) by auto
    then show ?thesis using r(1,5) False by (simp add: set_creq_def)
  qed
qed

text \<open>The state of the pool (its round-robin counter) is not part of the invariant.\<close>

lemma pool_irrelevant:
  "way (pv\<lparr>cp_pool := pool\<rparr>) m = way pv m"
  "req_ok gs (pv\<lparr>cp_pool := pool\<rparr>) q = req_ok gs pv q"
  "provider_ok gs (pv\<lparr>cp_pool := pool\<rparr>) = provider_ok gs pv"
proof -
  show [simp]: "way (pv\<lparr>cp_pool := pool\<rparr>) m = way pv m" for m
    by (simp add: way_def split: option.splits)
  show "req_ok gs (pv\<lparr>cp_pool := pool\<rparr>) q = req_ok gs pv q"
    "provider_ok gs (pv\<lparr>cp_pool := pool\<rparr>) = provider_ok gs pv"
    by (auto simp: req_ok_def inward_ok_def outward_ok_def provider_ok_def split: chain_mode.splits)
qed

lemma chain_ok_pool:
  assumes "chain_ok s" "p < length (ch_providers s)"
  shows "chain_ok (s\<lparr>ch_providers := (ch_providers s)[p := (ch_providers s ! p)\<lparr>cp_pool := pool\<rparr>]\<rparr>)"
proof -
  let ?ps = "(ch_providers s)[p := (ch_providers s ! p)\<lparr>cp_pool := pool\<rparr>]"
  have nth: "req_ok gs (?ps ! k) q = req_ok gs (ch_providers s ! k) q"
    "cp_inner (?ps ! k) = cp_inner (ch_providers s ! k)"
    "provider_ok gs (?ps ! k) = provider_ok gs (ch_providers s ! k)" for gs k q
    using assms(2) by (cases "k = p"; simp add: pool_irrelevant)+
  have "\<forall>pv \<in> set ?ps. provider_ok (ch_gates s) pv"
    using assms(1) nth(3) by (metis (no_types, lifting) chain_ok_def in_set_conv_nth length_list_update)
  then show ?thesis using assms(1) nth(1,2) by (simp add: chain_ok_def)
qed

lemma chain_select_ok:
  assumes ok: "chain_ok s" and step: "chain_select api r w s = Some s'"
  shows "chain_ok s'"
proof -
  let ?q = "ch_reqs s ! r" and ?gs = "ch_gates s"
  let ?p = "cr_provider ?q" and ?pv = "ch_providers s ! cr_provider ?q"
  obtain pool res where sel: "selectMember api (cp_pool ?pv) w (cr_session ?q) = (pool, res)" by fastforce
  from step have r: "r < length (ch_reqs s)" "at_pool ?gs ?q"
    by (auto simp: chain_select_def Let_def split: if_splits)
  let ?s = "s\<lparr>ch_providers := (ch_providers s)[?p := ?pv\<lparr>cp_pool := pool\<rparr>]\<rparr>"
  have ok': "chain_ok ?s" using chain_ok_pool [OF ok chain_reqD(1) [OF ok r(1)]] .
  have q: "req_ok ?gs (?pv\<lparr>cp_pool := pool\<rparr>) ?q" "cr_mode ?q = Inward" "cr_member ?q = None" "cr_todo ?q = []"
    "?p < length (ch_providers s)"
    "cr_stack ?q = [] \<or> stage_of ?gs (hd (cr_stack ?q)) = Beyond"
    using chain_reqD [OF ok r(1)] r(2) by (simp_all add: at_pool_def ready_iff pool_irrelevant)
  have pv': "ch_providers ?s ! ?p = ?pv\<lparr>cp_pool := pool\<rparr>" using q(5) by simp
  have panic: "chain_ok (set_creq r (?q\<lparr>cr_index := x, cr_mode := Outward Pool True\<rparr>) ?s)" for x
  proof -
    let ?q' = "?q\<lparr>cr_index := x, cr_mode := Outward Pool True\<rparr>"
    have "req_ok ?gs (?pv\<lparr>cp_pool := pool\<rparr>) ?q'"
      using q by (auto simp: req_ok_def inward_ok_def outward_ok_def answer_ok_def)
    then show ?thesis
      using chain_ok_update [OF ok' _ refl refl heap_frame_refl [of "{}"], of r ?q'] r(1) q pv' by simp
  qed
  have go: "chain_ok (set_creq r (?q\<lparr>cr_index := \<lparr>slot_index = m, slot_selected = True\<rparr>, cr_member := Some m,
      cr_todo := cp_inner ?pv ! m\<rparr>) ?s)"
    if m: "m < length (cp_inner ?pv)" for m
  proof -
    let ?q' = "?q\<lparr>cr_index := \<lparr>slot_index = m, slot_selected = True\<rparr>, cr_member := Some m,
      cr_todo := cp_inner ?pv ! m\<rparr>"
    have "req_ok ?gs (?pv\<lparr>cp_pool := pool\<rparr>) ?q'"
      using q m by (auto simp: req_ok_def inward_ok_def way_def split: list.splits)
    then show ?thesis
      using chain_ok_update [OF ok' _ refl refl heap_frame_refl [of "{}"], of r ?q'] r(1) q pv' m by simp
  qed
  show ?thesis
    using step r sel panic panic [of "cr_index ?q"] go by (auto simp: chain_select_def Let_def split: sum.splits if_splits)
qed

lemma chain_leave_ok:
  assumes ok: "chain_ok s" and step: "chain_leave here who p r s = Some s'"
    and here: "here = at_pool \<and> who = Pool \<or> here = at_upstream \<and> who = Upstream"
  shows "chain_ok s'"
proof -
  let ?q = "ch_reqs s ! r"
  let ?q' = "?q\<lparr>cr_mode := Outward who p\<rparr>"
  from step have r: "r < length (ch_reqs s)" "here (ch_gates s) ?q" "s' = set_creq r ?q' s"
    by (auto simp: chain_leave_def Let_def split: if_splits)
  from r(2) here have rdy: "ready (ch_gates s) ?q" by (auto simp: at_pool_def at_upstream_def)
  note q = ready_stack [OF ok r(1) rdy]
  have "answer_ok (ch_gates s) ?q' who"
    using here r(2) q(2) by (auto simp: answer_ok_def inward_ok_def at_pool_def at_upstream_def)
  moreover have "\<exists>todo. map fst (rev (cr_stack ?q)) @ todo = way (ch_providers s ! cr_provider ?q) (cr_member ?q)"
    using q(2) by (auto simp: inward_ok_def)
  ultimately have "req_ok (ch_gates s) (ch_providers s ! cr_provider ?q) ?q'"
    using q by (cases "cr_stack ?q") (auto simp: req_ok_def outward_ok_def inward_ok_def)
  then show ?thesis
    using chain_ok_update [OF ok r(1) refl refl heap_frame_refl [of "{}"], of ?q'] chain_reqD(4) [OF ok r(1)]
    by (simp add: r(3))
qed

lemma chain_write_ok:
  assumes ok: "chain_ok s" and step: "chain_write r c now s = Some s'"
  shows "chain_ok s'"
proof -
  let ?q = "ch_reqs s ! r"
  let ?q' = "?q\<lparr>cr_calls := cr_calls ?q @ [c]\<rparr>"
  let ?gs = "pass_calls now [c] (cr_stack ?q) (ch_gates s)"
  from step have r: "r < length (ch_reqs s)" "at_upstream (ch_gates s) ?q"
      "s' = set_creq r ?q' (s\<lparr>ch_gates := ?gs\<rparr>)"
    by (auto simp: chain_write_def Let_def split: if_splits)
  from r(2) have rdy: "ready (ch_gates s) ?q" by (simp add: at_upstream_def)
  note q = ready_stack [OF ok r(1) rdy]
  note pass = pass_calls_heap [OF q(1), of now "[c]"]
  have "\<forall>x \<in> set (cr_stack ?q). entered ?gs x" using q(1) pass heap_frame_entered(1) by blast
  then have "req_ok ?gs (ch_providers s ! cr_provider ?q) ?q'"
    using q pass r(2) by (cases "cr_stack ?q") (auto simp: req_ok_def inward_ok_def at_upstream_def)
  then show ?thesis
    using chain_ok_update [OF ok r(1) refl refl pass [THEN conjunct1], of ?q'] chain_reqD(4) [OF ok r(1)]
    by (simp add: r(3))
qed

text \<open>The wrapped handler of the innermost gate is done.\<close>

lemma return_ok:
  assumes ok: "chain_ok s" "r < length (ch_reqs s)"
    and mode: "cr_mode (ch_reqs s ! r) = Outward who p" "cr_stack (ch_reqs s ! r) = (g, i) # rest"
      "stage_of (ch_gates s) (g, i) = Beyond"
      "\<not> (cr_bounced (ch_reqs s ! r) \<and> length (cr_stack (ch_reqs s ! r)) =
           length (cp_outer (ch_providers s ! cr_provider (ch_reqs s ! r))))"
    and move: "move_gate g (if p then panic_event (ch_gates s ! g) i
        else return_event (ch_gates s ! g) i (cr_calls (ch_reqs s ! r)) now) (ch_gates s) = Some gs'"
  shows "chain_ok (s\<lparr>ch_gates := gs'\<rparr>)"
proof -
  let ?q = "ch_reqs s ! r" and ?gs = "ch_gates s"
  let ?pv = "ch_providers s ! cr_provider ?q"
  have q: "distinct (cr_stack ?q)" "\<forall>x \<in> set (cr_stack ?q). entered ?gs x"
      "\<forall>x \<in> set (tl (cr_stack ?q)). stage_of ?gs x = Beyond" "outward_ok ?gs ?pv ?q who"
    using chain_reqD(3) [OF ok] mode(1) by (auto simp: req_ok_def)
  let ?e = "if p then panic_event (?gs ! g) i else return_event (?gs ! g) i (cr_calls ?q) now"
  have "entered ?gs (g, i)" "?e = return_event (?gs ! g) i (cr_calls ?q) now \<or> ?e = panic_event (?gs ! g) i"
    using q(2) mode(2) by simp_all
  then obtain t where "move_gate g ?e ?gs = Some t" "heap_frame {(g, i)} ?gs t" "stage_of t (g, i) \<in> {Leaving, Away}"
    using back_heap mode(3) by blast
  then have gs': "heap_frame {(g, i)} ?gs gs'" "stage_of gs' (g, i) \<in> {Leaving, Away}" using move by simp_all
  have rest: "\<forall>y \<in> set rest. stage_of gs' y = Beyond"
  proof
    fix y assume "y \<in> set rest"
    then have "entered ?gs y" "y \<notin> {(g, i)}" "stage_of ?gs y = Beyond" using q(1,2,3) mode(2) by auto
    then show "stage_of gs' y = Beyond" using heap_frame_same(1) [OF gs'(1)] by simp
  qed
  have "answer_ok gs' ?q who"
    using q(4) heap_frame_entered [OF gs'(1)]
    by (auto simp: outward_ok_def answer_ok_def split: answerer.splits)
  then have "req_ok gs' ?pv ?q"
    using q rest gs'(2) heap_frame_entered(1) [OF gs'(1)] mode by (auto simp: req_ok_def outward_ok_def)
  then have "chain_ok (set_creq r ?q (s\<lparr>ch_gates := gs'\<rparr>))"
    using chain_ok_update [OF ok refl refl gs'(1), of ?q] chain_reqD(4) [OF ok] mode(2) by auto
  then show ?thesis using ok(2) by (simp add: set_creq_def)
qed

lemma chain_back_ok:
  assumes ok: "chain_ok s" and step: "chain_back r now s = Some s'"
  shows "chain_ok s'"
proof -
  let ?q = "ch_reqs s ! r" and ?gs = "ch_gates s"
  let ?pv = "ch_providers s ! cr_provider ?q"
  from step obtain who p where r: "r < length (ch_reqs s)" and mode: "cr_mode ?q = Outward who p"
    by (auto simp: chain_back_def Let_def split: if_splits chain_mode.splits)
  have q: "distinct (cr_stack ?q)" "\<forall>x \<in> set (cr_stack ?q). entered ?gs x"
      "\<forall>x \<in> set (tl (cr_stack ?q)). stage_of ?gs x = Beyond" "outward_ok ?gs ?pv ?q who"
    using chain_reqD(3) [OF ok r] mode by (auto simp: req_ok_def)
  have upd: "chain_ok (set_creq r q' s)"
    if "req_ok ?gs ?pv q'" "set (cr_stack q') \<subseteq> set (cr_stack ?q)" "cr_provider q' = cr_provider ?q"
      "cr_member q' \<in> {None, cr_member ?q}" for q'
    using chain_ok_update [OF ok r refl refl heap_frame_refl [of "{}"], of q'] chain_reqD(4) [OF ok r] that
      le_supI1 [OF that(2)] by auto
  let ?returns = "cr_bounced ?q \<and> length (cr_stack ?q) = length (cp_outer ?pv)"
  show ?thesis
  proof (cases ?returns)
    case True
    let ?q' = "?q\<lparr>cr_mode := Inward, cr_bounced := False, cr_member := None, cr_todo := []\<rparr>"
    have "map fst (rev (cr_stack ?q)) = map fst (cp_outer ?pv)"
      using q(4) True by (auto simp: outward_ok_def way_def append_eq_append_conv)
    then have "req_ok ?gs ?pv ?q'"
      using q True by (cases "cr_stack ?q") (auto simp: req_ok_def outward_ok_def inward_ok_def way_def)
    from upd [OF this] show ?thesis using step r mode True by (simp add: chain_back_def Let_def)
  next
    case False
    show ?thesis
    proof (cases "cr_stack ?q")
      case Nil
      have "req_ok ?gs ?pv (?q\<lparr>cr_mode := Finished who p\<rparr>)"
        using q(4) Nil by (auto simp: req_ok_def outward_ok_def answer_ok_def split: answerer.splits)
      from upd [OF this] show ?thesis
        using step r mode False Nil by (auto simp: chain_back_def Let_def split: if_splits)
    next
      case (Cons x rest)
      then obtain g i where x: "x = (g, i)" "cr_stack ?q = (g, i) # rest" by (cases x) simp
      consider "stage_of ?gs (g, i) = Beyond" | "stage_of ?gs (g, i) = Away"
        using step r mode False x by (auto simp: chain_back_def Let_def stage_of_def split: if_splits)
      then show ?thesis
      proof cases
        case 1
        with step r mode False x
        obtain gs' where "move_gate g (if p then panic_event (?gs ! g) i
            else return_event (?gs ! g) i (cr_calls ?q) now) ?gs = Some gs'" "s' = s\<lparr>ch_gates := gs'\<rparr>"
          by (auto simp: chain_back_def Let_def stage_of_def)
        then show ?thesis using return_ok [OF ok r mode x(2) 1 False] by simp
      next
        case 2
        let ?q' = "?q\<lparr>cr_stack := rest\<rparr>"
        have "\<exists>todo. map fst (rev rest) @ todo = way ?pv (cr_member ?q)"
          using q(4) x(2) by (auto simp: outward_ok_def)
        moreover have "length (cp_outer ?pv) \<le> length rest" if "cr_bounced ?q"
          using q(4) x(2) False that by (auto simp: outward_ok_def)
        ultimately have "req_ok ?gs ?pv ?q'"
          using q x(2) mode
          by (cases rest) (auto simp: req_ok_def outward_ok_def answer_ok_def split: answerer.splits)
        then have "chain_ok (set_creq r ?q' s)" by (rule upd) (use x(2) in auto)
        then show ?thesis
          using step r mode False x 2 by (auto simp: chain_back_def Let_def stage_of_def)
      qed
    qed
  qed
qed

lemma chain_step_ok:
  assumes ok: "chain_ok s" and step: "chain_step api s e = Some s'"
  shows "chain_ok s'"
  using step
  by (cases e)
     (auto simp: chain_step_def intro: chain_arrive_ok [OF ok] chain_enter_ok [OF ok] chain_own_ok [OF ok]
        chain_select_ok [OF ok] chain_write_ok [OF ok] chain_back_ok [OF ok]
        chain_leave_ok [OF ok, of at_pool Pool] chain_leave_ok [OF ok, of at_upstream Upstream])

definition chain_start :: "'t chain \<Rightarrow> bool" where
  "chain_start s \<longleftrightarrow> ch_reqs s = [] \<and> (\<forall>pv \<in> set (ch_providers s). provider_ok (ch_gates s) pv)"

interpretation chain: step_invariant chain_start "chain_step api" chain_ok for api
proof unfold_locales
  show "chain_ok s" if "chain_start s" for s :: "'a chain" using that by (auto simp: chain_start_def chain_ok_def)
qed (rule chain_step_ok)

section \<open>Each gate runs its own machine\<close>

text \<open>One gate of the heap advanced by a list of its own steps.\<close>

definition advanced :: "gate list \<Rightarrow> gate list \<Rightarrow> bool" where
  "advanced gs gs' \<longleftrightarrow> length gs' = length gs \<and>
     (\<forall>g < length gs. \<exists>es. run_steps gate_step (gs ! g) es = Some (gs' ! g))"

lemma advanced_refl [simp]: "advanced gs gs"
  by (auto simp: advanced_def intro: exI [of _ "[]"])

lemma advanced_trans: "advanced gs gs' \<Longrightarrow> advanced gs' gs'' \<Longrightarrow> advanced gs gs''"
  unfolding advanced_def
proof (intro conjI allI impI, goal_cases)
  case (2 g)
  then have "\<exists>es. run_steps gate_step (gs ! g) es = Some (gs' ! g)"
    "\<exists>es. run_steps gate_step (gs' ! g) es = Some (gs'' ! g)" by simp_all
  then obtain es es' where "run_steps gate_step (gs ! g) es = Some (gs' ! g)"
    "run_steps gate_step (gs' ! g) es' = Some (gs'' ! g)" by blast
  then show ?case by (intro exI [of _ "es @ es'"]) (simp add: run_steps_append)
qed auto

lemma advanced_move:
  assumes "move_gate g e gs = Some gs'"
  shows "advanced gs gs'"
  unfolding advanced_def
proof (intro conjI allI impI)
  from assms obtain g' where g': "g < length gs" "gate_step (gs ! g) e = Some g'" "gs' = gs[g := g']"
    by (auto simp: move_gate_def split: if_splits)
  then show "length gs' = length gs" by simp
  show "\<exists>es. run_steps gate_step (gs ! h) es = Some (gs' ! h)" if "h < length gs" for h
    using g' by (cases "h = g") (auto intro: exI [of _ "[e]"] exI [of _ "[]"])
qed

lemma advanced_write: "advanced gs (write_gate now c x gs)"
  by (cases x) (auto simp: write_gate_def split: option.splits dest: advanced_move)

lemma advanced_fold:
  "(\<And>x gs. advanced gs (f x gs)) \<Longrightarrow> advanced gs (fold f xs gs)"
  by (induction xs arbitrary: gs) (auto intro: advanced_trans)

lemma advanced_pass: "advanced gs (pass_calls now calls stack gs)"
  unfolding pass_calls_def by (intro advanced_fold advanced_write)

lemma advanced_settle: "advanced (ch_gates s) gs \<Longrightarrow> advanced (ch_gates s) (ch_gates (settle r now q gs s))"
  by (auto simp: settle_def set_creq_def Let_def split: list.splits prod.splits
        intro: advanced_trans [OF _ advanced_pass])

lemma advanced_step:
  assumes "chain_step api s e = Some s'"
  shows "advanced (ch_gates s) (ch_gates s')"
proof (cases e)
  case (ChEnter r gone now)
  with assms show ?thesis
    by (auto simp: chain_step_def chain_enter_def Let_def split: if_splits list.splits option.splits
          intro!: advanced_settle dest: advanced_move)
next
  case (ChOwn r f now)
  with assms obtain g i rest gs' where "cr_stack (ch_reqs s ! r) = (g, i) # rest" "move_gate g f (ch_gates s) = Some gs'"
    "s' = settle r now (ch_reqs s ! r) gs' s \<or> s' = s\<lparr>ch_gates := gs'\<rparr>"
    by (auto simp: chain_step_def chain_own_def Let_def split: if_splits list.splits option.splits)
  then show ?thesis using advanced_move advanced_settle by fastforce
next
  case (ChBack r now)
  with assms have "ch_gates s' = ch_gates s \<or> (\<exists>g e. move_gate g e (ch_gates s) = Some (ch_gates s'))"
    by (fastforce simp: chain_step_def chain_back_def set_creq_def Let_def
          split: if_splits list.splits chain_mode.splits)
  then show ?thesis using advanced_move by fastforce
qed (use assms in \<open>auto simp: chain_step_def chain_arrive_def chain_select_def chain_leave_def chain_write_def
      set_creq_def Let_def split: if_splits sum.splits prod.splits intro: advanced_pass\<close>)

lemma advanced_run: "run_steps (chain_step api) s es = Some s' \<Longrightarrow> advanced (ch_gates s) (ch_gates s')"
  by (induction es arbitrary: s) (auto split: option.splits dest: advanced_step intro: advanced_trans)

text \<open>Runs of the gate type are runs of the gate's own step function.\<close>

lemma run_gate:
  "run_steps gate_step (GBreaker b) es = Some g \<Longrightarrow> \<exists>b' es'. g = GBreaker b' \<and> run_steps br_step b es' = Some b'"
  "run_steps gate_step (GThrottle t) es = Some g \<Longrightarrow> \<exists>t' es'. g = GThrottle t' \<and> run_steps th_step t es' = Some t'"
  "run_steps gate_step (GCold c) es = Some g \<Longrightarrow> \<exists>c' es'. g = GCold c' \<and> run_steps cg_step c es' = Some c'"
  "run_steps gate_step (GLimiter ws l) es = Some g \<Longrightarrow>
     \<exists>l' es'. g = GLimiter ws l' \<and> run_steps (lim_step ws) l es' = Some l'"
proof (induction es arbitrary: b t c l)
  case Nil
  { case 1 then show ?case by (intro exI [of _ b] exI [of _ "[]"]) simp }
  { case 2 then show ?case by (intro exI [of _ t] exI [of _ "[]"]) simp }
  { case 3 then show ?case by (intro exI [of _ c] exI [of _ "[]"]) simp }
  { case 4 then show ?case by (intro exI [of _ l] exI [of _ "[]"]) simp }
next
  case (Cons e es)
  { case 1
    then obtain f b1 where f: "e = BrE f" "br_step b f = Some b1" "run_steps gate_step (GBreaker b1) es = Some g"
      by (cases e) (auto split: option.splits)
    from Cons(1) [OF f(3)] obtain b' es' where "g = GBreaker b'" "run_steps br_step b1 es' = Some b'" by blast
    with f(2) show ?case by (intro exI [of _ b'] exI [of _ "f # es'"]) simp }
  { case 2
    then obtain f t1 where f: "e = ThE f" "th_step t f = Some t1" "run_steps gate_step (GThrottle t1) es = Some g"
      by (cases e) (auto split: option.splits)
    from Cons(2) [OF f(3)] obtain t' es' where "g = GThrottle t'" "run_steps th_step t1 es' = Some t'" by blast
    with f(2) show ?case by (intro exI [of _ t'] exI [of _ "f # es'"]) simp }
  { case 3
    then obtain f c1 where f: "e = CgE f" "cg_step c f = Some c1" "run_steps gate_step (GCold c1) es = Some g"
      by (cases e) (auto split: option.splits)
    from Cons(3) [OF f(3)] obtain c' es' where "g = GCold c'" "run_steps cg_step c1 es' = Some c'" by blast
    with f(2) show ?case by (intro exI [of _ c'] exI [of _ "f # es'"]) simp }
  { case 4
    then obtain f l1 where f: "e = LimE f" "lim_step ws l f = Some l1" "run_steps gate_step (GLimiter ws l1) es = Some g"
      by (cases e) (auto split: option.splits)
    from Cons(4) [OF f(3)] obtain l' es' where "g = GLimiter ws l'" "run_steps (lim_step ws) l1 es' = Some l'" by blast
    with f(2) show ?case by (intro exI [of _ l'] exI [of _ "f # es'"]) simp }
qed

section \<open>Requests at an upstream\<close>

definition upstream_reqs :: "'t chain \<Rightarrow> nat \<Rightarrow> nat set" where
  "upstream_reqs s g = {r. r < length (ch_reqs s) \<and> at_upstream (ch_gates s) (ch_reqs s ! r) \<and>
     g \<in> set (way (ch_providers s ! cr_provider (ch_reqs s ! r)) (cr_member (ch_reqs s ! r)))}"

text \<open>A request at an upstream is inside every gate of its way.\<close>

lemma upstream_inside:
  assumes "chain_ok s" "r \<in> upstream_reqs s g"
  obtains i where "(g, i) \<in> set (cr_stack (ch_reqs s ! r))" "i < gate_size (ch_gates s ! g)"
    "gate_stage (ch_gates s ! g) i = Beyond"
proof -
  from assms(2) have r: "r < length (ch_reqs s)" "at_upstream (ch_gates s) (ch_reqs s ! r)"
      "g \<in> set (way (ch_providers s ! cr_provider (ch_reqs s ! r)) (cr_member (ch_reqs s ! r)))"
    by (simp_all add: upstream_reqs_def)
  then have "ready (ch_gates s) (ch_reqs s ! r)" "cr_todo (ch_reqs s ! r) = []"
    by (simp_all add: at_upstream_def)
  note q = ready_stack [OF assms(1) r(1) this(1)] this(2)
  from q(2,5) have "way (ch_providers s ! cr_provider (ch_reqs s ! r)) (cr_member (ch_reqs s ! r)) =
      map fst (rev (cr_stack (ch_reqs s ! r)))" by (simp add: inward_ok_def)
  with r(3) obtain i where "(g, i) \<in> set (cr_stack (ch_reqs s ! r))" by auto
  with q(1) that show thesis by (auto simp: entered_def stage_of_def)
qed

lemma upstream_reqs_bound:
  assumes "chain_ok s"
  shows "card (upstream_reqs s g) \<le> card {i. i < gate_size (ch_gates s ! g) \<and> gate_stage (ch_gates s ! g) i = Beyond}"
proof -
  define num where "num r = (SOME i. (g, i) \<in> set (cr_stack (ch_reqs s ! r)) \<and>
    i < gate_size (ch_gates s ! g) \<and> gate_stage (ch_gates s ! g) i = Beyond)" for r
  have num: "(g, num r) \<in> set (cr_stack (ch_reqs s ! r))" "num r < gate_size (ch_gates s ! g)"
      "gate_stage (ch_gates s ! g) (num r) = Beyond" if "r \<in> upstream_reqs s g" for r
    using someI_ex [of "\<lambda>i. (g, i) \<in> set (cr_stack (ch_reqs s ! r)) \<and>
      i < gate_size (ch_gates s ! g) \<and> gate_stage (ch_gates s ! g) i = Beyond"] upstream_inside [OF assms that]
    unfolding num_def by blast+
  have "inj_on num (upstream_reqs s g)"
  proof (rule inj_onI, rule ccontr)
    fix r r'
    assume rr: "r \<in> upstream_reqs s g" "r' \<in> upstream_reqs s g" "num r = num r'" "r \<noteq> r'"
    then have "set (cr_stack (ch_reqs s ! r)) \<inter> set (cr_stack (ch_reqs s ! r')) = {}"
      using assms by (auto simp: chain_ok_def upstream_reqs_def)
    with num(1) [OF rr(1)] num(1) [OF rr(2)] rr(3) show False by auto
  qed
  then show ?thesis
    by (rule card_inj_on_le) (use num in auto)
qed

section \<open>The way out is never blocked\<close>

text \<open>Runs in which only one request acts.\<close>

fun acts_for :: "nat \<Rightarrow> chain_event \<Rightarrow> bool" where
  "acts_for r (ChArrive p sid n) = False"
| "acts_for r (ChEnter r' gone now) = (r' = r)"
| "acts_for r (ChOwn r' e now) = (r' = r)"
| "acts_for r (ChSelect r' w) = (r' = r)"
| "acts_for r (ChGone r') = (r' = r)"
| "acts_for r (ChWrite r' c now) = (r' = r)"
| "acts_for r (ChReturn r') = (r' = r)"
| "acts_for r (ChPanic r') = (r' = r)"
| "acts_for r (ChBack r' now) = (r' = r)"

definition finished :: "chain_req \<Rightarrow> bool" where
  "finished q \<longleftrightarrow> (\<exists>who p. cr_mode q = Finished who p)"

definition can_finish :: "'t time_api \<Rightarrow> nat \<Rightarrow> 't chain \<Rightarrow> bool" where
  "can_finish api r s \<longleftrightarrow> (\<exists>es s'. list_all (acts_for r) es \<and> run_steps (chain_step api) s es = Some s' \<and>
     r < length (ch_reqs s') \<and> finished (ch_reqs s' ! r))"

lemma can_finish_step:
  assumes "acts_for r e" "chain_step api s e = Some s'" "can_finish api r s'"
  shows "can_finish api r s"
proof -
  from assms(3) obtain es t where "list_all (acts_for r) es" "run_steps (chain_step api) s' es = Some t"
    "r < length (ch_reqs t)" "finished (ch_reqs t ! r)" by (auto simp: can_finish_def)
  with assms(1,2) show ?thesis unfolding can_finish_def by (intro exI [of _ "e # es"] exI [of _ t]) simp
qed

text \<open>How far a request is from its end, when it does not go further in than it must.\<close>

definition out_rank :: "gate list \<Rightarrow> chain_req \<Rightarrow> nat" where
  "out_rank gs q = 4 * length (cr_stack q) +
     (case cr_stack q of [] \<Rightarrow> 0 | x # _ \<Rightarrow> (case stage_of gs x of Away \<Rightarrow> 0 | Leaving \<Rightarrow> 1 | _ \<Rightarrow> 2)) +
     of_bool (cr_bounced q)"

text \<open>Back in the pool after a hand-back, the request may find that its client is gone.\<close>

lemma bounce_out:
  assumes "chain_ok s" "r < length (ch_reqs s)" "q = ch_reqs s ! r" "cr_mode q = Outward who p" "cr_bounced q"
    and "length (cr_stack q) = length (cp_outer (ch_providers s ! cr_provider q))"
  obtains t u where "chain_step api s (ChBack r 0) = Some t" "chain_step api t (ChGone r) = Some u"
    "u = set_creq r (q\<lparr>cr_bounced := False, cr_member := None, cr_todo := [], cr_mode := Outward Pool False\<rparr>) s"
proof -
  let ?q = "q\<lparr>cr_mode := Inward, cr_bounced := False, cr_member := None, cr_todo := []\<rparr>"
  let ?t = "set_creq r ?q s"
  have "outward_ok (ch_gates s) (ch_providers s ! cr_provider q) q who"
    using chain_reqD(3) [OF assms(1,2)] assms(3,4) by (simp add: req_ok_def)
  then have "at_pool (ch_gates s) ?q"
    using assms(5,6) by (auto simp: at_pool_def ready_iff outward_ok_def)
  then have "chain_step api ?t (ChGone r) = Some (set_creq r (?q\<lparr>cr_mode := Outward Pool False\<rparr>) s)"
    using assms(2) by (simp add: chain_step_def chain_leave_def set_creq_def Let_def)
  moreover have "chain_step api s (ChBack r 0) = Some ?t"
    using assms(2-6) by (simp add: chain_step_def chain_back_def Let_def)
  ultimately show thesis using that [of ?t] by simp
qed

text \<open>A gate can always be left: one step of the request or of the gate's deferred action.\<close>

lemma gate_step_out:
  assumes ok: "chain_ok s" "r < length (ch_reqs s)" "cr_mode (ch_reqs s ! r) = Outward who p"
    and q: "\<not> (cr_bounced (ch_reqs s ! r) \<and> length (cr_stack (ch_reqs s ! r)) =
        length (cp_outer (ch_providers s ! cr_provider (ch_reqs s ! r))))"
      "cr_stack (ch_reqs s ! r) = (g, i) # rest"
  shows "\<exists>e s'. acts_for r e \<and> chain_step api s e = Some s' \<and> r < length (ch_reqs s') \<and>
    cr_mode (ch_reqs s' ! r) = Outward who p \<and>
    out_rank (ch_gates s') (ch_reqs s' ! r) < out_rank (ch_gates s) (ch_reqs s ! r)"
proof -
  let ?q = "ch_reqs s ! r" and ?gs = "ch_gates s"
  from chain_reqD(3) [OF ok(1,2)] ok(3) q(2)
  have top: "entered ?gs (g, i)" "stage_of ?gs (g, i) \<noteq> AtGate" "\<forall>y \<in> set rest. stage_of ?gs y = Beyond"
    by (auto simp: req_ok_def outward_ok_def)
  consider "stage_of ?gs (g, i) = Beyond" | "stage_of ?gs (g, i) = Leaving" | "stage_of ?gs (g, i) = Away"
    using top(2) by (cases "stage_of ?gs (g, i)") auto
  then show ?thesis
  proof cases
    case 1
    let ?e = "if p then panic_event (?gs ! g) i else return_event (?gs ! g) i (cr_calls ?q) 0"
    have "?e = return_event (?gs ! g) i (cr_calls ?q) 0 \<or> ?e = panic_event (?gs ! g) i" by simp
    then obtain gs' where gs': "move_gate g ?e ?gs = Some gs'" "stage_of gs' (g, i) \<in> {Leaving, Away}"
      using back_heap top(1) 1 by blast
    then have "chain_step api s (ChBack r 0) = Some (s\<lparr>ch_gates := gs'\<rparr>)"
      using ok q 1 by (auto simp: chain_step_def chain_back_def Let_def stage_of_def)
    then show ?thesis
      by (intro exI [of _ "ChBack r 0"]) (use gs'(2) 1 q(2) ok in \<open>auto simp: out_rank_def\<close>)
  next
    case 2
    then obtain e g' where e: "own_event e = Some i" "gate_step (?gs ! g) e = Some g'"
      using gates.patience_law [of i "?gs ! g"] top(1) by (auto simp: entered_def stage_of_def)
    then have move: "move_gate g e ?gs = Some (?gs[g := g'])" using top(1) by (simp add: move_gate_def entered_def)
    then have away: "stage_of (?gs[g := g']) (g, i) = Away" using own_heap(2) [OF top(1) e(1)] 2 by auto
    have "chain_step api s (ChOwn r e 0) = Some (s\<lparr>ch_gates := ?gs[g := g']\<rparr>)"
      using ok q(2) e move by (simp add: chain_step_def chain_own_def Let_def)
    then show ?thesis
      by (intro exI [of _ "ChOwn r e 0"]) (use away 2 q(2) ok in \<open>auto simp: out_rank_def\<close>)
  next
    case 3
    have "chain_step api s (ChBack r 0) = Some (set_creq r (?q\<lparr>cr_stack := rest\<rparr>) s)"
      using ok q 3 by (auto simp: chain_step_def chain_back_def Let_def stage_of_def)
    then show ?thesis
      by (intro exI [of _ "ChBack r 0"])
         (use top(3) q(2) 3 ok in \<open>auto simp: out_rank_def set_creq_def split: list.splits stage.splits\<close>)
  qed
qed

lemma outward_finishes:
  assumes "chain_ok s" "r < length (ch_reqs s)" "cr_mode (ch_reqs s ! r) = Outward who p"
  shows "can_finish api r s"
  using assms
proof (induction "out_rank (ch_gates s) (ch_reqs s ! r)" arbitrary: s who p rule: less_induct)
  case less
  let ?q = "ch_reqs s ! r" and ?gs = "ch_gates s"
  consider (again) "cr_bounced ?q \<and> length (cr_stack ?q) = length (cp_outer (ch_providers s ! cr_provider ?q))"
    | (over) "\<not> (cr_bounced ?q \<and> length (cr_stack ?q) = length (cp_outer (ch_providers s ! cr_provider ?q)))"
        "cr_stack ?q = []"
    | (gate) g i rest where
        "\<not> (cr_bounced ?q \<and> length (cr_stack ?q) = length (cp_outer (ch_providers s ! cr_provider ?q)))"
        "cr_stack ?q = (g, i) # rest"
    by (cases "cr_stack ?q") auto
  then show ?case
  proof cases
    case again
    then obtain t u where tu: "chain_step api s (ChBack r 0) = Some t" "chain_step api t (ChGone r) = Some u"
      "u = set_creq r (?q\<lparr>cr_bounced := False, cr_member := None, cr_todo := [], cr_mode := Outward Pool False\<rparr>) s"
      using bounce_out [OF less.prems(1,2) refl less.prems(3)] by blast
    have "can_finish api r u"
      by (rule less.hyps) (use tu(3) again less.prems(2) chain_step_ok [OF chain_step_ok [OF less.prems(1) tu(1)] tu(2)]
        in \<open>auto simp: out_rank_def set_creq_def\<close>)
    then have "can_finish api r t" using can_finish_step [of r "ChGone r" api t u] tu(2) by simp
    then show ?thesis using can_finish_step [of r "ChBack r 0" api s t] tu(1) by simp
  next
    case over
    let ?s = "set_creq r (?q\<lparr>cr_mode := Finished who p\<rparr>) s"
    have "chain_step api s (ChBack r 0) = Some ?s"
      using less.prems over by (auto simp: chain_step_def chain_back_def Let_def)
    moreover have "can_finish api r ?s"
      using less.prems(2) unfolding can_finish_def
      by (intro exI [of _ "[]"] exI [of _ ?s]) (simp add: set_creq_def finished_def)
    ultimately show ?thesis using can_finish_step [of r "ChBack r 0"] by simp
  next
    case (gate g i rest)
    obtain e s' where "acts_for r e" "chain_step api s e = Some s'" "r < length (ch_reqs s')"
      "cr_mode (ch_reqs s' ! r) = Outward who p" "out_rank (ch_gates s') (ch_reqs s' ! r) < out_rank ?gs ?q"
      using gate_step_out [OF less.prems gate] by blast
    then show ?thesis using can_finish_step less.hyps chain_step_ok [OF less.prems(1)] by blast
  qed
qed

lemma settle_cases:
  assumes "cr_stack q = (g, i) # rest" "r < length (ch_reqs s)" "t = settle r now q gs s"
  shows "r < length (ch_reqs t)"
    and "stage_of gs (g, i) \<in> {AtGate, Beyond} \<Longrightarrow> ch_gates t = gs \<and> ch_reqs t ! r = q"
    and "stage_of gs (g, i) \<notin> {AtGate, Beyond} \<Longrightarrow> cr_mode (ch_reqs t ! r) = Outward (Gate g i) False"
  using assms by (auto simp: settle_def set_creq_def stage_of_def Let_def split: prod.splits)

lemma patience_le: "gate_patience g i \<le> 2"
  by (cases g) (auto split: lim_phase.splits)

definition in_rank :: "gate list \<Rightarrow> chain_req \<Rightarrow> nat" where
  "in_rank gs q = 4 * length (cr_todo q) +
     (case cr_stack q of [] \<Rightarrow> 0 | (g, i) # _ \<Rightarrow> if stage_of gs (g, i) = AtGate then Suc (gate_patience (gs ! g) i) else 0)"

text \<open>On the way in a request waits for timers only, never for another request.\<close>

lemma inward_step:
  assumes ok: "chain_ok s" "r < length (ch_reqs s)" "cr_mode (ch_reqs s ! r) = Inward"
  shows "\<exists>e s'. acts_for r e \<and> chain_step api s e = Some s' \<and> r < length (ch_reqs s') \<and>
    ((\<exists>who p. cr_mode (ch_reqs s' ! r) = Outward who p) \<or>
     cr_mode (ch_reqs s' ! r) = Inward \<and>
     in_rank (ch_gates s') (ch_reqs s' ! r) < in_rank (ch_gates s) (ch_reqs s ! r))"
proof -
  let ?q = "ch_reqs s ! r" and ?gs = "ch_gates s"
  note q = chain_reqD(3) [OF ok(1,2)]
  consider (wait) g i rest where "cr_stack ?q = (g, i) # rest" "stage_of ?gs (g, i) = AtGate"
    | (enter) g k rest where "ready ?gs ?q" "cr_todo ?q = (g, k) # rest"
    | (pool) "at_pool ?gs ?q" | (upstream) "at_upstream ?gs ?q"
    using q ok(3)
    by (cases "cr_stack ?q"; cases "cr_todo ?q"; cases "cr_member ?q")
       (auto simp: req_ok_def inward_ok_def ready_iff at_pool_def at_upstream_def)
  then show ?thesis
  proof cases
    case (wait g i rest)
    then have ent: "entered ?gs (g, i)" using q by (auto simp: req_ok_def)
    then obtain e g' where e: "own_event e = Some i" "gate_step (?gs ! g) e = Some g'"
      "gate_stage g' i = AtGate \<longrightarrow> gate_patience g' i < gate_patience (?gs ! g) i"
      using gates.patience_law [of i "?gs ! g"] wait(2) by (auto simp: entered_def stage_of_def)
    let ?t = "settle r 0 ?q (?gs[g := g']) s"
    have "chain_step api s (ChOwn r e 0) = Some ?t"
      using ok wait(1) e ent by (simp add: chain_step_def chain_own_def move_gate_def entered_def Let_def)
    then show ?thesis
      using settle_cases [of ?q g i rest r s ?t 0 "?gs[g := g']"] wait e(3) ent ok(2,3)
      by (intro exI [of _ "ChOwn r e 0"])
         (cases "gate_stage g' i"; auto simp: in_rank_def stage_of_def entered_def)
  next
    case (enter g k rest)
    let ?q' = "?q\<lparr>cr_todo := rest, cr_stack := (g, gate_size (?gs ! g)) # cr_stack ?q\<rparr>"
    obtain gs' where s': "chain_step api s (ChEnter r False 0) = Some (settle r 0 ?q' gs' s)"
      using chain_enter_settles [OF ok(1,2) enter, of False 0] by (auto simp: chain_step_def)
    have "in_rank gs' ?q' < in_rank ?gs ?q"
      using patience_le [of "gs' ! g" "gate_size (?gs ! g)"] enter(2) by (simp add: in_rank_def)
    then show ?thesis
      using settle_cases [of ?q' g "gate_size (?gs ! g)" "cr_stack ?q" r s "settle r 0 ?q' gs' s" 0 gs'] s' ok(2,3)
      by (intro exI [of _ "ChEnter r False 0"])
         (cases "stage_of gs' (g, gate_size (?gs ! g)) \<in> {AtGate, Beyond}"; auto)
  next
    case pool
    then show ?thesis
      using ok(2) by (intro exI [of _ "ChGone r"]) (auto simp: chain_step_def chain_leave_def set_creq_def Let_def)
  next
    case upstream
    then show ?thesis
      using ok(2) by (intro exI [of _ "ChReturn r"]) (auto simp: chain_step_def chain_leave_def set_creq_def Let_def)
  qed
qed

lemma inward_finishes:
  assumes "chain_ok s" "r < length (ch_reqs s)" "cr_mode (ch_reqs s ! r) = Inward"
  shows "can_finish api r s"
  using assms
proof (induction "in_rank (ch_gates s) (ch_reqs s ! r)" arbitrary: s rule: less_induct)
  case less
  then obtain e s' where e: "acts_for r e" "chain_step api s e = Some s'" "r < length (ch_reqs s')"
    "(\<exists>who p. cr_mode (ch_reqs s' ! r) = Outward who p) \<or>
     cr_mode (ch_reqs s' ! r) = Inward \<and> in_rank (ch_gates s') (ch_reqs s' ! r) < in_rank (ch_gates s) (ch_reqs s ! r)"
    using inward_step by blast
  have "chain_ok s'" using chain_step_ok less.prems(1) e(2) by blast
  then have "can_finish api r s'" using e(3,4) less.hyps outward_finishes by blast
  with e show ?case using can_finish_step by blast
qed

section \<open>Examples\<close>

text \<open>One provider with a breaker around a pool of one member, whose limiter has one slot.\<close>

definition ex_br_gate :: breaker_gate where
  "ex_br_gate = \<lparr>bg_breaker = \<lparr>br_threshold = 1, br_state = BreakerClosed, br_failures = 0, br_openedAt = 0,
     br_probing = False, br_transitions = []\<rparr>, bg_reqs = []\<rparr>"

definition ex_wrapper :: wrapper where
  "ex_wrapper = \<lparr>wr_provider = ''p'', wr_rejectReason = rejectionReasonQueueTimeout, wr_reselectable = True\<rparr>"

definition ex_chain :: "ex_tod chain" where
  "ex_chain = \<lparr>ch_gates = [GBreaker ex_br_gate, GLimiter (\<lambda>k. ex_wrapper) (limiter_start 1)],
     ch_providers = [\<lparr>cp_outer = [(0, 0)], cp_pool = NewUpstreamPoolHandler 1 [ex_member 1], cp_inner = [[(1, 0)]]\<rparr>],
     ch_reqs = []\<rparr>"

definition ex_to_upstream :: "nat \<Rightarrow> chain_event list" where
  "ex_to_upstream r = [ChArrive 0 [] 10, ChEnter r False 0, ChSelect r ex_world, ChEnter r False 0]"

definition ex_timeout :: "nat \<Rightarrow> nat \<Rightarrow> time \<Rightarrow> chain_event list" where
  "ex_timeout r i t = [ChOwn r (LimE (CountIn i t)) t, ChOwn r (LimE (TimeOut i)) t, ChOwn r (LimE (CountOut i t)) t]"

definition ex_refused :: "chain_event list" where
  "ex_refused = ex_to_upstream 0 @ ex_to_upstream 1 @ ex_timeout 1 1 5 @
     [ChBack 1 5, ChBack 1 5, ChBack 1 5, ChBack 1 5]"

lemma ex_chain_start: "chain_start ex_chain"
  by (simp add: chain_start_def ex_chain_def provider_ok_def)

definition ex_final :: "chain_event list \<Rightarrow> ex_tod chain" where
  "ex_final es = the (run_steps (chain_step ex_api) ex_chain es)"

definition ex_probe :: "chain_event list" where
  "ex_probe = ex_to_upstream 0 @ ex_to_upstream 1 @
     [ChOwn 1 (LimE (CountIn 1 1)) 1, ChWrite 0 (CallWriteHeader 500) 2, ChReturn 0, ChBack 0 2, ChBack 0 2,
      ChBack 0 2, ChBack 0 2, ChBack 0 2, ChOwn 1 (LimE (TakeSlot 1 3)) 3, ChOwn 1 (LimE (CountOut 1 3)) 3] @
     [ChArrive 0 [] 10, ChEnter 2 False (40 * second_ns), ChSelect 2 ex_world, ChEnter 2 False (40 * second_ns)] @
     ex_timeout 2 2 (70 * second_ns) @
     [ChBack 2 (70 * second_ns), ChBack 2 (70 * second_ns), ChOwn 2 (BrE (BrRelease 2)) (70 * second_ns),
      ChBack 2 (70 * second_ns), ChBack 2 (70 * second_ns)]"

lemma ex_refused_run: "run_steps (chain_step ex_api) ex_chain ex_refused = Some (ex_final ex_refused)"
proof -
  have "case run_steps (chain_step ex_api) ex_chain ex_refused of None \<Rightarrow> False | Some s \<Rightarrow> True" by code_simp
  then show ?thesis by (auto simp: ex_final_def split: option.splits)
qed

section \<open>Properties\<close>

text \<open>
  The limits hold where they matter: in every interleaving of any number of requests of any providers, the
  requests that are at an upstream behind a limiter (a member's own, or the budget of a host that several
  members and providers share) are never more than its capacity.
\<close>

lemma upstream_calls_within_limits:
  assumes "chain_start s" "run_steps (chain_step api) s es = Some s'"
    and "g < length (ch_gates s)" "ch_gates s ! g = GLimiter ws (limiter_start cap)"
  shows "card (upstream_reqs s' g) \<le> cap"
proof -
  from advanced_run [OF assms(2)] assms(3)
  obtain fs where "run_steps gate_step (GLimiter ws (limiter_start cap)) fs = Some (ch_gates s' ! g)"
    using assms(4) by (auto simp: advanced_def)
  from run_gate(4) [OF this] obtain l fs'
    where l: "ch_gates s' ! g = GLimiter ws l" "run_steps (lim_step ws) (limiter_start cap) fs' = Some l" by blast
  have "lim_inv cap l" using limiter.reachable_inv [OF refl l(2)] .
  moreover have "card {i. i < length (lim_reqs l) \<and> lim_stage (lr_phase (lim_reqs l ! i)) = Beyond} \<le> slot_count l"
  proof -
    have "{i. i < length (lim_reqs l) \<and> lim_stage (lr_phase (lim_reqs l ! i)) = Beyond} \<subseteq>
        {i. i < length (lim_reqs l) \<and> holds_slot (lr_phase (lim_reqs l ! i))}"
      by (auto elim: lim_stage.elims)
    then show ?thesis
      by (auto simp: slot_count_def length_filter_conv_card intro!: card_mono)
  qed
  ultimately show ?thesis
    using upstream_reqs_bound [OF chain.reachable_inv [OF assms(1,2)], of g] l(1) by (simp add: lim_inv_def)
qed

lemma finished_answer:
  assumes "chain_start s" "run_steps (chain_step api) s es = Some s'"
    and "r < length (ch_reqs s')" "cr_mode (ch_reqs s' ! r) = Finished who p"
  shows "answer_ok (ch_gates s') (ch_reqs s' ! r) who"
  using chain_reqD(3) [OF chain.reachable_inv [OF assms(1,2)] assms(3)] assms(4) by (simp add: req_ok_def)

text \<open>
  C6. Every answer has one author: a request that is over was answered by the upstream its pool chose, which is
  the member in the slot of the log line, and a 429 then counts as the upstream's; or by one gate, which wrote nothing because the client left, or the 429 of the
  limiters, and the reason in the rejection slot is that gate's; or by nobody, with nothing written.
\<close>

theorem answers_attributed:
  assumes "chain_start s" "run_steps (chain_step api) s es = Some s'"
    and "r < length (ch_reqs s')" "q = ch_reqs s' ! r" "cr_mode q = Finished who p"
  shows "case who of
      Upstream \<Rightarrow> (\<exists>m. cr_member q = Some m \<and> cr_index q = \<lparr>slot_index = m, slot_selected = True\<rparr>) \<and>
        rejectionReasonOf (cr_slot q) = rejectionReasonUpstream
    | Pool \<Rightarrow> cr_calls q = [] \<and> rejectionReasonOf (cr_slot q) = rejectionReasonUpstream
    | Gate g i \<Rightarrow> cr_calls q = [] \<and> rejectionReasonOf (cr_slot q) = rejectionReasonUpstream \<or>
        first_status (cr_calls q) = 429 \<and> rs_body (foldl rw_call fresh_response (cr_calls q)) = limiter429Body \<and>
        rejectionReasonOf (cr_slot q) = gate_reason (ch_gates s' ! g) i"
proof -
  have "answer_ok (ch_gates s') q who"
    using finished_answer [OF assms(1-3)] assms(4,5) by simp
  moreover have "rs_body (foldl rw_call fresh_response (rate_limited_calls n)) = limiter429Body" for n
    by (simp add: rate_limited_calls_def rw_call_def fresh_response_def header_set_def write_header_def write_body_def)
  ultimately show ?thesis
    by (auto simp: answer_ok_def reason_of_def rejectionReasonOf_def published_def split: answerer.splits)
qed

theorem answers_attributed_witness:
  "let q = ch_reqs (ex_final ex_refused) ! 1 in cr_mode q = Finished (Gate 1 1) False \<and>
     first_status (cr_calls q) = 429 \<and> rejectionReasonOf (cr_slot q) = rejectionReasonQueueTimeout"
proof -
  have m: "cr_mode (ch_reqs (ex_final ex_refused) ! 1) = Finished (Gate 1 1) False \<and>
      cr_slot (ch_reqs (ex_final ex_refused) ! 1) = Some rejectionReasonQueueTimeout \<and>
      1 < length (ch_reqs (ex_final ex_refused))" by code_simp
  then show ?thesis
    using answers_attributed [OF ex_chain_start ex_refused_run _ refl, of 1 "Gate 1 1" False]
    by (auto simp: rejectionReasonOf_def rejectionReasonQueueTimeout_def rejectionReasonUpstream_def Let_def)
qed

text \<open>
  C9. Nested queues cannot deadlock: in every reachable state every request can be brought to its end by actions
  of its own alone (its timers, its client, its upstream and the deferred releases), without any other request
  moving, whatever slots the others hold.
\<close>

theorem every_request_can_finish:
  assumes "chain_start s" "run_steps (chain_step api) s es = Some s'" "r < length (ch_reqs s')"
  shows "\<exists>fs s''. list_all (acts_for r) fs \<and> run_steps (chain_step api) s' fs = Some s'' \<and>
    r < length (ch_reqs s'') \<and> finished (ch_reqs s'' ! r)"
proof -
  note ok = chain.reachable_inv [OF assms(1,2)]
  have "can_finish api r s'"
  proof (cases "cr_mode (ch_reqs s' ! r)")
    case (Finished who p)
    then show ?thesis using assms(3) unfolding can_finish_def
      by (intro exI [of _ "[]"] exI [of _ s']) (simp add: finished_def)
  qed (use ok assms(3) inward_finishes outward_finishes in blast)+
  then show ?thesis by (simp add: can_finish_def)
qed

theorem every_request_can_finish_witness:
  "\<exists>fs s. list_all (acts_for 0) fs \<and> run_steps (chain_step ex_api) (ex_final ex_refused) fs = Some s \<and>
     0 < length (ch_reqs s) \<and> finished (ch_reqs s ! 0)"
proof -
  have "0 < length (ch_reqs (ex_final ex_refused))" by code_simp
  then show ?thesis using every_request_can_finish [OF ex_chain_start ex_refused_run] by blast
qed

text \<open>
  A probe that never reached the upstream closes the breaker: with every slot of the member held, the probe is
  refused by the limiter inside, and the breaker takes that 429 for the upstream's health.
\<close>

lemma refused_probe_closes_breaker:
  "let s = ex_final ex_probe; q = ch_reqs s ! 2 in
     cr_mode q = Finished (Gate 1 2) False \<and> cr_slot q = Some rejectionReasonQueueTimeout \<and>
     (case ch_gates s ! 0 of
        GBreaker b \<Rightarrow> br_transitions (bg_breaker b) = [BreakerOpen, BreakerHalfOpen, BreakerClosed]
      | _ \<Rightarrow> False)"
  by code_simp

end
