(* ===== verification/System.thy ===== *)
theory System
  imports Factory Chain
begin

text \<open>
  The handler tree that \<open>CreateRouterFromConfig\<close> (\<open>factory.go\<close>) builds, as a chain of gates that serves
  requests: the semaphores of the tree's heap and the gates of its providers become the gates of the
  chain, and a request of a provider passes them in the order in which the constructors were nested. So
  what a configuration asks for is proved of every interleaving of requests.
\<close>

section \<open>The gates of a handler tree\<close>

fun handler_limiters :: "member_handler \<Rightarrow> (lim_ref \<times> wrapper) list" where
  "handler_limiters (ProxyHandler u tok) = []"
| "handler_limiters (LimiterHandler w d ref h) = (ref, w) # handler_limiters h"
| "handler_limiters (HostCounter key h) = handler_limiters h"

text \<open>The wrapper through which provider \<open>p\<close> reaches a semaphore; a provider has one per semaphore.\<close>

definition wrapper_at :: "'t provider_tree list \<Rightarrow> lim_ref \<Rightarrow> nat \<Rightarrow> wrapper" where
  "wrapper_at trees ref p =
     the (map_of (concat (map handler_limiters (pp_handlers (pt_parts (trees ! p))))) ref)"

definition host_keys :: "'t provider_tree list \<Rightarrow> string list" where
  "host_keys trees = remdups (concat (map (\<lambda>tree. List.map_filter host_of (pp_handlers (pt_parts tree))) trees))"

definition host_gate :: "(nat \<Rightarrow> wrapper) \<Rightarrow> host_limiter \<Rightarrow> gate" where
  "host_gate ws h = (case hl_sem h of None \<Rightarrow> GCounter h [] | Some l \<Rightarrow> GLimiter ws l)"

text \<open>The provider's own gates, outermost first: the breaker, the throttle gate, the cold-start gate.\<close>

definition own_gates :: "'t provider_tree \<Rightarrow> gate list" where
  "own_gates tree =
     (case pt_breaker tree of None \<Rightarrow> [] | Some b \<Rightarrow> [GBreaker b]) @
     (case pt_throttle tree of None \<Rightarrow> [] | Some g \<Rightarrow> [GThrottle g]) @
     (case pt_cold tree of None \<Rightarrow> [] | Some c \<Rightarrow> [GCold c])"

text \<open>The number of a gate: the members' semaphores come first, then the hosts.\<close>

fun position :: "'a \<Rightarrow> 'a list \<Rightarrow> nat" where
  "position x [] = 0"
| "position x (y # ys) = (if x = y then 0 else Suc (position x ys))"

definition lim_pos :: "nat \<Rightarrow> string list \<Rightarrow> lim_ref \<Rightarrow> nat" where
  "lim_pos n keys ref = (case ref of MemberLim k \<Rightarrow> k | HostLim key \<Rightarrow> n + position key keys)"

fun member_gates :: "(lim_ref \<Rightarrow> nat) \<Rightarrow> nat \<Rightarrow> member_handler \<Rightarrow> (nat \<times> nat) list" where
  "member_gates pos p (ProxyHandler u tok) = []"
| "member_gates pos p (LimiterHandler w d ref h) = (pos ref, p) # member_gates pos p h"
| "member_gates pos p (HostCounter key h) = (pos (HostLim key), p) # member_gates pos p h"

fun chain_providers :: "(lim_ref \<Rightarrow> nat) \<Rightarrow> nat \<Rightarrow> nat \<Rightarrow> 't provider_tree list \<Rightarrow> 't chain_provider list" where
  "chain_providers pos p off [] = []"
| "chain_providers pos p off (tree # trees) =
     \<lparr>cp_outer = map (\<lambda>j. (off + j, 0)) [0 ..< length (own_gates tree)],
      cp_pool = inner_pool (pt_handler tree),
      cp_inner = map (member_gates pos p) (pp_handlers (pt_parts tree))\<rparr>
     # chain_providers pos (Suc p) (off + length (own_gates tree)) trees"

definition lim_gates :: "heap \<Rightarrow> 't provider_tree list \<Rightarrow> gate list" where
  "lim_gates hp trees =
     map (\<lambda>k. GLimiter (wrapper_at trees (MemberLim k)) (hp_limiters hp ! k)) [0 ..< length (hp_limiters hp)] @
     map (\<lambda>key. host_gate (wrapper_at trees (HostLim key)) (fst (the (hp_hosts hp key)))) (host_keys trees)"

definition trees_chain :: "heap \<Rightarrow> 't provider_tree list \<Rightarrow> 't chain" where
  "trees_chain hp trees =
     \<lparr>ch_gates = lim_gates hp trees @ concat (map own_gates trees),
      ch_providers = chain_providers (lim_pos (length (hp_limiters hp)) (host_keys trees)) 0
        (length (lim_gates hp trees)) trees,
      ch_reqs = []\<rparr>"

definition system_chain :: "string list \<Rightarrow> 't handler_tree \<Rightarrow> 't chain" where
  "system_chain names t = trees_chain (ht_heap t) (map (\<lambda>name. the (ht_providers t name)) names)"

section \<open>Every reference is a gate of the chain\<close>

lemma position_less: "x \<in> set xs \<Longrightarrow> position x xs < length xs"
  by (induction xs) auto

lemma nth_position: "x \<in> set xs \<Longrightarrow> xs ! position x xs = x"
  by (induction xs) auto

lemma length_lim_gates: "length (lim_gates hp trees) = length (hp_limiters hp) + length (host_keys trees)"
  by (simp add: lim_gates_def)

lemma lim_gates_member: "k < length (hp_limiters hp) \<Longrightarrow>
    lim_gates hp trees ! k = GLimiter (wrapper_at trees (MemberLim k)) (hp_limiters hp ! k)"
  by (simp add: lim_gates_def nth_append)

lemma lim_gates_host:
  assumes "key \<in> set (host_keys trees)"
  shows "lim_gates hp trees ! (length (hp_limiters hp) + position key (host_keys trees)) =
    host_gate (wrapper_at trees (HostLim key)) (fst (the (hp_hosts hp key)))"
  using position_less [OF assms] nth_position [OF assms] by (simp add: lim_gates_def nth_append)

lemma host_keys_mem: "tree \<in> set trees \<Longrightarrow> h \<in> set (pp_handlers (pt_parts tree)) \<Longrightarrow> host_of h = Some key \<Longrightarrow>
    key \<in> set (host_keys trees)"
  by (force simp: host_keys_def List.map_filter_def)

lemma chain_providers_length [simp]: "length (chain_providers pos p off trees) = length trees"
  by (induction trees arbitrary: p off) auto

lemma chain_providers_nth:
  "i < length trees \<Longrightarrow> cp_inner (chain_providers pos p off trees ! i) =
     map (member_gates pos (p + i)) (pp_handlers (pt_parts (trees ! i)))"
  by (induction trees arbitrary: p off i) (auto simp: nth_Cons')

lemma own_gates_not_limiters: "g \<in> set (own_gates tree) \<Longrightarrow> \<not> is_limiter g"
  by (auto simp: own_gates_def split: option.splits)

lemma chain_providers_outer:
  assumes "pv \<in> set (chain_providers pos p (length gs) trees)" "(g, k) \<in> set (cp_outer pv)"
  shows "g < length (gs @ concat (map own_gates trees)) \<and> \<not> is_limiter ((gs @ concat (map own_gates trees)) ! g)"
  using assms
proof (induction trees arbitrary: p gs)
  case (Cons tree trees)
  from Cons.prems(1) consider
      (here) "(g, k) \<in> set (map (\<lambda>j. (length gs + j, 0)) [0 ..< length (own_gates tree)])"
    | (there) "pv \<in> set (chain_providers pos (Suc p) (length (gs @ own_gates tree)) trees)"
    using Cons.prems(2) by auto
  then show ?case
  proof cases
    case here
    then obtain j where "g = length gs + j" "j < length (own_gates tree)" by auto
    then show ?thesis using own_gates_not_limiters [OF nth_mem] by (auto simp: nth_append)
  qed (use Cons.IH [of "Suc p" "gs @ own_gates tree"] Cons.prems(2) in simp)
qed simp

text \<open>What the semaphores of a handler have to be for the chain to be well-formed.\<close>

definition refs_ok :: "heap \<Rightarrow> string list \<Rightarrow> member_handler \<Rightarrow> bool" where
  "refs_ok hp keys h \<longleftrightarrow> (\<forall>(g, k) \<in> set (member_gates (lim_pos (length (hp_limiters hp)) keys) 0 h).
     g < length (hp_limiters hp) + length keys)"

lemma member_gates_fst: "fst ` set (member_gates pos p h) = fst ` set (member_gates pos q h)"
  by (induction h) auto

lemma trees_chain_start:
  assumes "\<forall>tree \<in> set trees. \<forall>h \<in> set (pp_handlers (pt_parts tree)). refs_ok hp (host_keys trees) h"
  shows "chain_start (trees_chain hp trees)"
proof -
  let ?s = "trees_chain hp trees" and ?pos = "lim_pos (length (hp_limiters hp)) (host_keys trees)"
  have "g < length (ch_gates ?s)"
    if "pv \<in> set (ch_providers ?s)" "gates \<in> set (cp_inner pv)" "(g, k) \<in> set gates" for pv gates g k
  proof -
    from that(1) obtain i where i: "i < length trees" "pv = ch_providers ?s ! i"
      by (auto simp: in_set_conv_nth trees_chain_def)
    with that(2) obtain h where h: "h \<in> set (pp_handlers (pt_parts (trees ! i)))" "gates = member_gates ?pos i h"
      by (auto simp: trees_chain_def chain_providers_nth)
    then have "g \<in> fst ` set (member_gates ?pos 0 h)" using that(3) member_gates_fst [of ?pos i h 0] by force
    then show ?thesis using assms h(1) i(1) nth_mem [of i trees]
      by (fastforce simp: refs_ok_def trees_chain_def length_lim_gates)
  qed
  then show ?thesis
    unfolding chain_start_def provider_ok_def
    using chain_providers_outer [of _ ?pos 0 "lim_gates hp trees" trees] by (auto simp: trees_chain_def)
qed

section \<open>The tree of a configuration\<close>

lemma member_chain_gates:
  "member_gates pos p (member_chain name tok limits up u n) =
     (pos (HostLim (UpstreamHostKey u)), p) # (case n of None \<Rightarrow> [] | Some k \<Rightarrow> [(pos (MemberLim k), p)])"
  "host_of (member_chain name tok limits up u n) = Some (UpstreamHostKey u)"
  by (auto simp: member_chain_def host_wrap_handler_def Let_def split: option.splits)

lemma host_gate_spec:
  "map_of limits key = Some l \<Longrightarrow> 0 < hl_MaxConcurrentRequests l \<Longrightarrow>
     host_gate ws (fst (host_spec limits key)) = GLimiter ws (limiter_start (nat (hl_MaxConcurrentRequests l)))"
  by (simp add: host_gate_def host_spec_def NewHostLimiter_def)

text \<open>What is known of member \<open>m\<close> of a provider of the finished tree.\<close>

lemma built_member:
  assumes "CreateRouterFromConfig url_parse cancelled registers now cfg = Inr t" "ht_providers t name = Some tree"
    and "m < length (pp_handlers (pt_parts tree))" "up = UpstreamList (provider_of cfg name) ! m"
    and "h = pp_handlers (pt_parts tree) ! m"
  obtains u n where "url_parse (up_Upstream up) = Some u"
    "h = member_chain name (cfg_DefaultToken cfg) (cfg_UpstreamHostLimits cfg) up u n"
    "hp_hosts (ht_heap t) (UpstreamHostKey u) = Some (host_spec (cfg_UpstreamHostLimits cfg) (UpstreamHostKey u))"
    "case n of None \<Rightarrow> up_MaxConcurrentRequests up \<le> 0
     | Some k \<Rightarrow> k < length (hp_limiters (ht_heap t)) \<and> 0 < up_MaxConcurrentRequests up \<and>
         hp_limiters (ht_heap t) ! k = limiter_start (nat (up_MaxConcurrentRequests up))"
  using list_all2_nthD2 [OF wired_members(1) [OF assms(1,2)] assms(3)] unfolding assms(4,5) by blast

lemma built_chain_start:
  assumes "CreateRouterFromConfig url_parse cancelled registers now cfg = Inr t" "set names \<subseteq> dom (ht_providers t)"
  shows "chain_start (system_chain names t)"
  unfolding system_chain_def
proof (rule trees_chain_start, intro ballI)
  let ?trees = "map (\<lambda>name. the (ht_providers t name)) names"
  fix tree h assume th: "tree \<in> set ?trees" "h \<in> set (pp_handlers (pt_parts tree))"
  then obtain name where name: "ht_providers t name = Some tree" using assms(2) by (auto simp: dom_def)
  obtain m where m: "m < length (pp_handlers (pt_parts tree))" "h = pp_handlers (pt_parts tree) ! m"
    using th(2) by (auto simp: in_set_conv_nth)
  let ?up = "UpstreamList (provider_of cfg name) ! m"
  obtain u n where h: "h = member_chain name (cfg_DefaultToken cfg) (cfg_UpstreamHostLimits cfg) ?up u n"
    and n: "case n of None \<Rightarrow> up_MaxConcurrentRequests ?up \<le> 0
     | Some k \<Rightarrow> k < length (hp_limiters (ht_heap t)) \<and> 0 < up_MaxConcurrentRequests ?up \<and>
         hp_limiters (ht_heap t) ! k = limiter_start (nat (up_MaxConcurrentRequests ?up))"
    by (rule built_member [OF assms(1) name m(1) refl m(2)])
  have "host_of h = Some (UpstreamHostKey u)" by (simp add: h member_chain_gates)
  then have "UpstreamHostKey u \<in> set (host_keys ?trees)" using host_keys_mem [OF th] by blast
  note pos = position_less [OF this]
  show "refs_ok (ht_heap t) (host_keys ?trees) h"
    unfolding refs_ok_def h member_chain_gates
    using pos n by (cases n) (simp_all add: lim_pos_def trans_less_add1)
qed

lemma map_update_same: "f v = f (xs ! i) \<Longrightarrow> map f (xs[i := v]) = map f xs"
  by (metis list_update_id map_update)

lemma same_providers [simp]:
  "ch_providers (settle r now q gs s) = ch_providers s" "ch_providers (set_creq r q s) = ch_providers s"
  by (simp_all add: settle_def set_creq_def Let_def split: list.splits prod.splits)

text \<open>The pools move, the gates around them and around their members stay.\<close>

lemma chain_select_ways:
  "chain_select api r w s = Some s' \<Longrightarrow> map cp_inner (ch_providers s') = map cp_inner (ch_providers s)"
  by (auto simp: chain_select_def Let_def map_update_same split: if_splits prod.splits sum.splits)

lemma chain_back_providers: "chain_back r now s = Some s' \<Longrightarrow> ch_providers s' = ch_providers s"
  by (auto simp: chain_back_def Let_def split: if_splits chain_mode.splits list.splits prod.splits)

lemma chain_moves_providers:
  "chain_arrive p sid n s = Some s' \<Longrightarrow> ch_providers s' = ch_providers s"
  "chain_enter r gone now s = Some s' \<Longrightarrow> ch_providers s' = ch_providers s"
  "chain_own r e now s = Some s' \<Longrightarrow> ch_providers s' = ch_providers s"
  "chain_leave here who panics r s = Some s' \<Longrightarrow> ch_providers s' = ch_providers s"
  "chain_write r c now s = Some s' \<Longrightarrow> ch_providers s' = ch_providers s"
      apply (auto simp: chain_arrive_def split: if_splits)[1]
     apply (auto simp: chain_enter_def Let_def split: if_splits list.splits prod.splits option.splits)[1]
    apply (auto simp: chain_own_def Let_def split: if_splits list.splits prod.splits option.splits)[1]
   apply (auto simp: chain_leave_def Let_def split: if_splits)[1]
  apply (auto simp: chain_write_def Let_def split: if_splits)[1]
  done

lemma chain_step_ways:
  "chain_step api s e = Some s' \<Longrightarrow> map cp_inner (ch_providers s') = map cp_inner (ch_providers s)"
  by (cases e) (auto simp: chain_step_def dest!: chain_moves_providers chain_select_ways chain_back_providers)

lemma chain_run_ways:
  "run_steps (chain_step api) s es = Some s' \<Longrightarrow> map cp_inner (ch_providers s') = map cp_inner (ch_providers s)"
  by (induction es arbitrary: s) (auto split: option.splits dest: chain_step_ways)

text \<open>The way to a member of the running system leads through the budget of its host and its own limiter.\<close>

lemma built_way:
  assumes "CreateRouterFromConfig url_parse cancelled registers now cfg = Inr t" "set names \<subseteq> dom (ht_providers t)"
    and run: "run_steps (chain_step api) (system_chain names t) es = Some s"
    and pm: "p < length names" "m < length (UpstreamList (provider_of cfg (names ! p)))"
    and up: "up = UpstreamList (provider_of cfg (names ! p)) ! m"
  obtains u g n where "url_parse (up_Upstream up) = Some u"
    "g = length (hp_limiters (ht_heap t)) + position (UpstreamHostKey u)
       (host_keys (map (\<lambda>name. the (ht_providers t name)) names))"
    "g \<in> set (way (ch_providers s ! p) (Some m))" "g < length (ch_gates (system_chain names t))"
    "\<exists>ws. ch_gates (system_chain names t) ! g = host_gate ws (fst (host_spec (cfg_UpstreamHostLimits cfg) (UpstreamHostKey u)))"
    "case n of None \<Rightarrow> up_MaxConcurrentRequests up \<le> 0
     | Some k \<Rightarrow> k \<in> set (way (ch_providers s ! p) (Some m)) \<and> k < length (ch_gates (system_chain names t)) \<and>
         (\<exists>ws. ch_gates (system_chain names t) ! k = GLimiter ws (limiter_start (nat (up_MaxConcurrentRequests up))))"
proof -
  define trees where "trees = map (\<lambda>name. the (ht_providers t name)) names"
  let ?ls = "hp_limiters (ht_heap t)" and ?tree = "trees ! p"
  let ?h = "pp_handlers (pt_parts ?tree) ! m" and ?pos = "lim_pos (length ?ls) (host_keys trees)"
  have tree: "ht_providers t (names ! p) = Some ?tree" "?tree \<in> set trees"
    using subsetD [OF assms(2) nth_mem [OF pm(1)]] pm(1) by (auto simp: trees_def)
  have m: "m < length (pp_handlers (pt_parts ?tree))"
    using list_all2_lengthD [OF wired_members(1) [OF assms(1) tree(1)]] pm(2) by simp
  obtain u n where u: "url_parse (up_Upstream up) = Some u"
    and h: "?h = member_chain (names ! p) (cfg_DefaultToken cfg) (cfg_UpstreamHostLimits cfg) up u n"
    and host: "hp_hosts (ht_heap t) (UpstreamHostKey u) = Some (host_spec (cfg_UpstreamHostLimits cfg) (UpstreamHostKey u))"
    and n: "case n of None \<Rightarrow> up_MaxConcurrentRequests up \<le> 0
     | Some k \<Rightarrow> k < length ?ls \<and> 0 < up_MaxConcurrentRequests up \<and>
         ?ls ! k = limiter_start (nat (up_MaxConcurrentRequests up))"
    by (rule built_member [OF assms(1) tree(1) m up refl])
  have key: "UpstreamHostKey u \<in> set (host_keys trees)"
    using host_keys_mem [OF tree(2) nth_mem [OF m]] h by (simp add: member_chain_gates)
  have inner: "cp_inner (ch_providers s ! p) = map (member_gates ?pos p) (pp_handlers (pt_parts ?tree))"
  proof -
    have "map cp_inner (ch_providers s) ! p = map cp_inner (ch_providers (system_chain names t)) ! p"
      using chain_run_ways [OF run] by simp
    moreover have "length (ch_providers s) = length names"
      using arg_cong [OF chain_run_ways [OF run], of length] by (simp add: system_chain_def trees_chain_def)
    ultimately show ?thesis
      using pm(1) by (simp add: system_chain_def trees_chain_def chain_providers_nth trees_def)
  qed
  have way: "set (way (ch_providers s ! p) (Some m)) \<supseteq> fst ` set (member_gates ?pos p ?h)"
    using m by (auto simp: way_def inner)
  have gates: "ch_gates (system_chain names t) = lim_gates (ht_heap t) trees @ concat (map own_gates trees)"
    by (simp add: system_chain_def trees_chain_def trees_def)
  show thesis
  proof (rule that [of u "length ?ls + position (UpstreamHostKey u) (host_keys trees)" n])
    show "\<exists>ws. ch_gates (system_chain names t) ! (length ?ls + position (UpstreamHostKey u) (host_keys trees)) =
        host_gate ws (fst (host_spec (cfg_UpstreamHostLimits cfg) (UpstreamHostKey u)))"
      using lim_gates_host [OF key, of "ht_heap t"] position_less [OF key] host
      by (auto simp: gates nth_append length_lim_gates)
    show "case n of None \<Rightarrow> up_MaxConcurrentRequests up \<le> 0
     | Some k \<Rightarrow> k \<in> set (way (ch_providers s ! p) (Some m)) \<and> k < length (ch_gates (system_chain names t)) \<and>
         (\<exists>ws. ch_gates (system_chain names t) ! k = GLimiter ws (limiter_start (nat (up_MaxConcurrentRequests up))))"
      using n way lim_gates_member [of _ "ht_heap t" trees]
      by (auto simp: h member_chain_gates lim_pos_def gates nth_append length_lim_gates split: option.splits)
    show "length ?ls + position (UpstreamHostKey u) (host_keys trees) \<in> set (way (ch_providers s ! p) (Some m))"
      using way by (simp add: h member_chain_gates lim_pos_def)
  qed (use u position_less [OF key] in \<open>simp_all add: gates length_lim_gates trees_def\<close>)
qed

section \<open>Configured limits\<close>

text \<open>The upstream a request is at, by the configuration.\<close>

definition chosen_upstream :: "'t config \<Rightarrow> string list \<Rightarrow> chain_req \<Rightarrow> 't upstream" where
  "chosen_upstream cfg names q = UpstreamList (provider_of cfg (names ! cr_provider q)) ! the (cr_member q)"

definition at_upstreams :: "'t chain \<Rightarrow> nat set" where
  "at_upstreams s = {r. r < length (ch_reqs s) \<and> at_upstream (ch_gates s) (ch_reqs s ! r)}"

lemma finite_at_upstreams [simp]: "finite (at_upstreams s)"
  by (simp add: at_upstreams_def)

text \<open>A request at an upstream has a provider and one of its upstreams.\<close>

lemma at_upstreams_chosen:
  assumes "CreateRouterFromConfig url_parse cancelled registers now cfg = Inr t" "set names \<subseteq> dom (ht_providers t)"
    and "run_steps (chain_step api) (system_chain names t) es = Some s" "r \<in> at_upstreams s"
  shows "cr_provider (ch_reqs s ! r) < length names" "cr_member (ch_reqs s ! r) \<noteq> None"
    "the (cr_member (ch_reqs s ! r)) < length (UpstreamList (provider_of cfg (names ! cr_provider (ch_reqs s ! r))))"
proof -
  let ?q = "ch_reqs s ! r" and ?s0 = "system_chain names t"
  have inner: "map cp_inner (ch_providers s) = map cp_inner (ch_providers ?s0)"
    using chain_run_ways [OF assms(3)] .
  have len: "length (ch_providers s) = length names"
    using arg_cong [OF inner, of length] by (simp add: system_chain_def trees_chain_def)
  note ok = chain_reqD [OF chain.reachable_inv [OF built_chain_start [OF assms(1,2)] assms(3)], of r]
  show p: "cr_provider ?q < length names" using ok(1) assms(4) len by (simp add: at_upstreams_def)
  show mem: "cr_member ?q \<noteq> None" using assms(4) by (simp add: at_upstreams_def at_upstream_def)
  from p subsetD [OF assms(2) nth_mem] obtain tree where tree: "ht_providers t (names ! cr_provider ?q) = Some tree"
    by blast
  have "cp_inner (ch_providers s ! cr_provider ?q) = cp_inner (ch_providers ?s0 ! cr_provider ?q)"
    using arg_cong [OF inner, of "\<lambda>xs. xs ! cr_provider ?q"] p len
    by (simp add: system_chain_def trees_chain_def)
  then have "length (cp_inner (ch_providers s ! cr_provider ?q)) = length (pp_handlers (pt_parts tree))"
    using p tree by (simp add: system_chain_def trees_chain_def chain_providers_nth)
  then show "the (cr_member ?q) < length (UpstreamList (provider_of cfg (names ! cr_provider ?q)))"
    using ok(4) assms(4) mem list_all2_lengthD [OF wired_members(1) [OF assms(1) tree]]
    by (auto simp: at_upstreams_def)
qed

lemma calls_within:
  assumes "chain_start s" "run_steps (chain_step api) s es = Some s'"
    and "g < length (ch_gates s)" "ch_gates s ! g = GLimiter ws (limiter_start cap)"
    and "\<forall>r \<in> R. r \<in> at_upstreams s' \<and>
      g \<in> set (way (ch_providers s' ! cr_provider (ch_reqs s' ! r)) (cr_member (ch_reqs s' ! r)))"
  shows "card R \<le> cap"
proof -
  have "R \<subseteq> upstream_reqs s' g" using assms(5) by (auto simp: upstream_reqs_def at_upstreams_def)
  then have "card R \<le> card (upstream_reqs s' g)"
    by (rule card_mono [rotated]) (simp add: upstream_reqs_def)
  then show ?thesis using upstream_calls_within_limits [OF assms(1-4)] by simp
qed

lemma host_limit_holds:
  assumes "CreateRouterFromConfig url_parse cancelled registers now cfg = Inr t" "set names \<subseteq> dom (ht_providers t)"
    and "run_steps (chain_step api) (system_chain names t) es = Some s"
    and l: "map_of (cfg_UpstreamHostLimits cfg) key = Some l" "0 < hl_MaxConcurrentRequests l"
  shows "int (card {r \<in> at_upstreams s. map_option UpstreamHostKey
      (url_parse (up_Upstream (chosen_upstream cfg names (ch_reqs s ! r)))) = Some key}) \<le> hl_MaxConcurrentRequests l"
    (is "int (card ?R) \<le> _")
proof (cases "?R = {}")
  case True
  then show ?thesis using l(2) by (simp only: True card.empty)
next
  case False
  let ?s0 = "system_chain names t"
  let ?g = "length (hp_limiters (ht_heap t)) + position key (host_keys (map (\<lambda>name. the (ht_providers t name)) names))"
  note at = at_upstreams_chosen [OF assms(1-3)]
  have g: "?g \<in> set (way (ch_providers s ! cr_provider (ch_reqs s ! r)) (cr_member (ch_reqs s ! r))) \<and>
      ?g < length (ch_gates ?s0) \<and>
      (\<exists>ws. ch_gates ?s0 ! ?g = GLimiter ws (limiter_start (nat (hl_MaxConcurrentRequests l))))"
    if "r \<in> ?R" for r
    by (rule built_way [OF assms(1-3) _ _ refl, of "cr_provider (ch_reqs s ! r)" "the (cr_member (ch_reqs s ! r))"])
       (use that at [of r] host_gate_spec [OF l] in \<open>auto simp: chosen_upstream_def\<close>)
  from False obtain r where "r \<in> ?R" by blast
  with g [of r] obtain ws where ws: "?g < length (ch_gates ?s0)"
    "ch_gates ?s0 ! ?g = GLimiter ws (limiter_start (nat (hl_MaxConcurrentRequests l)))" by blast
  have "card ?R \<le> nat (hl_MaxConcurrentRequests l)"
    by (rule calls_within [OF built_chain_start [OF assms(1,2)] assms(3) ws]) (use g in auto)
  then show ?thesis using l(2) by linarith
qed

lemma member_limit_holds:
  assumes "CreateRouterFromConfig url_parse cancelled registers now cfg = Inr t" "set names \<subseteq> dom (ht_providers t)"
    and "run_steps (chain_step api) (system_chain names t) es = Some s"
    and "p < length names" "m < length (UpstreamList (provider_of cfg (names ! p)))"
    and up: "up = UpstreamList (provider_of cfg (names ! p)) ! m" "0 < up_MaxConcurrentRequests up"
  shows "int (card {r \<in> at_upstreams s. cr_provider (ch_reqs s ! r) = p \<and> cr_member (ch_reqs s ! r) = Some m})
    \<le> up_MaxConcurrentRequests up"
    (is "int (card ?R) \<le> _")
proof (rule built_way [OF assms(1-6)])
  let ?s0 = "system_chain names t"
  fix n assume "case n of None \<Rightarrow> up_MaxConcurrentRequests up \<le> 0
   | Some k \<Rightarrow> k \<in> set (way (ch_providers s ! p) (Some m)) \<and> k < length (ch_gates ?s0) \<and>
       (\<exists>ws. ch_gates ?s0 ! k = GLimiter ws (limiter_start (nat (up_MaxConcurrentRequests up))))"
  with up(2) obtain k ws where k: "k < length (ch_gates ?s0)"
      "ch_gates ?s0 ! k = GLimiter ws (limiter_start (nat (up_MaxConcurrentRequests up)))"
      "k \<in> set (way (ch_providers s ! p) (Some m))" by (cases n) auto
  have "card ?R \<le> nat (up_MaxConcurrentRequests up)"
    by (rule calls_within [OF built_chain_start [OF assms(1,2)] assms(3) k(1,2)]) (use k(3) in auto)
  then show ?thesis using up(2) by linarith
qed

text \<open>
  C3. What the configuration promises: however the requests of all providers interleave, a host is asked by no
  more requests at a time than its budget, counting every provider and every member with that host, and an
  upstream by no more than its own limit.
\<close>

theorem configured_limits_hold:
  assumes "CreateRouterFromConfig url_parse cancelled registers now cfg = Inr t"
    and "names = remdups (providerKeys cancelled cfg)"
    and "run_steps (chain_step api) (system_chain names t) es = Some s"
  shows "(\<forall>key l. map_of (cfg_UpstreamHostLimits cfg) key = Some l \<and> 0 < hl_MaxConcurrentRequests l \<longrightarrow>
        int (card {r \<in> at_upstreams s. map_option UpstreamHostKey
          (url_parse (up_Upstream (chosen_upstream cfg names (ch_reqs s ! r)))) = Some key})
        \<le> hl_MaxConcurrentRequests l) \<and>
    (\<forall>p < length names. \<forall>m < length (UpstreamList (provider_of cfg (names ! p))).
        let up = UpstreamList (provider_of cfg (names ! p)) ! m in 0 < up_MaxConcurrentRequests up \<longrightarrow>
        int (card {r \<in> at_upstreams s. cr_provider (ch_reqs s ! r) = p \<and> cr_member (ch_reqs s ! r) = Some m})
        \<le> up_MaxConcurrentRequests up)"
proof -
  have dom: "set names \<subseteq> dom (ht_providers t)"
    by (rule CreateRouter_Inr [OF assms(1)]) (simp add: assms(2))
  show ?thesis
    using host_limit_holds [OF assms(1) dom assms(3)] member_limit_holds [OF assms(1) dom assms(3)]
    unfolding Let_def by blast
qed

definition ex_limited :: "ex_tod config" where
  "ex_limited = ex_validated\<lparr>cfg_UpstreamHostLimits :=
     [(''h'', \<lparr>hl_MaxConcurrentRequests = 1, hl_MaxConcurrentWaitSeconds = 0\<rparr>)]\<rparr>"

definition ex_tree :: "ex_tod handler_tree" where
  "ex_tree = projr (CreateRouterFromConfig ex_url False True 0 ex_limited)"

definition ex_system_run :: "chain_event list" where
  "ex_system_run = [ChArrive 1 [] 10, ChSelect 0 ex_world, ChEnter 0 False 0, ChArrive 1 [] 10, ChSelect 1 ex_world,
     ChEnter 1 False 0]"

definition ex_system :: "ex_tod chain" where
  "ex_system = the (run_steps (chain_step ex_api) (system_chain [''a'', ''b''] ex_tree) ex_system_run)"

lemma ex_limits: "map_of (cfg_UpstreamHostLimits ex_limited) ''h'' =
    Some \<lparr>hl_MaxConcurrentRequests = 1, hl_MaxConcurrentWaitSeconds = 0\<rparr>"
  by (simp add: ex_limited_def)

lemma ex_tree_built: "CreateRouterFromConfig ex_url False True 0 ex_limited = Inr ex_tree"
proof -
  have "case CreateRouterFromConfig ex_url False True 0 ex_limited of Inl e \<Rightarrow> False | Inr t \<Rightarrow> True" by code_simp
  then show ?thesis by (auto simp: ex_tree_def split: sum.splits)
qed

lemma ex_system_runs:
  "run_steps (chain_step ex_api) (system_chain [''a'', ''b''] ex_tree) ex_system_run = Some ex_system"
proof -
  have "case run_steps (chain_step ex_api) (system_chain [''a'', ''b''] ex_tree) ex_system_run of
      None \<Rightarrow> False | Some s \<Rightarrow> True" by code_simp
  then show ?thesis by (auto simp: ex_system_def split: option.splits)
qed

theorem configured_limits_hold_witness:
  "UpstreamHostKey (the (ex_url ''u'')) = ''h'' \<and>
   card {r \<in> at_upstreams ex_system. map_option UpstreamHostKey
     (ex_url (up_Upstream (chosen_upstream ex_limited [''a'', ''b''] (ch_reqs ex_system ! r)))) = Some ''h''} \<le> 1"
proof -
  have "[''a'', ''b''] = remdups (providerKeys False ex_limited)" by code_simp
  from configured_limits_hold [OF ex_tree_built this ex_system_runs]
  have "int (card {r \<in> at_upstreams ex_system. map_option UpstreamHostKey
     (ex_url (up_Upstream (chosen_upstream ex_limited [''a'', ''b''] (ch_reqs ex_system ! r)))) = Some ''h''}) \<le> 1"
    using ex_limits by fastforce
  moreover have "UpstreamHostKey (the (ex_url ''u'')) = ''h''" by code_simp
  ultimately show ?thesis by simp
qed

end
