(* ===== verification/EnvRefs.thy ===== *)
theory EnvRefs
  imports Config
begin

text \<open>
  Loading of \<open>pkg/config.go\<close> and \<open>pkg/cli.go\<close>: expansion of \<open>${NAME}\<close> references
  (\<open>expandEnvRefs\<close>, \<open>resolveEnvRef\<close>), of the home directory (\<open>expandTilde\<close>), the
  search for the configuration directory (\<open>FindConfigDir\<close>, \<open>resolveConfigPath\<close>) and
  \<open>Load\<close>. The process environment is a map, the file system a reading function and a
  directory test; the YAML decoder is a parameter. \<open>filepath.Join\<close> and
  \<open>filepath.Clean\<close> are written out for slash-separated paths.
\<close>

section \<open>Environment references\<close>

datatype env_error = Unterminated nat | InvalidName nat | NotSet string nat

definition env_name_start :: "char \<Rightarrow> bool" where
  "env_name_start c \<longleftrightarrow>
     CHR ''A'' \<le> c \<and> c \<le> CHR ''Z'' \<or> CHR ''a'' \<le> c \<and> c \<le> CHR ''z'' \<or> c = CHR ''_''"

definition envRefNamePattern :: "string \<Rightarrow> bool" where
  "envRefNamePattern name \<longleftrightarrow>
     name \<noteq> [] \<and> env_name_start (hd name) \<and>
     (\<forall>c \<in> set (tl name). env_name_start c \<or> CHR ''0'' \<le> c \<and> c \<le> CHR ''9'')"

definition resolveEnvRef ::
  "(string \<rightharpoonup> string) \<Rightarrow> bytes \<Rightarrow> nat \<Rightarrow> env_error + string \<times> nat" where
  "resolveEnvRef env data i =
     (let tail = drop (i + 2) data;
          name = takeWhile (\<lambda>c. c \<noteq> CHR ''}'') tail;
          j = i + 2 + length name
      in if j = length data then Inl (Unterminated i)
         else if \<not> envRefNamePattern name then Inl (InvalidName i)
         else case env name of
           None \<Rightarrow> Inl (NotSet name i)
         | Some v \<Rightarrow> Inr (v, j + 1))"

lemma resolveEnvRef_next:
  assumes "resolveEnvRef env data i = Inr (v, n)"
  shows "i + 2 < n"
  using assms by (auto simp: resolveEnvRef_def Let_def split: if_splits option.splits)

definition emit :: "string \<Rightarrow> env_error + string \<Rightarrow> env_error + string" where
  "emit s r = map_sum id (\<lambda>out. s @ out) r"

lemma emit_simps [simp]: "emit s (Inl e) = Inl e" "emit s (Inr out) = Inr (s @ out)"
  by (simp_all add: emit_def)

lemma emit_Inl_iff [simp]: "emit s r = Inl e \<longleftrightarrow> r = Inl e"
  by (cases r) auto

lemma emit_Inr_iff: "emit s r = Inr out \<longleftrightarrow> (\<exists>o'. r = Inr o' \<and> out = s @ o')"
  by (cases r) auto

lemma emit_emit [simp]: "emit s (emit t r) = emit (s @ t) r"
  by (cases r) auto

text \<open>The loop of \<open>expandEnvRefs\<close> from byte offset \<open>i\<close> on.\<close>

function expand_loop :: "(string \<rightharpoonup> string) \<Rightarrow> bytes \<Rightarrow> nat \<Rightarrow> env_error + string" where
  "expand_loop env data i =
     (if \<not> i < length data then Inr []
      else if data ! i \<noteq> CHR ''$'' then emit [data ! i] (expand_loop env data (i + 1))
      else if i + 2 < length data \<and> data ! (i + 1) = CHR ''$'' \<and> data ! (i + 2) = CHR ''{''
        then emit ''${'' (expand_loop env data (i + 3))
      else if i + 1 < length data \<and> data ! (i + 1) = CHR ''{''
        then (case resolveEnvRef env data i of
                Inl e \<Rightarrow> Inl e
              | Inr (v, n) \<Rightarrow> emit v (expand_loop env data n))
      else emit ''$'' (expand_loop env data (i + 1)))"
  by pat_completeness auto
termination
  by (relation "measure (\<lambda>(env, data, i). length data - i)")
     (auto dest: resolveEnvRef_next)

declare expand_loop.simps [simp del]

definition expandEnvRefs :: "(string \<rightharpoonup> string) \<Rightarrow> bytes \<Rightarrow> env_error + bytes" where
  "expandEnvRefs env data = expand_loop env data 0"

section \<open>Paths\<close>

fun clean_push :: "bool \<Rightarrow> string list \<Rightarrow> string list \<Rightarrow> string list" where
  "clean_push rooted stack [] = stack"
| "clean_push rooted stack (c # cs) =
     (if c = [] \<or> c = ''.'' then clean_push rooted stack cs
      else if c = ''..'' then
        (if stack \<noteq> [] \<and> hd stack \<noteq> ''..'' then clean_push rooted (tl stack) cs
         else if rooted then clean_push rooted stack cs
         else clean_push rooted (c # stack) cs)
      else clean_push rooted (c # stack) cs)"

fun join_slash :: "string list \<Rightarrow> string" where
  "join_slash [] = []"
| "join_slash [c] = c"
| "join_slash (c # cs) = c @ ''/'' @ join_slash cs"

definition filepath_Clean :: "string \<Rightarrow> string" where
  "filepath_Clean p =
     (if p = [] then ''.''
      else
        (let rooted = (hd p = CHR ''/'');
             out = (if rooted then ''/'' else []) @
                   join_slash (rev (clean_push rooted [] (split_char (CHR ''/'') p)))
         in if out = [] then ''.'' else out))"

definition filepath_Join :: "string list \<Rightarrow> string" where
  "filepath_Join elems =
     (let es = filter (\<lambda>e. e \<noteq> []) elems
      in if es = [] then [] else filepath_Clean (join_slash es))"

text \<open>The home directory is \<open>None\<close> where \<open>os.UserHomeDir\<close> fails.\<close>

definition expandTilde :: "string option \<Rightarrow> string \<Rightarrow> string option" where
  "expandTilde home p =
     (if \<not> has_prefix p ''~/'' \<and> p \<noteq> ''~'' then Some p
      else case home of
        None \<Rightarrow> None
      | Some h \<Rightarrow> (if p = ''~'' then Some h else Some (filepath_Join [h, drop 2 p])))"

definition findConfigDirFromHome :: "(string \<Rightarrow> bool) \<Rightarrow> string \<Rightarrow> string \<Rightarrow> string" where
  "findConfigDirFromHome is_dir homeDir toolName =
     (let xdgPath = filepath_Join [homeDir, ''.config'', toolName];
          legacyPath = filepath_Join [homeDir, ''.'' @ toolName]
      in if is_dir xdgPath then xdgPath
         else if is_dir legacyPath then legacyPath
         else xdgPath)"

definition FindConfigDir :: "string option \<Rightarrow> (string \<Rightarrow> bool) \<Rightarrow> string \<Rightarrow> string" where
  "FindConfigDir home is_dir toolName =
     (case home of
        None \<Rightarrow> filepath_Join [''.config'', toolName]
      | Some homeDir \<Rightarrow> findConfigDirFromHome is_dir homeDir toolName)"

definition resolveConfigPath :: "string option \<Rightarrow> (string \<Rightarrow> bool) \<Rightarrow> string \<Rightarrow> string" where
  "resolveConfigPath home is_dir explicit =
     (if explicit \<noteq> [] then explicit
      else filepath_Join [FindConfigDir home is_dir ''claude-code-router'', ''config.yaml''])"

section \<open>Load\<close>

datatype load_error =
    ExpandPath | ReadFile | ExpandEnv env_error | ParseYaml | Invalid config_error

definition Load :: "'t time_api \<Rightarrow> bool \<Rightarrow> string option \<Rightarrow> (string \<rightharpoonup> bytes) \<Rightarrow>
    (string \<rightharpoonup> string) \<Rightarrow> (bytes \<Rightarrow> 't config option) \<Rightarrow> string \<Rightarrow>
    load_error + 't config \<times> (string \<times> string) list" where
  "Load api cancelled home read_file env unmarshal rawPath =
     (case expandTilde home rawPath of
        None \<Rightarrow> Inl ExpandPath
      | Some expanded \<Rightarrow>
        (case read_file expanded of
           None \<Rightarrow> Inl ReadFile
         | Some raw \<Rightarrow>
           (case expandEnvRefs env raw of
              Inl e \<Rightarrow> Inl (ExpandEnv e)
            | Inr data \<Rightarrow>
              (case unmarshal data of
                 None \<Rightarrow> Inl ParseYaml
               | Some c \<Rightarrow>
                 (case Validate api cancelled c of
                    Inl e \<Rightarrow> Inl (Invalid e)
                  | Inr res \<Rightarrow> Inr res)))))"

section \<open>Expansion on the remaining text\<close>

text \<open>The same loop on the suffix that starts at offset \<open>k\<close>, for proofs.\<close>

function expand_text :: "(string \<rightharpoonup> string) \<Rightarrow> nat \<Rightarrow> string \<Rightarrow> env_error + string" where
  "expand_text env k s =
     (case s of
        [] \<Rightarrow> Inr []
      | c # s1 \<Rightarrow>
          (if c \<noteq> CHR ''$'' then emit [c] (expand_text env (k + 1) s1)
           else if has_prefix s1 ''${'' then emit ''${'' (expand_text env (k + 3) (drop 2 s1))
           else if has_prefix s1 ''{'' then
             (let name = takeWhile (\<lambda>c. c \<noteq> CHR ''}'') (tl s1)
              in if CHR ''}'' \<notin> set (tl s1) then Inl (Unterminated k)
                 else if \<not> envRefNamePattern name then Inl (InvalidName k)
                 else case env name of
                   None \<Rightarrow> Inl (NotSet name k)
                 | Some v \<Rightarrow> emit v (expand_text env (k + 3 + length name) (drop (length name + 2) s1)))
           else emit ''$'' (expand_text env (k + 1) s1)))"
  by pat_completeness auto
termination
  by (relation "measure (\<lambda>(env, k, s). length s)") auto

declare expand_text.simps [simp del]

lemma expand_text_Nil [simp]: "expand_text env k [] = Inr []"
  by (simp add: expand_text.simps)

lemma expand_text_plain [simp]:
  "c \<noteq> CHR ''$'' \<Longrightarrow> expand_text env k (c # s) = emit [c] (expand_text env (k + 1) s)"
  by (simp add: expand_text.simps [of env k "c # s"])

lemma expand_text_esc:
  "has_prefix s ''${'' \<Longrightarrow>
   expand_text env k (CHR ''$'' # s) = emit ''${'' (expand_text env (k + 3) (drop 2 s))"
  by (subst expand_text.simps) simp

lemma expand_text_bare:
  "\<not> has_prefix s ''${'' \<Longrightarrow> \<not> has_prefix s ''{'' \<Longrightarrow>
   expand_text env k (CHR ''$'' # s) = emit ''$'' (expand_text env (k + 1) s)"
  by (subst expand_text.simps) simp

definition ref_name :: "string \<Rightarrow> string" where
  "ref_name s = takeWhile (\<lambda>c. c \<noteq> CHR ''}'') (tl s)"

lemma expand_text_ref_eq:
  "\<not> has_prefix s ''${'' \<Longrightarrow> has_prefix s ''{'' \<Longrightarrow>
   expand_text env k (CHR ''$'' # s) =
     (if CHR ''}'' \<notin> set (tl s) then Inl (Unterminated k)
      else if \<not> envRefNamePattern (ref_name s) then Inl (InvalidName k)
      else case env (ref_name s) of
        None \<Rightarrow> Inl (NotSet (ref_name s) k)
      | Some v \<Rightarrow> emit v (expand_text env (k + 3 + length (ref_name s))
                          (drop (length (ref_name s) + 2) s)))"
  unfolding ref_name_def by (subst expand_text.simps) (simp add: Let_def)

lemmas expand_text_eqs = expand_text_esc expand_text_bare expand_text_ref_eq

text \<open>The induction over the four kinds of position in the text.\<close>

lemma expand_text_induct [case_names Nil plain esc ref bare]:
  assumes "\<And>k. P k []"
    and "\<And>k c s. c \<noteq> CHR ''$'' \<Longrightarrow> P (k + 1) s \<Longrightarrow> P k (c # s)"
    and "\<And>k s. has_prefix s ''${'' \<Longrightarrow> P (k + 3) (drop 2 s) \<Longrightarrow> P k (CHR ''$'' # s)"
    and "\<And>k s. \<not> has_prefix s ''${'' \<Longrightarrow> has_prefix s ''{'' \<Longrightarrow>
           P (k + 3 + length (ref_name s)) (drop (length (ref_name s) + 2) s) \<Longrightarrow>
           P k (CHR ''$'' # s)"
    and "\<And>k s. \<not> has_prefix s ''${'' \<Longrightarrow> \<not> has_prefix s ''{'' \<Longrightarrow> P (k + 1) s \<Longrightarrow>
           P k (CHR ''$'' # s)"
  shows "P (k::nat) (s::string)"
proof (induction s arbitrary: k rule: length_induct)
  case (1 s)
  then have IH: "\<And>t k. length t < length s \<Longrightarrow> P k t" by blast
  show ?case
  proof (cases s)
    case (Cons c s1)
    then have dr: "P k (drop n s1)" for n k using IH by simp
    then have s1: "P k s1" for k using dr [of _ 0] by simp
    show ?thesis
    proof (cases "c = CHR ''$''")
      case True
      show ?thesis
        unfolding Cons True using assms(3-5) dr s1 by (cases "has_prefix s1 ''${''") blast+
    next
      case False
      then show ?thesis unfolding Cons using assms(2) s1 by blast
    qed
  qed (use assms(1) in simp)
qed

lemma has_prefix_drop_nth:
  assumes "p \<noteq> []"
  shows "has_prefix (drop i xs) p \<longleftrightarrow>
    i + length p \<le> length xs \<and> (\<forall>j < length p. xs ! (i + j) = p ! j)"
proof -
  have "take (length p) (drop i xs) = p \<longleftrightarrow>
    length p \<le> length xs - i \<and> (\<forall>j < length p. drop i xs ! j = p ! j)"
    by (auto simp: list_eq_iff_nth_eq min_def split: if_splits)
  also have "\<dots> \<longleftrightarrow> i + length p \<le> length xs \<and> (\<forall>j < length p. xs ! (i + j) = p ! j)"
    using assms by (cases "i \<le> length xs") auto
  finally show ?thesis by (simp only: has_prefix_def)
qed

lemma takeWhile_full_iff: "length (takeWhile P xs) = length xs \<longleftrightarrow> (\<forall>x \<in> set xs. P x)"
  by (metis takeWhile_eq_all_conv takeWhile_eq_take take_all_iff order_refl length_takeWhile_le)

lemma expand_loop_text: "expand_loop env data i = expand_text env i (drop i data)"
proof (induction env data i rule: expand_loop.induct)
  case (1 env data i)
  show ?case
  proof (cases "i < length data")
    case False
    then show ?thesis by (simp add: expand_loop.simps [of env data i])
  next
    case lt: True
    define s1 where "s1 = drop (i + 1) data"
    have d: "drop i data = data ! i # s1"
      using lt by (simp add: s1_def Cons_nth_drop_Suc)
    have p2: "has_prefix s1 ''${'' \<longleftrightarrow>
        i + 2 < length data \<and> data ! (i + 1) = CHR ''$'' \<and> data ! (i + 2) = CHR ''{''"
      by (auto simp: s1_def has_prefix_drop_nth less_Suc_eq numeral_2_eq_2)
    have p1: "has_prefix s1 ''{'' \<longleftrightarrow> i + 1 < length data \<and> data ! (i + 1) = CHR ''{''"
      by (auto simp: s1_def has_prefix_drop_nth)
    note unf = expand_loop.simps [of env data i]
    consider (plain) "data ! i \<noteq> CHR ''$''"
      | (esc) "data ! i = CHR ''$''" "has_prefix s1 ''${''"
      | (ref) "data ! i = CHR ''$''" "\<not> has_prefix s1 ''${''" "has_prefix s1 ''{''"
      | (bare) "data ! i = CHR ''$''" "\<not> has_prefix s1 ''${''" "\<not> has_prefix s1 ''{''"
      by blast
    then show ?thesis
    proof cases
      case plain
      then show ?thesis
        using "1.IH"(1) lt by (simp add: unf d) (simp add: s1_def)
    next
      case esc
      have "drop 2 s1 = drop (i + 3) data" by (simp add: s1_def numeral_3_eq_3)
      then have "expand_loop env data i = emit ''${'' (expand_text env (i + 3) (drop 2 s1))"
        using "1.IH"(2) lt esc p2 by (simp add: unf)
      then show ?thesis using esc by (simp add: d expand_text_esc)
    next
      case ref
      have tl: "tl s1 = drop (i + 2) data" by (simp add: s1_def tl_drop drop_Suc)
      let ?name = "takeWhile (\<lambda>c. c \<noteq> CHR ''}'') (drop (i + 2) data)"
      have le: "i + 2 \<le> length data" using ref p1 by simp
      have full: "i + 2 + length ?name = length data \<longleftrightarrow> CHR ''}'' \<notin> set (drop (i + 2) data)"
      proof -
        have "i + 2 + length ?name = length data \<longleftrightarrow> length ?name = length (drop (i + 2) data)"
          using le by auto
        also have "\<dots> \<longleftrightarrow> CHR ''}'' \<notin> set (drop (i + 2) data)"
          unfolding takeWhile_full_iff by blast
        finally show ?thesis .
      qed
      have nxt: "drop (length ?name + 2) s1 = drop (i + 2 + length ?name + 1) data"
        by (simp add: s1_def add_ac)
      have res: "resolveEnvRef env data i =
          (if CHR ''}'' \<notin> set (drop (i + 2) data) then Inl (Unterminated i)
           else if \<not> envRefNamePattern ?name then Inl (InvalidName i)
           else case env ?name of None \<Rightarrow> Inl (NotSet ?name i)
             | Some v \<Rightarrow> Inr (v, i + 2 + length ?name + 1))"
        by (simp only: resolveEnvRef_def Let_def full if_cancel)
      have IH: "expand_loop env data n = expand_text env n (drop n data)"
        if "resolveEnvRef env data i = Inr (v, n)" for v n
        using "1.IH"(3) lt ref p1 p2 that by auto
      have step: "expand_loop env data i =
          (case resolveEnvRef env data i of Inl e \<Rightarrow> Inl e
           | Inr (v, n) \<Rightarrow> emit v (expand_text env n (drop n data)))"
        using lt ref p1 p2 IH by (auto simp: unf split: sum.splits)
      have name: "ref_name s1 = ?name" by (simp only: ref_name_def tl)
      have pos: "i + 2 + length ?name + 1 = i + 3 + length ?name" by simp
      show ?thesis
        unfolding step res d ref(1) expand_text_ref_eq [OF ref(2,3)] name tl nxt pos
        by (simp split: option.splits)
    next
      case bare
      have n: "\<not> (i + 2 < length data \<and> data ! (i + 1) = CHR ''$'' \<and> data ! (i + 2) = CHR ''{'')"
        "\<not> (i + 1 < length data \<and> data ! (i + 1) = CHR ''{'')"
        using bare p1 p2 by blast+
      have "expand_loop env data i = emit ''$'' (expand_text env (i + 1) s1)"
        using "1.IH"(4) lt bare(1) n unfolding unf s1_def by presburger
      then show ?thesis unfolding d bare(1) expand_text_bare [OF bare(2,3)] .
    qed
  qed
qed
lemma env_name_no_brace: "envRefNamePattern name \<Longrightarrow> CHR ''}'' \<notin> set name"
proof
  assume e: "envRefNamePattern name" and m: "CHR ''}'' \<in> set name"
  have "\<not> env_name_start (CHR ''}'')" by code_simp
  moreover have "\<not> (CHR ''0'' \<le> CHR ''}'' \<and> CHR ''}'' \<le> CHR ''9'')" by code_simp
  moreover have "CHR ''}'' = hd name \<or> CHR ''}'' \<in> set (tl name)" using m by (cases name) auto
  moreover have "env_name_start (hd name)"
    and "CHR ''}'' \<in> set (tl name) \<longrightarrow>
      env_name_start (CHR ''}'') \<or> CHR ''0'' \<le> CHR ''}'' \<and> CHR ''}'' \<le> CHR ''9''"
    using e unfolding envRefNamePattern_def by blast+
  ultimately show False by metis
qed

lemma expand_text_ref:
  assumes "envRefNamePattern name" and "env name = Some v"
  shows "expand_text env k (''${'' @ name @ ''}'' @ s) =
         emit v (expand_text env (k + 3 + length name) s)"
proof -
  have "\<forall>c \<in> set name. c \<noteq> CHR ''}''" using env_name_no_brace [OF assms(1)] by blast
  then have "ref_name (CHR ''{'' # name @ CHR ''}'' # s) = name"
    by (simp add: ref_name_def takeWhile_append2)
  then show ?thesis
    using assms by (simp add: expand_text_ref_eq has_prefix_def)
qed

lemma emit_Nil [simp]: "emit [] r = r"
  by (cases r) auto

lemma expand_text_append_plain:
  "CHR ''$'' \<notin> set a \<Longrightarrow> expand_text env k (a @ s) = emit a (expand_text env (k + length a) s)"
  by (induction a arbitrary: k) auto

lemma expand_text_offset:
  "expand_text env k s = Inr out \<Longrightarrow> expand_text env k' s = Inr out"
proof (induction k s arbitrary: out k' rule: expand_text_induct)
  case (plain k c s)
  from plain.prems plain.hyps obtain o' where "expand_text env (k + 1) s = Inr o'" "out = c # o'"
    by (auto simp: emit_Inr_iff)
  with plain.IH [of o' "k' + 1"] plain.hyps show ?case by simp
next
  case (esc k s)
  from esc.prems esc.hyps obtain o' where "expand_text env (k + 3) (drop 2 s) = Inr o'" "out = ''${'' @ o'"
    by (auto simp: expand_text_esc emit_Inr_iff)
  with esc.IH [of o' "k' + 3"] esc.hyps show ?case by (simp add: expand_text_esc)
next
  case (ref k s)
  let ?rest = "drop (length (ref_name s) + 2) s"
  have ok: "CHR ''}'' \<in> set (tl s)" "envRefNamePattern (ref_name s)"
    using ref.prems ref.hyps by (auto simp: expand_text_ref_eq split: if_splits)
  then obtain v where v: "env (ref_name s) = Some v"
    using ref.prems ref.hyps by (auto simp: expand_text_ref_eq split: option.splits)
  obtain o' where "expand_text env (k + 3 + length (ref_name s)) ?rest = Inr o'" "out = v @ o'"
    using ref.prems ref.hyps ok v
    by (cases "expand_text env (k + 3 + length (ref_name s)) ?rest") (auto simp: expand_text_ref_eq)
  with ref.IH [of o' "k' + 3 + length (ref_name s)"] ref.hyps ok v
  show ?case by (simp add: expand_text_ref_eq)
next
  case (bare k s)
  from bare.prems bare.hyps obtain o' where "expand_text env (k + 1) s = Inr o'" "out = ''$'' @ o'"
    by (auto simp: expand_text_bare emit_Inr_iff)
  with bare.IH [of o' "k' + 1"] bare.hyps show ?case by (simp add: expand_text_bare)
qed simp

text \<open>Only the set of defined names decides whether and how expansion fails.\<close>

lemma expand_text_error_cong:
  assumes "dom env = dom env'"
  shows "expand_text env k s = Inl e \<Longrightarrow> expand_text env' k s = Inl e"
proof (induction k s arbitrary: e rule: expand_text_induct)
  case (ref k s)
  have same: "env n = None \<longleftrightarrow> env' n = None" for n using assms by (metis domIff)
  show ?case
    using ref same [of "ref_name s"]
    by (auto simp: expand_text_ref_eq split: if_splits option.splits)
qed (auto simp: expand_text_esc expand_text_bare)

text \<open>Writing a text so that expansion gives it back: every \<open>${\<close> becomes \<open>$${\<close>.\<close>

fun escape_refs :: "string \<Rightarrow> string" where
  "escape_refs [] = []"
| "escape_refs (c # s) =
     (if c = CHR ''$'' \<and> has_prefix s ''{'' then ''$$'' @ escape_refs s else c # escape_refs s)"

lemma has_prefix_char: "has_prefix s [c] \<longleftrightarrow> s \<noteq> [] \<and> hd s = c"
  by (cases s) (auto simp: has_prefix_def)

lemma escape_refs_hd: "s \<noteq> [] \<Longrightarrow> escape_refs s \<noteq> [] \<and> hd (escape_refs s) = hd s"
  by (cases s) auto

lemma escape_refs_no_ref:
  "has_prefix (escape_refs s) ''${'' = False"
proof (cases s)
  case (Cons c s1)
  show ?thesis
  proof (cases "c = CHR ''$'' \<and> has_prefix s1 ''{''")
    case False
    then have "\<not> (c = CHR ''$'' \<and> escape_refs s1 \<noteq> [] \<and> hd (escape_refs s1) = CHR ''{'')"
      using escape_refs_hd [of s1] by (cases "s1 = []") (auto simp: has_prefix_char)
    then show ?thesis using Cons False
      by (cases "escape_refs s1") (auto simp: has_prefix_def)
  qed (use Cons in \<open>auto simp: has_prefix_def\<close>)
qed (simp add: has_prefix_def)

lemma expand_escape_text: "expand_text env k (escape_refs s) = Inr s"
proof (induction s arbitrary: k)
  case (Cons c s)
  show ?case
  proof (cases "c = CHR ''$'' \<and> has_prefix s ''{''")
    case True
    then obtain s' where s: "s = CHR ''{'' # s'" by (cases s) (auto simp: has_prefix_char)
    have "expand_text env (k + 2) (escape_refs s) = emit ''{'' (expand_text env (k + 3) (escape_refs s'))"
      by (simp add: s numeral_3_eq_3)
    with Cons.IH [of "k + 2"] have "expand_text env (k + 3) (escape_refs s') = Inr s'"
      by (cases "expand_text env (k + 3) (escape_refs s')") (auto simp: s)
    with True s show ?thesis by (simp add: expand_text_esc has_prefix_def)
  next
    case False
    then show ?thesis
    proof (cases "c = CHR ''$''")
      case True
      with False have "\<not> has_prefix (escape_refs s) ''{''"
        using escape_refs_hd [of s] by (cases "s = []") (auto simp: has_prefix_char)
      with True False Cons.IH [of "k + 1"] escape_refs_no_ref [of s]
      show ?thesis by (simp add: expand_text_bare)
    qed (use Cons.IH [of "k + 1"] in simp)
  qed
qed simp

section \<open>Properties\<close>

text \<open>
  C32. Expansion is a single left-to-right pass: literal text is copied, a reference is
  replaced by the variable's value as it is, and the text after the reference is expanded
  on its own. The inserted value is not scanned again, so a value that itself contains a
  reference is emitted verbatim.
\<close>

theorem expand_reference:
  assumes "CHR ''$'' \<notin> set a" and "envRefNamePattern name" and "env name = Some v"
    and "expandEnvRefs env b = Inr out"
  shows "expandEnvRefs env (a @ ''${'' @ name @ ''}'' @ b) = Inr (a @ v @ out)"
proof -
  have "expand_text env k b = Inr out" for k
    using assms(4) expand_text_offset [of env 0 b out k]
    by (simp add: expandEnvRefs_def expand_loop_text)
  then show ?thesis
    using assms(1) expand_text_ref [where env = env, OF assms(2,3), where s = b and k = "length a"]
    by (simp add: expandEnvRefs_def expand_loop_text expand_text_append_plain)
qed

theorem expand_reference_witness:
  "expandEnvRefs [''T'' \<mapsto> ''${U}''] (''t: '' @ ''${'' @ ''T'' @ ''}'' @ '' $x'') =
     Inr (''t: '' @ ''${U}'' @ '' $x'')"
proof (rule expand_reference)
  show "envRefNamePattern ''T''" by code_simp
  show "expandEnvRefs [''T'' \<mapsto> ''${U}''] '' $x'' = Inr '' $x''"
    by (simp add: expandEnvRefs_def expand_loop_text expand_text_bare has_prefix_def)
qed simp_all

text \<open>
  No error of the expansion depends on a value of the environment: two environments
  that define the same names fail on the same texts with the same error, so the message
  that reaches the log cannot carry a secret.
\<close>

theorem expand_errors_leak_no_value:
  assumes "dom env = dom env'"
  shows "expandEnvRefs env data = Inl e \<longleftrightarrow> expandEnvRefs env' data = Inl e"
  using expand_text_error_cong [OF assms, of 0 data e]
    expand_text_error_cong [OF assms [symmetric], of 0 data e]
  unfolding expandEnvRefs_def expand_loop_text drop0 by blast

theorem expand_errors_leak_no_value_witness:
  "expandEnvRefs [''T'' \<mapsto> ''secret''] ''${X}'' = Inl (NotSet ''X'' 0) \<longleftrightarrow>
   expandEnvRefs [''T'' \<mapsto> ''other''] ''${X}'' = Inl (NotSet ''X'' 0)"
  by (rule expand_errors_leak_no_value) simp

text \<open>
  C33. The escape is faithful: writing every reference opener of a text in its escaped form
  and expanding gives the text back, whatever the environment holds.
\<close>

theorem expand_escape_roundtrip: "expandEnvRefs env (escape_refs text) = Inr text"
  by (simp add: expandEnvRefs_def expand_loop_text expand_escape_text)

end
