(* ===== verification/Journal.thy ===== *)
theory Journal
  imports EnvRefs Router Trace "HOL-Library.List_Lexorder"
begin

text \<open>
  What the program leaves behind of a request: the \<open>[req]\<close> log line of the model router
  (\<open>model-router.go\<close>) and the trace files (\<open>trace.go\<close>, \<open>traceDir\<close> of \<open>factory.go\<close>). The sampler of
  the log lines is not part of the repository and an argument, a function on its state; the text of a
  duration, the JSON of a trace and the reading of the clock in the local time zone are arguments too.
\<close>

section \<open>The log line\<close>

definition req_line :: "string \<Rightarrow> string \<Rightarrow> string \<Rightarrow> string \<Rightarrow> string \<Rightarrow> string \<Rightarrow> int \<Rightarrow> string \<Rightarrow>
    string \<times> string \<Rightarrow> string \<Rightarrow> string" where
  "req_line verb path origModel alias provider member status latency tokens reasonField =
     ''[req] '' @ verb @ '' '' @ path @ '' model='' @ origModel @
     (if alias \<noteq> [] then '' alias='' @ alias else []) @
     '' provider='' @ provider @ ''/'' @ member @ '' status='' @ itoa status @ '' latency='' @ latency @
     '' in='' @ fst tokens @ '' out='' @ snd tokens @ reasonField"

text \<open>The sampler moves when it is asked, and it is asked for a 200 only. A panic passes by the line.\<close>

definition router_log :: "('s \<Rightarrow> bool \<times> 's) \<Rightarrow> (bytes \<Rightarrow> json option) \<Rightarrow> (bytes \<Rightarrow> (bytes \<times> bool) option) \<Rightarrow> int \<Rightarrow>
    string \<Rightarrow> string \<Rightarrow> string \<Rightarrow> string \<Rightarrow> 'a routed \<Rightarrow> response \<Rightarrow> dispatched \<Rightarrow> 's \<Rightarrow> 's \<times> string option" where
  "router_log sample parse gunzip level verb path origModel latency d w h s =
     (let status = di_status w h;
          reasonField = (if status = 429 then '' reason='' @ rejectionReasonOf (di_rejection h) else []);
          usage = (if status = 200
            then ExtractUsage parse gunzip (ur_tail (di_recorder w h)) (di_contentType h) (di_contentEncoding h)
            else noUsage);
          line = req_line verb path origModel (rd_alias d) (rd_provider d) (memberLabel (di_member h)) status latency
            (logLineValue usage) reasonField;
          written = (if 1 \<le> level then Some line else None)
      in if di_panics h then (s, None)
         else if status = 200
         then (case sample s of (sampled, s') \<Rightarrow> (s', if sampled then written else None))
         else (s, written))"

section \<open>Names of trace files\<close>

definition nextRequestID :: "64 word \<Rightarrow> bytes \<Rightarrow> 64 word \<times> string" where
  "nextRequestID counter rnd = (let n = counter + 1 in (n, nat_digits (unat n) @ ''-'' @ rnd))"

text \<open>A reading of the clock in the local time zone, and the layout \<open>2006-01-02-150405.000000000\<close>.\<close>

record civil_time =
  ct_year :: nat
  ct_month :: nat
  ct_day :: nat
  ct_hour :: nat
  ct_minute :: nat
  ct_second :: nat
  ct_nano :: nat

fun padded :: "nat \<Rightarrow> nat \<Rightarrow> string" where
  "padded 0 n = []"
| "padded (Suc w) n = padded w (n div 10) @ [char_of (48 + n mod 10)]"

definition formatTimestampNano :: "civil_time \<Rightarrow> string" where
  "formatTimestampNano t =
     padded 4 (ct_year t) @ ''-'' @ padded 2 (ct_month t) @ ''-'' @ padded 2 (ct_day t) @ ''-'' @
     padded 2 (ct_hour t) @ padded 2 (ct_minute t) @ padded 2 (ct_second t) @ ''.'' @ padded 9 (ct_nano t)"

definition trace_filename :: "civil_time \<Rightarrow> string \<Rightarrow> string" where
  "trace_filename t rid = formatTimestampNano t @ ''-'' @ rid @ ''.json''"

section \<open>Writing a trace\<close>

definition traceDir :: "string option \<Rightarrow> string \<Rightarrow> string" where
  "traceDir home tempDir =
     (case home of
        None \<Rightarrow> filepath_Join [tempDir, ''.claude-code-router'', ''trace'']
      | Some h \<Rightarrow> filepath_Join [h, ''.claude-code-router'', ''trace''])"

text \<open>
  The files of the trace directory; whether the directory could be made and the file be written. A file
  is made for its owner only, and an existing one is replaced.
\<close>

definition writeTraceFile :: "(trace_record \<Rightarrow> bytes option) \<Rightarrow> bool \<Rightarrow> bool \<Rightarrow> string \<Rightarrow> trace_record \<Rightarrow>
    (string \<rightharpoonup> bytes) \<Rightarrow> (string \<rightharpoonup> bytes)" where
  "writeTraceFile marshal mkdir_ok write_ok filename trc fs =
     (if \<not> mkdir_ok then fs
      else case marshal trc of
        None \<Rightarrow> fs
      | Some data \<Rightarrow> if write_ok then fs(filename \<mapsto> data) else fs)"

text \<open>
  A request at the trace middleware with tracing on, when its handler has returned: the response goes
  out, then the trace is written under the name of this moment and the next request number.
\<close>

record traced =
  td_verb :: string
  td_path :: string
  td_header :: header
  td_body :: bytes
  td_calls :: "write_call list"
  td_time :: civil_time
  td_random :: bytes
  td_mkdir_ok :: bool
  td_write_ok :: bool

record trace_files =
  tf_counter :: "64 word"
  tf_files :: "string \<rightharpoonup> bytes"

definition trace_one :: "(trace_record \<Rightarrow> bytes option) \<Rightarrow> traced \<Rightarrow> trace_files \<Rightarrow> trace_files \<times> response" where
  "trace_one marshal q tf =
     (case trace_ServeHTTP (td_verb q) (td_path q) (td_header q) (td_body q) fresh_response (td_calls q) of
        (w, trc) \<Rightarrow>
          (case nextRequestID (tf_counter tf) (td_random q) of
             (counter, rid) \<Rightarrow>
               (\<lparr>tf_counter = counter,
                 tf_files = writeTraceFile marshal (td_mkdir_ok q) (td_write_ok q)
                   (trace_filename (td_time q) rid) trc (tf_files tf)\<rparr>, w)))"

fun trace_all :: "(trace_record \<Rightarrow> bytes option) \<Rightarrow> traced list \<Rightarrow> trace_files \<Rightarrow> trace_files" where
  "trace_all marshal [] tf = tf"
| "trace_all marshal (q # qs) tf = trace_all marshal qs (fst (trace_one marshal q tf))"

section \<open>Fixed-width numbers\<close>

lemma length_padded [simp]: "length (padded w n) = w"
  by (induction w n rule: padded.induct) auto

lemma length_timestamp [simp]: "length (formatTimestampNano t) = 27"
  by (simp add: formatTimestampNano_def)

lemma lex_left: "xs < ys \<Longrightarrow> length xs = length ys \<Longrightarrow> xs @ us < ys @ (vs :: string)"
  by (simp add: list_less_def lexord_sufI)

lemma lex_right: "us < vs \<Longrightarrow> xs @ us < xs @ (vs :: string)"
  by (simp add: list_less_def lexord_append_leftI)

lemma char_digit_less: "n < m \<Longrightarrow> m < 10 \<Longrightarrow> (char_of (48 + n) :: char) < char_of (48 + m)" for n m :: nat
  by (simp add: less_char_def)

lemma padded_less: "n < m \<Longrightarrow> m < 10 ^ w \<Longrightarrow> padded w n < padded w m"
proof (induction w arbitrary: n m)
  case (Suc w)
  have m: "m div 10 < 10 ^ w" using Suc.prems(2) by (simp add: div_less_iff_less_mult algebra_simps)
  show ?case
  proof (cases "n div 10 < m div 10")
    case True
    then show ?thesis using lex_left [OF Suc.IH [OF _ m]] by simp
  next
    case False
    then have eq: "n div 10 = m div 10" using Suc.prems(1) div_le_mono [of n m 10] by linarith
    then have "n mod 10 < m mod 10" using Suc.prems(1) by (metis div_mult_mod_eq nat_add_left_cancel_less)
    then have "[char_of (48 + n mod 10) :: char] < [char_of (48 + m mod 10)]"
      using char_digit_less [of "n mod 10" "m mod 10"] by (simp add: list_less_def)
    then show ?thesis using lex_right eq by simp
  qed
qed simp

section \<open>Names tell the time and the request\<close>

definition civil_ok :: "civil_time \<Rightarrow> bool" where
  "civil_ok t \<longleftrightarrow> ct_year t < 10000 \<and> ct_month t \<in> {1..12} \<and> ct_day t \<in> {1..31} \<and> ct_hour t < 24 \<and>
     ct_minute t < 60 \<and> ct_second t < 60 \<and> ct_nano t < 10 ^ 9"

definition civil_key :: "civil_time \<Rightarrow> nat list" where
  "civil_key t = [ct_year t, ct_month t, ct_day t, ct_hour t, ct_minute t, ct_second t, ct_nano t]"

lemma field_less: "n < m \<Longrightarrow> m < 10 ^ w \<Longrightarrow> padded w n @ us < padded w m @ vs"
  using lex_left [OF padded_less] by simp

lemma timestamp_less:
  assumes "civil_ok t" "civil_ok u" "civil_key t < civil_key u"
  shows "formatTimestampNano t < formatTimestampNano u"
proof -
  note ok = assms(2) [unfolded civil_ok_def]
  have bounds: "ct_year u < 10 ^ 4" "ct_month u < 10 ^ 2" "ct_day u < 10 ^ 2" "ct_hour u < 10 ^ 2"
    "ct_minute u < 10 ^ 2" "ct_second u < 10 ^ 2" "ct_nano u < 10 ^ 9" using ok by auto
  from assms(3) consider
      "ct_year t < ct_year u"
    | "ct_year t = ct_year u" "ct_month t < ct_month u"
    | "ct_year t = ct_year u" "ct_month t = ct_month u" "ct_day t < ct_day u"
    | "ct_year t = ct_year u" "ct_month t = ct_month u" "ct_day t = ct_day u" "ct_hour t < ct_hour u"
    | "ct_year t = ct_year u" "ct_month t = ct_month u" "ct_day t = ct_day u" "ct_hour t = ct_hour u"
      "ct_minute t < ct_minute u"
    | "ct_year t = ct_year u" "ct_month t = ct_month u" "ct_day t = ct_day u" "ct_hour t = ct_hour u"
      "ct_minute t = ct_minute u" "ct_second t < ct_second u"
    | "ct_year t = ct_year u" "ct_month t = ct_month u" "ct_day t = ct_day u" "ct_hour t = ct_hour u"
      "ct_minute t = ct_minute u" "ct_second t = ct_second u" "ct_nano t < ct_nano u"
    by (auto simp: civil_key_def)
  then show ?thesis
    unfolding formatTimestampNano_def
    by cases (simp_all only:, (intro lex_right field_less bounds padded_less; assumption)+)
qed

lemma nat_digits_not_dash: "CHR ''-'' \<notin> set (nat_digits n)"
proof (induction n rule: nat_digits.induct)
  case (1 n)
  have dash: "CHR ''-'' \<noteq> (char_of (48 + m) :: char)" if "m < 10" for m :: nat
    using that by (auto simp: eq_commute [of "CHR ''-''"] char_of_eq_iff take_bit_eq_mod)
  then show ?case using 1 dash [of n] dash [of "n mod 10"] by (simp add: nat_digits.simps [of n])
qed

lemma nat_digits_inj: "nat_digits n = nat_digits m \<Longrightarrow> n = m"
proof -
  assume "nat_digits n = nat_digits m"
  then have "Some (int n) = Some (int m)" by (simp only: flip: parse_nat_digits)
  then show "n = m" by simp
qed

lemma trace_filename_id:
  assumes "trace_filename t (nat_digits n @ ''-'' @ rnd) = trace_filename u (nat_digits m @ ''-'' @ rnd')"
  shows "n = m"
proof -
  have "nat_digits n @ ''-'' @ rnd = nat_digits m @ ''-'' @ rnd'"
    using assms by (simp add: trace_filename_def append_eq_append_conv)
  then have "takeWhile ((\<noteq>) CHR ''-'') (nat_digits n @ ''-'' @ rnd) =
      takeWhile ((\<noteq>) CHR ''-'') (nat_digits m @ ''-'' @ rnd')" by simp
  moreover have "takeWhile ((\<noteq>) CHR ''-'') (nat_digits k @ ''-'' @ r) = nat_digits k" for k r
    using nat_digits_not_dash [of k] by (subst takeWhile_append2) auto
  ultimately show ?thesis using nat_digits_inj by simp
qed

section \<open>No trace is lost\<close>

text \<open>The name request \<open>i\<close> of a run gets, when the run began at this counter.\<close>

definition name_at :: "64 word \<Rightarrow> nat \<Rightarrow> traced \<Rightarrow> string" where
  "name_at counter i q = trace_filename (td_time q) (snd (nextRequestID (counter + of_nat i) (td_random q)))"

definition trace_of :: "traced \<Rightarrow> trace_record" where
  "trace_of q = snd (trace_ServeHTTP (td_verb q) (td_path q) (td_header q) (td_body q) fresh_response (td_calls q))"

lemma trace_one_files:
  "tf_files (fst (trace_one marshal q tf)) = writeTraceFile marshal (td_mkdir_ok q) (td_write_ok q)
     (name_at (tf_counter tf) 0 q) (trace_of q) (tf_files tf)"
  "tf_counter (fst (trace_one marshal q tf)) = tf_counter tf + 1"
  by (simp_all add: trace_one_def name_at_def trace_of_def nextRequestID_def Let_def split: prod.splits)

lemma trace_all_append: "trace_all marshal (qs @ qs') tf = trace_all marshal qs' (trace_all marshal qs tf)"
  by (induction qs arbitrary: tf) auto

lemma trace_all_counter: "tf_counter (trace_all marshal qs tf) = tf_counter tf + of_nat (length qs)"
  by (induction qs arbitrary: tf) (simp_all add: trace_one_files algebra_simps)

lemma trace_all_other:
  assumes "\<forall>j < length qs. name_at (tf_counter tf) j (qs ! j) \<noteq> name"
  shows "tf_files (trace_all marshal qs tf) name = tf_files tf name"
  using assms
proof (induction qs arbitrary: tf)
  case (Cons q qs)
  have "name_at (tf_counter tf + 1) j (qs ! j) \<noteq> name" if "j < length qs" for j
    using Cons.prems [rule_format, of "Suc j"] that by (simp add: name_at_def algebra_simps)
  moreover have "name_at (tf_counter tf) 0 q \<noteq> name" using Cons.prems by force
  ultimately show ?case
    using Cons.IH [of "fst (trace_one marshal q tf)"]
    by (simp add: trace_one_files writeTraceFile_def split: option.splits)
qed simp

lemma name_at_inj:
  assumes "name_at c i q = name_at c j q'" "i < 2 ^ 64" "j < 2 ^ 64"
  shows "i = j"
proof -
  have "unat (c + of_nat i + 1) = unat (c + of_nat j + 1)"
    using assms(1) unfolding name_at_def nextRequestID_def Let_def snd_conv by (rule trace_filename_id)
  then have "(of_nat i :: 64 word) = of_nat j" by (simp add: word_unat_eq_iff [symmetric])
  then have "unat (of_nat i :: 64 word) = unat (of_nat j :: 64 word)" by simp
  then show ?thesis using assms(2,3) by (simp add: unat_of_nat)
qed

section \<open>Properties\<close>

text \<open>
  C36. Traces do not overwrite each other: over any run of at most 2 ^ 64 traced requests, whatever their
  clock readings and random bytes, the file named for a request still holds that request's trace at the end,
  if its directory could be made and its file written; files that were not written change nothing.
\<close>

theorem every_trace_kept:
  assumes "length qs \<le> 2 ^ 64" "i < length qs"
    and "td_mkdir_ok (qs ! i)" "td_write_ok (qs ! i)" "marshal (trace_of (qs ! i)) = Some data"
  shows "tf_files (trace_all marshal qs tf) (name_at (tf_counter tf) i (qs ! i)) = Some data"
proof -
  let ?name = "name_at (tf_counter tf) i (qs ! i)"
  let ?before = "trace_all marshal (take i qs) tf"
  let ?after = "fst (trace_one marshal (qs ! i) ?before)"
  have c: "tf_counter ?before = tf_counter tf + of_nat i" using assms(2) by (simp add: trace_all_counter)
  have "tf_files ?after ?name = Some data"
    using assms(3-5) by (simp add: trace_one_files c writeTraceFile_def name_at_def)
  moreover have "name_at (tf_counter ?after) j (drop (Suc i) qs ! j) \<noteq> ?name" if "j < length (drop (Suc i) qs)" for j
  proof
    assume same: "name_at (tf_counter ?after) j (drop (Suc i) qs ! j) = ?name"
    have "name_at (tf_counter ?after) j (drop (Suc i) qs ! j) = name_at (tf_counter tf) (i + Suc j) (drop (Suc i) qs ! j)"
      by (simp add: trace_one_files c name_at_def algebra_simps)
    then have "name_at (tf_counter tf) (i + Suc j) (drop (Suc i) qs ! j) = ?name" using same by simp
    then have "i + Suc j = i" by (rule name_at_inj) (use assms(1,2) that in auto)
    then show False by simp
  qed
  ultimately have "tf_files (trace_all marshal (drop (Suc i) qs) ?after) ?name = Some data"
    using trace_all_other by simp
  then show ?thesis
    using trace_all_append [of marshal "take i qs" "qs ! i # drop (Suc i) qs" tf] id_take_nth_drop [OF assms(2)] by simp
qed

text \<open>
  Trace files sort by time: if the local clock read an earlier time for one request than for another, its
  file comes first in byte order, whatever the request numbers.
\<close>

theorem trace_names_chronological:
  assumes "civil_ok t" "civil_ok u" "civil_key t < civil_key u"
  shows "trace_filename t rid < trace_filename u rid'"
  using lex_left [OF timestamp_less [OF assms]] by (simp add: trace_filename_def)

theorem trace_names_chronological_witness:
  "let t = \<lparr>ct_year = 2026, ct_month = 9, ct_day = 30, ct_hour = 23, ct_minute = 59, ct_second = 59,
       ct_nano = 999999999\<rparr>;
     u = \<lparr>ct_year = 2026, ct_month = 10, ct_day = 1, ct_hour = 0, ct_minute = 0, ct_second = 0, ct_nano = 0\<rparr>
   in trace_filename t ''9-x'' < trace_filename u ''10-y''"
  unfolding Let_def by (rule trace_names_chronological) (simp_all add: civil_ok_def civil_key_def)

definition ex_traced :: "civil_time \<Rightarrow> bytes \<Rightarrow> traced" where
  "ex_traced t b = \<lparr>td_verb = ''POST'', td_path = ''/v1/messages'', td_header = [], td_body = b,
     td_calls = [CallWrite ''ok''], td_time = t, td_random = ''00'', td_mkdir_ok = True, td_write_ok = True\<rparr>"

definition ex_moment :: civil_time where
  "ex_moment = \<lparr>ct_year = 2026, ct_month = 10, ct_day = 25, ct_hour = 2, ct_minute = 30, ct_second = 0, ct_nano = 0\<rparr>"

text \<open>The counter overflows between two requests of the same moment with the same random bytes.\<close>

theorem every_trace_kept_witness:
  "tf_files (trace_all (\<lambda>trc. Some (trc_body trc)) [ex_traced ex_moment ''a'', ex_traced ex_moment ''b'']
     \<lparr>tf_counter = - 2, tf_files = Map.empty\<rparr>) (name_at (- 2) 0 (ex_traced ex_moment ''a'')) = Some ''a''"
  using every_trace_kept [of "[ex_traced ex_moment ''a'', ex_traced ex_moment ''b'']" 0 "\<lambda>trc. Some (trc_body trc)" "''a''"
      "\<lparr>tf_counter = - 2, tf_files = Map.empty\<rparr>"]
  by (simp add: ex_traced_def trace_of_def trace_ServeHTTP_def Let_def)

text \<open>
  In the hour that a local clock repeats when daylight saving ends, the names go backwards: the file of a
  request half an hour later comes first.
\<close>

lemma repeated_hour_breaks_order:
  assumes "local 0 = ex_moment\<lparr>ct_minute := 45\<rparr>" "local (30 * 60 * second_ns) = ex_moment\<lparr>ct_minute := 15\<rparr>"
  shows "trace_filename (local (30 * 60 * second_ns)) rid < trace_filename (local 0) rid'"
  unfolding assms trace_filename_def
  by (rule lex_left [OF timestamp_less]) (simp_all add: ex_moment_def civil_ok_def civil_key_def)

lemma rejections_after:
  "RejectedTotal (router_after parse gunzip origModel d k latency w h m) =
     (if \<not> di_panics h \<and> di_status w h = 429
      then vec_add (rd_provider d, rejectionReasonOf (di_rejection h)) 1 (RejectedTotal m) else RejectedTotal m)"
proof -
  have "RejectedTotal (recordTokensFromUsage p q u n) = RejectedTotal n" for p q u n
    by (simp add: recordTokensFromUsage_def recordTokenDirection_def recordCacheTokenDirection_def
        ObserveTokens_def ObserveCacheTokens_def Let_def split: option.splits)
  then show ?thesis
    by (simp add: router_after_def router_observe_def Let_def ObserveRequest_def ObserveRejection_def)
qed

text \<open>
  Every answer other than a 200 is logged without asking the sampler; the line of a 429 ends with the very
  reason under which the rejection is counted, and no other line has a reason.
\<close>

theorem log_line_attributes_429:
  assumes "\<not> di_panics h" "1 \<le> level" "di_status w h \<noteq> 200"
  shows "\<exists>line. router_log sample parse gunzip level verb path origModel latency d w h s =
      (s, Some (line @ (if di_status w h = 429 then '' reason='' @ rejectionReasonOf (di_rejection h) else []))) \<and>
    (\<exists>front. line = front @ '' in='' @ ''-'' @ '' out='' @ ''-'') \<and>
    RejectedTotal (router_after parse gunzip origModel d k latency' w h m) =
      (if di_status w h = 429 then vec_add (rd_provider d, rejectionReasonOf (di_rejection h)) 1 (RejectedTotal m)
       else RejectedTotal m)"
proof -
  have "logLineValue noUsage = (''-'', ''-'')"
    by (simp add: logLineValue_def noUsage_def)
  then show ?thesis
    using assms by (auto simp: router_log_def req_line_def rejections_after Let_def)
qed

theorem log_line_attributes_429_witness:
  "\<exists>line. router_log (\<lambda>s. (False, s)) (\<lambda>_. None) (\<lambda>_. None) 1 ''POST'' ''/v1/messages'' ''q'' ''3ms''
     (initial_routed ex_router (ex_body ''q'')) fresh_response
     \<lparr>di_calls = [UrWriteHeader 429], di_rejection = Some ''throttle'',
      di_member = \<lparr>slot_index = 0, slot_selected = False\<rparr>, di_contentType = [], di_contentEncoding = [],
      di_panics = False\<rparr> () = ((), Some (line @ '' reason=throttle''))"
proof -
  let ?h = "\<lparr>di_calls = [UrWriteHeader 429], di_rejection = Some ''throttle'',
      di_member = \<lparr>slot_index = 0, slot_selected = False\<rparr>, di_contentType = [], di_contentEncoding = [],
      di_panics = False\<rparr>"
  have "di_status fresh_response ?h = 429"
    by (simp add: di_status_def di_recorder_def ur_do_def ur_WriteHeader_def newUsageRecorder_def sr_new_def
        sr_WriteHeader_def)
  then show ?thesis
    using log_line_attributes_429 [of ?h 1 fresh_response "\<lambda>s. (False, s)" "\<lambda>_. None" "\<lambda>_. None" "''POST''"
        "''/v1/messages''" "''q''" "''3ms''" "initial_routed ex_router (ex_body ''q'')" "()" 0 0 "NewMetrics []"]
    by (auto simp: rejectionReasonOf_def)
qed

end
