(* ===== verification/Accounting.thy ===== *)
theory Accounting
  imports Chain Journal
begin

text \<open>
  From the gates back to the router: what the router reads off a request that has passed the nested
  handlers (\<open>model-router.go\<close>, behind \<open>target.ServeHTTP\<close>), and the counters after any number of requests. The
  usage recorder sees every call on the writer; the connection is taken to accept what is written.
\<close>

section \<open>What the router sees of a request\<close>

fun usage_calls :: "write_call list \<Rightarrow> ur_call list" where
  "usage_calls [] = []"
| "usage_calls (CallSetHeader k v # cs) = usage_calls cs"
| "usage_calls (CallWriteHeader code # cs) = UrWriteHeader code # usage_calls cs"
| "usage_calls (CallWrite b # cs) = UrWrite (length b) b # usage_calls cs"

definition header_of :: "string \<Rightarrow> response \<Rightarrow> string" where
  "header_of k w = (case map_of (rs_headers w) k of None \<Rightarrow> [] | Some v \<Rightarrow> v)"

definition dispatch_result :: "chain_req \<Rightarrow> bool \<Rightarrow> dispatched" where
  "dispatch_result q panics =
     (let w = foldl rw_call fresh_response (cr_calls q)
      in \<lparr>di_calls = usage_calls (cr_calls q), di_rejection = cr_slot q, di_member = cr_index q,
          di_contentType = header_of ''Content-Type'' w, di_contentEncoding = header_of ''Content-Encoding'' w,
          di_panics = panics\<rparr>)"

text \<open>
  A request the router dispatched: its number in the chain, the model it was asked for, how it was
  routed, its in-flight entry and its latency. It is accounted for when its handler is done.
\<close>

record 'h observed =
  ob_req :: nat
  ob_model :: string
  ob_routed :: "'h routed"
  ob_end :: nat
  ob_latency :: int

definition account :: "(bytes \<Rightarrow> json option) \<Rightarrow> (bytes \<Rightarrow> (bytes \<times> bool) option) \<Rightarrow> 't chain \<Rightarrow> 'h observed \<Rightarrow>
    metrics \<Rightarrow> metrics" where
  "account parse gunzip s x m =
     (case cr_mode (ch_reqs s ! ob_req x) of
        Finished who panics \<Rightarrow>
          router_after parse gunzip (ob_model x) (ob_routed x) (ob_end x) (ob_latency x) fresh_response
            (dispatch_result (ch_reqs s ! ob_req x) panics) m
      | _ \<Rightarrow> m)"

definition series :: "'l vec \<Rightarrow> 'l \<Rightarrow> int" where
  "series v l = (case v l of None \<Rightarrow> 0 | Some n \<Rightarrow> n)"

text \<open>Why a finished request got a 429, if it did: its upstream said so, or one gate.\<close>

definition refusal :: "gate list \<Rightarrow> chain_req \<Rightarrow> string option" where
  "refusal gs q =
     (case cr_mode q of
        Finished who panics \<Rightarrow>
          if panics then None
          else (case who of
             Upstream \<Rightarrow> if first_status (cr_calls q) = 429 then Some rejectionReasonUpstream else None
           | Gate g i \<Rightarrow> if cr_calls q = [] then None else Some (gate_reason (gs ! g) i)
           | Pool \<Rightarrow> None)
      | _ \<Rightarrow> None)"

section \<open>One request\<close>

lemma usage_calls_status: "first_status (map sr_of_call (usage_calls cs)) = first_status cs"
  by (induction cs rule: usage_calls.induct) (simp_all add: sr_of_call_def)

lemma dispatch_status:
  "di_status fresh_response (dispatch_result q p) =
     (if first_status (cr_calls q) = 0 then 200 else first_status (cr_calls q))"
proof -
  have "ur_next (foldl ur_do (newUsageRecorder (sr_new fresh_response)) cs) = foldl sr_call (sr_new fresh_response) (map sr_of_call cs)"
    for cs
    using ur_run_next [of "newUsageRecorder (sr_new fresh_response)" cs] by (simp add: newUsageRecorder_def sr_new_def)
  then show ?thesis
    by (simp add: di_status_def di_recorder_def dispatch_result_def Let_def recorded_status usage_calls_status)
qed

lemma dispatch_simps [simp]:
  "di_panics (dispatch_result q p) = p" "di_rejection (dispatch_result q p) = cr_slot q"
  by (simp_all add: dispatch_result_def Let_def)

lemma calls_ne: "rate_limited_calls n \<noteq> []"
  by (simp add: rate_limited_calls_def)

text \<open>The refusal is what the status and the rejection slot say.\<close>

lemma refusal_recorded:
  assumes "chain_start s" "run_steps (chain_step api) s es = Some s'"
    and "r < length (ch_reqs s')" "cr_mode (ch_reqs s' ! r) = Finished who p"
  shows "refusal (ch_gates s') (ch_reqs s' ! r) =
    (if \<not> p \<and> di_status fresh_response (dispatch_result (ch_reqs s' ! r) p) = 429
     then Some (rejectionReasonOf (cr_slot (ch_reqs s' ! r))) else None)"
  using finished_answer [OF assms] assms(4)
  by (cases who)
     (auto simp: refusal_def answer_ok_def dispatch_status reason_of_def rejectionReasonOf_def calls_ne)

section \<open>Counters\<close>

lemma series_add: "series (vec_add l n v) l' = series v l' + (if l = l' then n else 0)"
  by (auto simp: series_def vec_add_def)

lemma itoa_not_class: "itoa n \<noteq> ''4xx_rate_limited''"
proof
  assume n: "itoa n = ''4xx_rate_limited''"
  then have "\<not> n < 0" by (auto simp: itoa_def)
  then have "nat_digits (nat n) = ''4xx_rate_limited''" using n by (simp add: itoa_def)
  then have "parse_digits 0 ''4xx_rate_limited'' = Some (int (nat n))" using parse_nat_digits by metis
  then show False by (simp add: less_eq_char_def)
qed

lemma rate_limited_class: "statusClass status False = ''4xx_rate_limited'' \<longleftrightarrow> status = 429"
  by (auto simp: statusClass_def itoa_not_class)

lemma account_series:
  assumes "chain_start s" "run_steps (chain_step api) s es = Some s'" "ob_req x < length (ch_reqs s')"
  defines "q \<equiv> ch_reqs s' ! ob_req x"
  shows "series (RejectedTotal (account parse gunzip s' x m)) (p, reason) = series (RejectedTotal m) (p, reason) +
      (if rd_provider (ob_routed x) = p \<and> refusal (ch_gates s') q = Some reason then 1 else 0)"
    and "series (RequestsTotal (account parse gunzip s' x m)) (p, l, ''4xx_rate_limited'') =
      series (RequestsTotal m) (p, l, ''4xx_rate_limited'') +
      (if rd_provider (ob_routed x) = p \<and> resolveModelLabel (rd_model (ob_routed x)) (ob_model x) = l \<and>
         refusal (ch_gates s') q \<noteq> None then 1 else 0)"
proof -
  have none: "account parse gunzip s' x m = m \<and> refusal (ch_gates s') q = None" if "\<nexists>who p. cr_mode q = Finished who p"
    using that by (cases "cr_mode q") (auto simp: account_def refusal_def q_def)
  have over: "account parse gunzip s' x m = router_after parse gunzip (ob_model x) (ob_routed x) (ob_end x)
      (ob_latency x) fresh_response (dispatch_result q p') m" if "cr_mode q = Finished who p'" for who p'
    using that by (simp add: account_def q_def)
  show "series (RejectedTotal (account parse gunzip s' x m)) (p, reason) = series (RejectedTotal m) (p, reason) +
      (if rd_provider (ob_routed x) = p \<and> refusal (ch_gates s') q = Some reason then 1 else 0)"
  proof (cases "\<exists>who p. cr_mode q = Finished who p")
    case True
    then obtain who p' where fin: "cr_mode q = Finished who p'" by blast
    show ?thesis
      using refusal_recorded [OF assms(1-3), of who p'] fin
      by (cases p') (simp_all add: over [OF fin] each_response_counted_once [OF refl] series_add flip: q_def)
  qed (use none in simp)
  show "series (RequestsTotal (account parse gunzip s' x m)) (p, l, ''4xx_rate_limited'') =
      series (RequestsTotal m) (p, l, ''4xx_rate_limited'') +
      (if rd_provider (ob_routed x) = p \<and> resolveModelLabel (rd_model (ob_routed x)) (ob_model x) = l \<and>
         refusal (ch_gates s') q \<noteq> None then 1 else 0)"
  proof (cases "\<exists>who p. cr_mode q = Finished who p")
    case True
    then obtain who p' where fin: "cr_mode q = Finished who p'" by blast
    show ?thesis
      using refusal_recorded [OF assms(1-3), of who p'] fin
      by (cases p') (simp_all add: over [OF fin] each_response_counted_once [OF refl] series_add rate_limited_class flip: q_def)
  qed (use none in simp)
qed

section \<open>Any number of requests\<close>

definition account_all :: "(bytes \<Rightarrow> json option) \<Rightarrow> (bytes \<Rightarrow> (bytes \<times> bool) option) \<Rightarrow> 't chain \<Rightarrow> 'h observed list \<Rightarrow>
    metrics \<Rightarrow> metrics" where
  "account_all parse gunzip s xs m = fold (account parse gunzip s) xs m"

text \<open>
  C7. Rejections are counted exactly: after any interleaving of requests through the nested gates, and in whatever
  order their handlers come back to the router, the counter of a provider and a reason has grown by the number
  of that provider's requests which the gate with that reason refused, or, for \<open>upstream\<close>, which their
  upstream answered with 429. The class \<open>4xx_rate_limited\<close> of the request counter has grown by the number
  of refused requests, whatever the reason, so the rejection counter splits it by cause.
\<close>

theorem rejections_counted_exactly:
  assumes "chain_start s" "run_steps (chain_step api) s es = Some s'" "\<forall>x \<in> set xs. ob_req x < length (ch_reqs s')"
  shows "series (RejectedTotal (account_all parse gunzip s' xs m)) (p, reason) = series (RejectedTotal m) (p, reason) +
      int (length (filter (\<lambda>x. rd_provider (ob_routed x) = p \<and>
        refusal (ch_gates s') (ch_reqs s' ! ob_req x) = Some reason) xs)) \<and>
    series (RequestsTotal (account_all parse gunzip s' xs m)) (p, l, ''4xx_rate_limited'') =
      series (RequestsTotal m) (p, l, ''4xx_rate_limited'') +
      int (length (filter (\<lambda>x. rd_provider (ob_routed x) = p \<and>
        resolveModelLabel (rd_model (ob_routed x)) (ob_model x) = l \<and>
        refusal (ch_gates s') (ch_reqs s' ! ob_req x) \<noteq> None) xs))"
  using assms(3)
proof (induction xs arbitrary: m)
  case (Cons x xs)
  have "ob_req x < length (ch_reqs s')" using Cons.prems by simp
  note one = account_series [OF assms(1,2) this, of parse gunzip m p]
  show ?case
    using Cons.IH [of "account parse gunzip s' x m"] Cons.prems one(1) [of reason] one(2) [of l]
    by (simp add: account_all_def)
qed (simp add: account_all_def)

text \<open>The refused request of the example, and one that is still at its upstream.\<close>

theorem rejections_counted_exactly_witness:
  "series (RejectedTotal (account_all (\<lambda>_. None) (\<lambda>_. None) (ex_final ex_refused)
     [\<lparr>ob_req = 0, ob_model = ''q'', ob_routed = initial_routed ex_router (ex_body ''q''), ob_end = 0, ob_latency = 5\<rparr>,
      \<lparr>ob_req = 1, ob_model = ''q'', ob_routed = initial_routed ex_router (ex_body ''q''), ob_end = 1, ob_latency = 5\<rparr>]
     (NewMetrics []))) (''a'', ''queue_timeout'') = 1"
proof -
  let ?s = "ex_final ex_refused"
  have facts: "length (ch_reqs ?s) = 2 \<and> refusal (ch_gates ?s) (ch_reqs ?s ! 0) = None \<and>
      refusal (ch_gates ?s) (ch_reqs ?s ! 1) = Some ''queue_timeout''" by code_simp
  have "rd_provider (initial_routed ex_router (ex_body ''q'')) = ''a''"
    by (simp add: initial_routed_def ex_router_def NewModelRouterWithPools_def)
  then show ?thesis
    using facts rejections_counted_exactly [OF ex_chain_start ex_refused_run, where parse = "\<lambda>_. None" and gunzip = "\<lambda>_. None"
        and xs = "[\<lparr>ob_req = 0, ob_model = ''q'', ob_routed = initial_routed ex_router (ex_body ''q''), ob_end = 0,
            ob_latency = 5\<rparr>, \<lparr>ob_req = 1, ob_model = ''q'', ob_routed = initial_routed ex_router (ex_body ''q''),
            ob_end = 1, ob_latency = 5\<rparr>]" and m = "NewMetrics []" and p = "''a''" and reason = "''queue_timeout''"]
    by (simp add: series_def NewMetrics_def)
qed

text \<open>
  A request that a gate gave up because its client left counts as a success: nothing was written, and
  the router takes a missing status for 200.
\<close>

lemma abandoned_counts_as_success:
  assumes "chain_start s" "run_steps (chain_step api) s es = Some s'" "r < length (ch_reqs s')"
    and "cr_mode (ch_reqs s' ! r) = Finished (Gate g i) False" "refusal (ch_gates s') (ch_reqs s' ! r) = None"
  shows "statusClass (di_status fresh_response (dispatch_result (ch_reqs s' ! r) False)) False = ''2xx''"
  using finished_answer [OF assms(1-4)] assms(4,5)
  by (auto simp: answer_ok_def refusal_def dispatch_status statusClass_def calls_ne split: if_splits)

end
