(* ===== verification/Reasons.thy ===== *)
theory Reasons
  imports System Accounting
begin

text \<open>
  The reasons of refusals in the tree of a configuration. Every wrapper through which a request of the chain
  enters a limiter is one the factory built (\<open>factory.go\<close>: \<open>buildUpstreamMembers\<close>, \<open>hostLimiterFor\<close>), so every
  reason is one of \<open>rejectionReasons\<close> of \<open>metrics.go\<close>, and every series the rejection counter can get exists
  from the start, where \<open>PreInitRejection\<close> made it.
\<close>

section \<open>The wrappers in use\<close>

text \<open>\<open>W g\<close> are the wrappers through which gate \<open>g\<close> may be entered.\<close>

definition lim_ok :: "(nat \<Rightarrow> nat set) \<Rightarrow> gate list \<Rightarrow> bool" where
  "lim_ok W gs \<longleftrightarrow>
     (\<forall>g < length gs. \<forall>ws l. gs ! g = GLimiter ws l \<longrightarrow> (\<forall>q \<in> set (lim_reqs l). lr_wrapper q \<in> W g))"

definition may_enter :: "(nat \<Rightarrow> nat set) \<Rightarrow> (nat \<times> nat) list \<Rightarrow> bool" where
  "may_enter W todo \<longleftrightarrow> (\<forall>(g, k) \<in> set todo. k \<in> W g)"

definition ways_ok :: "(nat \<Rightarrow> nat set) \<Rightarrow> 't chain_provider \<Rightarrow> bool" where
  "ways_ok W pv \<longleftrightarrow> may_enter W (cp_outer pv) \<and> (\<forall>gates \<in> set (cp_inner pv). may_enter W gates)"

definition wrapped :: "(nat \<Rightarrow> nat set) \<Rightarrow> 't chain \<Rightarrow> bool" where
  "wrapped W s \<longleftrightarrow> lim_ok W (ch_gates s) \<and> (\<forall>q \<in> set (ch_reqs s). may_enter W (cr_todo q)) \<and>
     (\<forall>pv \<in> set (ch_providers s). ways_ok W pv)"

fun arrives :: "gate_event \<Rightarrow> nat set" where
  "arrives (LimE (Arrive k sig w)) = {k}"
| "arrives _ = {}"

lemma lim_step_wrappers:
  assumes "lim_step ws l e = Some l'" "q \<in> set (lim_reqs l')"
  shows "lr_wrapper q \<in> lr_wrapper ` set (lim_reqs l) \<union> arrives (LimE e)"
  using assms(1)
proof (cases rule: lim_step_cases)
  case (1 k sig resp)
  then show ?thesis using assms(2) by (auto simp: lim_arrive_def Let_def split: if_splits)
next
  case (2 i)
  from 2 have "lim_reqs l' = (lim_reqs l)[i := lim_reqs l' ! i] \<and> lr_wrapper (lim_reqs l' ! i) = lr_wrapper (lim_reqs l ! i) \<and>
      i < length (lim_reqs l)"
    by (cases rule: lim_onE) (simp_all add: finish_giving_up_fields)
  then show ?thesis using assms(2) by (metis UnI1 image_eqI in_set_conv_nth length_list_update nth_list_update nth_mem)
qed

lemma lim_ok_move:
  assumes "lim_ok W gs" "move_gate g e gs = Some gs'" "arrives e \<subseteq> W g"
  shows "lim_ok W gs'"
proof -
  from assms(2) obtain g' where g': "g < length gs" "gate_step (gs ! g) e = Some g'" "gs' = gs[g := g']"
    by (auto simp: move_gate_def split: if_splits)
  have "lr_wrapper q \<in> W g" if lim: "g' = GLimiter ws l'" "q \<in> set (lim_reqs l')" for ws l' q
  proof -
    from g'(2) lim(1) obtain l f where f: "gs ! g = GLimiter ws l" "e = LimE f" "lim_step ws l f = Some l'"
      by (cases "(gs ! g, e)" rule: gate_step.cases) (auto split: if_splits)
    then show ?thesis using lim_step_wrappers [OF f(3) lim(2)] assms(1,3) g'(1) by (auto simp: lim_ok_def)
  qed
  then show ?thesis using assms(1) g'(1,3) by (auto simp: lim_ok_def nth_list_update)
qed

lemma no_arrival [simp]:
  "own_event e = Some i \<Longrightarrow> arrives e = {}" "write_event x i c now = Some e \<Longrightarrow> arrives e = {}"
  "arrives (return_event x i calls now) = {}" "arrives (panic_event x i) = {}"
  by (cases e rule: own_event.cases; auto) (cases x; auto)+

lemma lim_ok_back:
  "move_gate g (return_event x i calls now) gs = Some gs' \<Longrightarrow> lim_ok W gs \<Longrightarrow> lim_ok W gs'"
  "move_gate g (panic_event x i) gs = Some gs' \<Longrightarrow> lim_ok W gs \<Longrightarrow> lim_ok W gs'"
  by (auto intro: lim_ok_move)

lemma lim_ok_write: "lim_ok W gs \<Longrightarrow> lim_ok W (write_gate now c x gs)"
  by (cases x) (auto simp: write_gate_def split: option.splits intro: lim_ok_move)

lemma lim_ok_pass: "lim_ok W gs \<Longrightarrow> lim_ok W (pass_calls now calls stack gs)"
proof -
  have fold: "lim_ok W gs \<Longrightarrow> lim_ok W (fold (write_gate now c) xs gs)" for c xs gs
    by (induction xs arbitrary: gs) (auto intro: lim_ok_write)
  show "lim_ok W gs \<Longrightarrow> lim_ok W (pass_calls now calls stack gs)"
    unfolding pass_calls_def by (induction calls arbitrary: gs) (auto intro: fold)
qed

lemma wrapped_set_creq:
  "wrapped W s \<Longrightarrow> may_enter W (cr_todo q) \<Longrightarrow> wrapped W (set_creq r q s)"
  by (auto simp: wrapped_def set_creq_def dest!: subsetD [OF set_update_subset_insert])

lemma wrapped_gates: "wrapped W s \<Longrightarrow> lim_ok W gs \<Longrightarrow> wrapped W (s\<lparr>ch_gates := gs\<rparr>)"
  by (simp add: wrapped_def)

lemma wrapped_settle:
  assumes "wrapped W s" "lim_ok W gs" "may_enter W (cr_todo q)"
  shows "wrapped W (settle r now q gs s)"
  using assms
  by (auto simp: settle_def Let_def split: list.splits prod.splits
        intro!: wrapped_set_creq wrapped_gates lim_ok_pass)

lemma wrapped_todo: "wrapped W s \<Longrightarrow> r < length (ch_reqs s) \<Longrightarrow> may_enter W (cr_todo (ch_reqs s ! r))"
  by (auto simp: wrapped_def)

lemma wrapped_select:
  assumes "wrapped W s" "chain_select api r w s = Some s'" "chain_ok s"
  shows "wrapped W s'"
proof -
  let ?q = "ch_reqs s ! r"
  let ?p = "cr_provider ?q"
  let ?pv = "ch_providers s ! ?p"
  have upd: "wrapped W (s\<lparr>ch_providers := (ch_providers s)[?p := ?pv\<lparr>cp_pool := pool\<rparr>]\<rparr>)" for pool
  proof (cases "?p < length (ch_providers s)")
    case True
    then have "ways_ok W (?pv\<lparr>cp_pool := pool\<rparr>)" using assms(1) by (auto simp: wrapped_def ways_ok_def)
    then show ?thesis using assms(1) by (auto simp: wrapped_def dest!: subsetD [OF set_update_subset_insert])
  qed (use assms(1) in \<open>simp add: wrapped_def list_update_beyond\<close>)
  have "r < length (ch_reqs s)" "cr_todo ?q = []"
    using assms(2) by (auto simp: chain_select_def at_pool_def Let_def split: if_splits)
  moreover from this have "ways_ok W ?pv"
    using assms(1) chain_reqD(1) [OF assms(3)] by (simp add: wrapped_def)
  ultimately show ?thesis
    using assms(2) by (auto simp: chain_select_def Let_def ways_ok_def may_enter_def [of W "[]"]
        split: if_splits prod.splits sum.splits intro!: wrapped_set_creq upd)
qed

lemma wrapped_step:
  assumes "chain_ok s" "wrapped W s" "chain_step api s e = Some s'"
  shows "wrapped W s'"
proof (cases e)
  case (ChArrive p sid n)
  with assms(3) have "p < length (ch_providers s)" by (simp add: chain_step_def chain_arrive_def split: if_splits)
  then have "ways_ok W (ch_providers s ! p)" using assms(2) by (simp add: wrapped_def)
  then show ?thesis using assms(2,3) ChArrive
    by (auto simp: chain_step_def chain_arrive_def wrapped_def ways_ok_def split: if_splits)
next
  case (ChEnter r gone now)
  with assms(3) obtain g k rest x gs' where r: "r < length (ch_reqs s)" "cr_todo (ch_reqs s ! r) = (g, k) # rest"
    "move_gate g (enter_event (ch_gates s ! g) x (fresh_response, cr_slot (ch_reqs s ! r))) (ch_gates s) = Some gs'"
    "en_wrapper x = k" "s' = settle r now ((ch_reqs s ! r)\<lparr>cr_todo := rest,
       cr_stack := (g, gate_size (ch_gates s ! g)) # cr_stack (ch_reqs s ! r)\<rparr>) gs' s"
    by (fastforce simp: chain_step_def chain_enter_def Let_def split: if_splits list.splits option.splits)
  note todo = wrapped_todo [OF assms(2) r(1), unfolded r(2)]
  have "arrives (enter_event (ch_gates s ! g) x w) \<subseteq> W g" for w
    using todo r(4) by (cases "ch_gates s ! g") (auto simp: may_enter_def)
  then have "lim_ok W gs'" using lim_ok_move [OF _ r(3)] assms(2) by (simp add: wrapped_def)
  then show ?thesis unfolding r(5) using todo by (intro wrapped_settle [OF assms(2)]) (auto simp: may_enter_def)
next
  case (ChOwn r f now)
  with assms(3) obtain g i rest gs' where r: "r < length (ch_reqs s)" "own_event f = Some i"
    "move_gate g f (ch_gates s) = Some gs'" "s' = settle r now (ch_reqs s ! r) gs' s \<or> s' = s\<lparr>ch_gates := gs'\<rparr>"
    by (auto simp: chain_step_def chain_own_def Let_def split: if_splits list.splits option.splits)
  have "lim_ok W gs'" using lim_ok_move [OF _ r(3)] assms(2) r(2) by (simp add: wrapped_def)
  then show ?thesis
    using r(4) wrapped_settle [OF assms(2)] wrapped_gates [OF assms(2)] wrapped_todo [OF assms(2) r(1)] by blast
next
  case (ChSelect r w)
  then show ?thesis using wrapped_select [OF assms(2) _ assms(1)] assms(3) by (simp add: chain_step_def)
next
  case (ChWrite r c now)
  then show ?thesis
    using assms(2,3) wrapped_todo [OF assms(2), of r]
    by (auto simp: chain_step_def chain_write_def Let_def split: if_splits
          intro!: wrapped_set_creq wrapped_gates lim_ok_pass simp: wrapped_def [of W s])
next
  case (ChBack r now)
  then show ?thesis
    using assms(2,3) wrapped_todo [OF assms(2), of r]
    by (auto simp: chain_step_def chain_back_def may_enter_def [of W "[]"] Let_def
          split: if_splits list.splits chain_mode.splits
          intro!: wrapped_set_creq wrapped_gates dest: lim_ok_back simp: wrapped_def [of W s])
qed (use assms wrapped_todo [OF assms(2)] in \<open>auto simp: chain_step_def chain_leave_def Let_def
      split: if_splits intro!: wrapped_set_creq\<close>)

lemma wrapped_run:
  assumes "chain_start s" "wrapped W s" "run_steps (chain_step api) s es = Some s'"
  shows "wrapped W s'"
proof -
  have "chain_ok s" using chain.reachable_inv [OF assms(1), of api "[]"] by simp
  then show ?thesis using assms(2,3)
  proof (induction es arbitrary: s)
    case (Cons e es)
    then obtain t where t: "chain_step api s e = Some t" "run_steps (chain_step api) t es = Some s'"
      by (auto split: option.splits)
    show ?case
      using Cons.IH [OF chain_step_ok [OF Cons.prems(1) t(1)] wrapped_step [OF Cons.prems(1,2) t(1)] t(2)] .
  qed simp
qed

text \<open>So the reason of a limiter's refusal is that of a wrapper in use.\<close>

lemma limiter_reason:
  assumes "chain_start s" "wrapped W s" "run_steps (chain_step api) s es = Some s'"
    and "g < length (ch_gates s)" "ch_gates s ! g = GLimiter ws l" "entered (ch_gates s') (g, i)"
  shows "\<exists>k \<in> W g. gate_reason (ch_gates s' ! g) i = timeoutReason (ws k)"
proof -
  from advanced_run [OF assms(3)] assms(4,5)
  obtain fs where "run_steps gate_step (GLimiter ws l) fs = Some (ch_gates s' ! g)" by (auto simp: advanced_def)
  from run_gate(4) [OF this] obtain l' where l': "ch_gates s' ! g = GLimiter ws l'" by blast
  have "lim_ok W (ch_gates s')" using wrapped_run [OF assms(1-3)] by (simp add: wrapped_def)
  with l' assms(6) have "lr_wrapper (lim_reqs l' ! i) \<in> W g" by (simp add: lim_ok_def entered_def)
  then show ?thesis using l' by auto
qed

lemma run_keeps_kind: "run_steps gate_step g es = Some g' \<Longrightarrow> is_limiter g' = is_limiter g"
  by (induction es arbitrary: g) (auto split: option.splits dest: step_keeps_kind)

lemma own_reason:
  assumes "run_steps (chain_step api) s es = Some s'" "g < length (ch_gates s)"
    and "\<not> is_limiter (ch_gates s ! g)" "gate_reason (ch_gates s' ! g) i \<noteq> []"
  shows "gate_reason (ch_gates s' ! g) i \<in> {rejectionReasonCircuitOpen, rejectionReasonThrottle, rejectionReasonColdStart}"
proof -
  have "is_limiter (ch_gates s' ! g) = is_limiter (ch_gates s ! g)"
    using advanced_run [OF assms(1)] assms(2) run_keeps_kind unfolding advanced_def by blast
  then show ?thesis using assms(3,4) by (cases "ch_gates s' ! g") auto
qed

section \<open>The wrappers of a configuration\<close>

definition limiter_reason_of :: "lim_ref \<Rightarrow> string" where
  "limiter_reason_of ref =
     (case ref of MemberLim k \<Rightarrow> rejectionReasonQueueTimeout | HostLim key \<Rightarrow> rejectionReasonHostQueueTimeout)"

lemma member_chain_limiters:
  "(ref, w) \<in> set (handler_limiters (member_chain name tok limits up u n)) \<Longrightarrow> timeoutReason w = limiter_reason_of ref"
  by (auto simp: member_chain_def host_wrap_handler_def host_Wrap_def Let_def timeoutReason_def limiter_reason_of_def
        rejectionReasonQueueTimeout_def rejectionReasonHostQueueTimeout_def split: option.splits)

lemma member_chain_refs:
  "hl_sem (fst (host_spec limits (UpstreamHostKey u))) = Some l \<Longrightarrow>
     HostLim (UpstreamHostKey u) \<in> fst ` set (handler_limiters (member_chain name tok limits up u n))"
  "n = Some k \<Longrightarrow> MemberLim k \<in> fst ` set (handler_limiters (member_chain name tok limits up u n))"
  by (auto simp: member_chain_def host_wrap_handler_def host_Wrap_def Let_def split: option.splits)

text \<open>What the handlers of a built provider are.\<close>

lemma built_handler:
  fixes cfg :: "'t config"
  assumes "CreateRouterFromConfig url_parse cancelled registers now cfg = Inr t" "ht_providers t name = Some tree"
    and "h \<in> set (pp_handlers (pt_parts tree))"
  obtains up :: "'t upstream" and u n where
    "h = member_chain name (cfg_DefaultToken cfg) (cfg_UpstreamHostLimits cfg) up u n"
    "hp_hosts (ht_heap t) (UpstreamHostKey u) = Some (host_spec (cfg_UpstreamHostLimits cfg) (UpstreamHostKey u))"
    "\<forall>k. n = Some k \<longrightarrow> k < length (hp_limiters (ht_heap t))"
proof -
  obtain m where m: "m < length (pp_handlers (pt_parts tree))" "h = pp_handlers (pt_parts tree) ! m"
    using assms(3) by (auto simp: in_set_conv_nth)
  let ?up = "UpstreamList (provider_of cfg name) ! m"
  show thesis
  proof (rule built_member [OF assms(1,2) m(1) refl m(2)])
    fix u n
    assume "h = member_chain name (cfg_DefaultToken cfg) (cfg_UpstreamHostLimits cfg) ?up u n"
      "hp_hosts (ht_heap t) (UpstreamHostKey u) = Some (host_spec (cfg_UpstreamHostLimits cfg) (UpstreamHostKey u))"
      "case n of None \<Rightarrow> up_MaxConcurrentRequests ?up \<le> 0
       | Some k \<Rightarrow> k < length (hp_limiters (ht_heap t)) \<and> 0 < up_MaxConcurrentRequests ?up \<and>
           hp_limiters (ht_heap t) ! k = limiter_start (nat (up_MaxConcurrentRequests ?up))"
    then show thesis by (intro that [of ?up u n]) auto
  qed
qed

lemma wrapper_at_reason:
  assumes "CreateRouterFromConfig url_parse cancelled registers now cfg = Inr t"
    and "ht_providers t name = Some (trees ! p)" "h \<in> set (pp_handlers (pt_parts (trees ! p)))"
    and "ref \<in> fst ` set (handler_limiters h)"
  shows "timeoutReason (wrapper_at trees ref p) = limiter_reason_of ref"
proof -
  let ?ws = "concat (map handler_limiters (pp_handlers (pt_parts (trees ! p))))"
  have "ref \<in> fst ` set ?ws" using assms(3,4) by fastforce
  then obtain w where w: "map_of ?ws ref = Some w" by (metis map_of_eq_None_iff not_None_eq)
  then obtain h' where h': "h' \<in> set (pp_handlers (pt_parts (trees ! p)))" "(ref, w) \<in> set (handler_limiters h')"
    by (auto dest!: map_of_SomeD)
  show ?thesis
    using built_handler [OF assms(1,2) h'(1)] h'(2) member_chain_limiters w
    by (metis option.sel wrapper_at_def)
qed

text \<open>No limiter of a new tree has a request, and the series of every provider and reason exist.\<close>

definition heap_idle :: "heap \<Rightarrow> bool" where
  "heap_idle hp \<longleftrightarrow> (\<forall>l \<in> set (hp_limiters hp). lim_reqs l = [])"

lemma add_member_idle:
  "heap_idle (snd ph) \<Longrightarrow> heap_idle (snd (add_member name tok limits up u ph))"
  by (auto simp: heap_idle_def add_member_def hostLimiterFor_def limit_member_def NewConcurrencyLimiter_def
      limiter_start_def Let_def split: prod.splits option.splits if_splits)

lemma build_members_idle:
  "build_members url_parse cancelled name tok limits ups ph = Inr ph' \<Longrightarrow> heap_idle (snd ph) \<Longrightarrow> heap_idle (snd ph')"
proof (induction ups arbitrary: ph)
  case (Cons up ups)
  then show ?case
    using Cons.IH [OF _ add_member_idle [OF Cons.prems(2)]] by (auto split: if_splits option.splits)
qed simp

lemma PreInit_dom:
  "dom (RejectedTotal (PreInitRejection name m)) = dom (RejectedTotal m) \<union> {name} \<times> set rejectionReasons"
proof -
  have "dom (foldl (\<lambda>v reason. vec_add (name, reason) 0 v) v rs) = dom v \<union> {name} \<times> set rs" for v rs
    by (induction rs arbitrary: v) (auto simp: vec_add_def)
  then show ?thesis by (simp add: PreInitRejection_def)
qed

definition boot_ok :: "'t build \<Rightarrow> bool" where
  "boot_ok bd \<longleftrightarrow> heap_idle (bd_heap bd) \<and>
     dom (RejectedTotal (bd_metrics bd)) = dom (bd_providers bd) \<times> set rejectionReasons"

lemma build_providers_boot:
  "build_providers url_parse cancelled now cfg names bd = Inr bd' \<Longrightarrow> boot_ok bd \<Longrightarrow> boot_ok bd'"
proof (induction names arbitrary: bd)
  case (Cons name names)
  then obtain parts hp where b: "buildUpstreamMembers url_parse cancelled name (provider_of cfg name) (cfg_DefaultToken cfg)
      (cfg_UpstreamHostLimits cfg) (bd_heap bd) = Inr (parts, hp)"
    by (auto simp: Let_def split: if_splits sum.splits)
  have "heap_idle hp"
    using build_members_idle [OF b [unfolded buildUpstreamMembers_def]] Cons.prems(2) by (simp add: boot_ok_def)
  then have "boot_ok \<lparr>bd_providers = (bd_providers bd)(name \<mapsto> provider_handler (provider_of cfg name) now parts),
      bd_routes = bd_routes bd @ provider_routes name (provider_of cfg name)
        (pt_handler (provider_handler (provider_of cfg name) now parts)),
      bd_heap = hp, bd_metrics = PreInitRejection name (bd_metrics bd)\<rparr>"
    using Cons.prems(2) by (auto simp: boot_ok_def PreInit_dom)
  then show ?case
    using Cons.prems(1) b by (intro Cons.IH) (simp_all add: Let_def split: if_splits)
qed simp

lemma built_boot:
  assumes "CreateRouterFromConfig url_parse cancelled registers now cfg = Inr t"
  shows "heap_idle (ht_heap t)"
    and "dom (RejectedTotal (ht_metrics t)) = dom (ht_providers t) \<times> set rejectionReasons"
proof -
  obtain bd where bd: "build_providers url_parse cancelled now cfg (providerKeys cancelled cfg) (start_build cfg) = Inr bd"
      "ht_providers t = bd_providers bd" "ht_heap t = bd_heap bd" "ht_metrics t = bd_metrics bd"
    using assms unfolding CreateRouterFromConfig_def start_build_def
    by (auto split: sum.splits option.splits if_splits)
  have "boot_ok (start_build cfg)" by (simp add: boot_ok_def heap_idle_def start_build_def NewMetrics_def)
  from build_providers_boot [OF bd(1) this]
  show "heap_idle (ht_heap t)"
    and "dom (RejectedTotal (ht_metrics t)) = dom (ht_providers t) \<times> set rejectionReasons"
    by (simp_all add: bd boot_ok_def)
qed

section \<open>The chain of a configuration\<close>

text \<open>The wrappers of the running system: those around members say \<open>queue_timeout\<close>, those of hosts \<open>host_queue_timeout\<close>.\<close>

definition built_wrappers :: "string list \<Rightarrow> 't handler_tree \<Rightarrow> nat \<Rightarrow> nat set" where
  "built_wrappers names t g = {k. \<forall>ws l. ch_gates (system_chain names t) ! g = GLimiter ws l \<longrightarrow>
     timeoutReason (ws k) = (if g < length (hp_limiters (ht_heap t)) then rejectionReasonQueueTimeout
       else rejectionReasonHostQueueTimeout)}"

lemma built_lim_ok:
  assumes "CreateRouterFromConfig url_parse cancelled registers now cfg = Inr t" "set names \<subseteq> dom (ht_providers t)"
  shows "lim_ok W (ch_gates (system_chain names t))"
proof -
  let ?trees = "map (\<lambda>name. the (ht_providers t name)) names"
  have members: "lim_reqs l = []" if "l \<in> set (hp_limiters (ht_heap t))" for l
    using built_boot(1) [OF assms(1)] that by (simp add: heap_idle_def)
  have hosts: "lim_reqs l = []"
    if key: "key \<in> set (host_keys ?trees)" and l: "host_gate ws (fst (the (hp_hosts (ht_heap t) key))) = GLimiter ws' l"
    for key ws ws' l
  proof -
    from key obtain name h where h: "name \<in> set names" "h \<in> set (pp_handlers (pt_parts (the (ht_providers t name))))"
      "host_of h = Some key"
      by (auto simp: host_keys_def List.map_filter_def)
    obtain tree where tree: "ht_providers t name = Some tree" using h(1) assms(2) by (auto simp: dom_def)
    with h(2) have "h \<in> set (pp_handlers (pt_parts tree))" by simp
    from built_handler [OF assms(1) tree this] h(3)
    have "hp_hosts (ht_heap t) key = Some (host_spec (cfg_UpstreamHostLimits cfg) key)"
      by (metis member_chain_gates(2) option.inject)
    then show ?thesis
      using l by (auto simp: host_gate_def host_spec_def NewHostLimiter_def limiter_start_def
          split: option.splits if_splits)
  qed
  have "lim_reqs l = []" if "GLimiter ws l \<in> set (ch_gates (system_chain names t))" for ws l
    using that members hosts own_gates_not_limiters
    by (fastforce simp: system_chain_def trees_chain_def lim_gates_def dest: sym)
  then show ?thesis by (fastforce simp: lim_ok_def dest: nth_mem)
qed

lemma built_wrapped:
  fixes cfg :: "'t config"
  assumes "CreateRouterFromConfig url_parse cancelled registers now cfg = Inr t" "set names \<subseteq> dom (ht_providers t)"
  shows "wrapped (built_wrappers names t) (system_chain names t)"
proof -
  define trees where "trees = map (\<lambda>name. the (ht_providers t name)) names"
  let ?n = "length (hp_limiters (ht_heap t))" and ?s = "system_chain names t"
  let ?pos = "lim_pos ?n (host_keys trees)"
  have gates: "ch_gates ?s = lim_gates (ht_heap t) trees @ concat (map own_gates trees)"
    and provs: "ch_providers ?s = chain_providers ?pos 0 (length (lim_gates (ht_heap t) trees)) trees"
    by (simp_all add: system_chain_def trees_chain_def trees_def)
  have outer: "may_enter (built_wrappers names t) (cp_outer pv)" if "pv \<in> set (ch_providers ?s)" for pv
    using chain_providers_outer [of pv ?pos 0 "lim_gates (ht_heap t) trees" trees] that
    by (fastforce simp: may_enter_def built_wrappers_def gates provs)
  have inner: "may_enter (built_wrappers names t) (member_gates ?pos p h)"
    if p: "p < length trees" and h: "h \<in> set (pp_handlers (pt_parts (trees ! p)))" for p h
  proof -
    have tree: "ht_providers t (names ! p) = Some (trees ! p)" "trees ! p \<in> set trees"
      using subsetD [OF assms(2) nth_mem [of p names]] p by (auto simp: trees_def)
    obtain up :: "'t upstream" and u n where m: "h = member_chain (names ! p) (cfg_DefaultToken cfg) (cfg_UpstreamHostLimits cfg) up u n"
      and host: "hp_hosts (ht_heap t) (UpstreamHostKey u) = Some (host_spec (cfg_UpstreamHostLimits cfg) (UpstreamHostKey u))"
      and n': "\<forall>k. n = Some k \<longrightarrow> k < ?n"
      by (rule built_handler [OF assms(1) tree(1) h])
    have n: "k < ?n" if "n = Some k" for k using n' that by blast
    note reason = wrapper_at_reason [OF assms(1) tree(1) h]
    have key: "UpstreamHostKey u \<in> set (host_keys trees)"
      using host_keys_mem [OF tree(2) h] m by (simp add: member_chain_gates)
    note pos = position_less [OF key]
    have "p \<in> built_wrappers names t (?pos (HostLim (UpstreamHostKey u)))"
    proof -
      have g: "ch_gates ?s ! (?n + position (UpstreamHostKey u) (host_keys trees)) =
          host_gate (wrapper_at trees (HostLim (UpstreamHostKey u))) (fst (host_spec (cfg_UpstreamHostLimits cfg) (UpstreamHostKey u)))"
        using lim_gates_host [OF key, of "ht_heap t"] pos host by (simp add: gates nth_append length_lim_gates)
      have "timeoutReason (ws p) = rejectionReasonHostQueueTimeout"
        if "host_gate (wrapper_at trees (HostLim (UpstreamHostKey u)))
          (fst (host_spec (cfg_UpstreamHostLimits cfg) (UpstreamHostKey u))) = GLimiter ws l" for ws l
      proof -
        from that have l: "hl_sem (fst (host_spec (cfg_UpstreamHostLimits cfg) (UpstreamHostKey u))) = Some l"
          "ws = wrapper_at trees (HostLim (UpstreamHostKey u))" by (auto simp: host_gate_def split: option.splits)
        show ?thesis
          using reason [unfolded m, OF member_chain_refs(1) [OF l(1)]] by (simp add: l(2) limiter_reason_of_def)
      qed
      then show ?thesis using g by (auto simp: built_wrappers_def lim_pos_def)
    qed
    moreover have "p \<in> built_wrappers names t k" if "n = Some k" for k
      using n [OF that] lim_gates_member [OF n [OF that], of trees] reason [unfolded m, OF member_chain_refs(2) [OF that]]
      by (auto simp: built_wrappers_def gates nth_append length_lim_gates limiter_reason_of_def)
    ultimately show ?thesis
      by (auto simp: may_enter_def m member_chain_gates lim_pos_def split: option.splits)
  qed
  have "ways_ok (built_wrappers names t) pv" if pv: "pv \<in> set (ch_providers ?s)" for pv
  proof -
    from pv obtain p where p: "p < length trees" "pv = ch_providers ?s ! p" by (auto simp: provs in_set_conv_nth)
    then show ?thesis using outer [OF pv] inner [OF p(1)] by (auto simp: ways_ok_def provs chain_providers_nth)
  qed
  then show ?thesis
    using built_lim_ok [OF assms] by (simp add: wrapped_def system_chain_def trees_chain_def)
qed

section \<open>Properties\<close>

lemma own_gate_reasons: "{rejectionReasonCircuitOpen, rejectionReasonThrottle, rejectionReasonColdStart,
    rejectionReasonQueueTimeout, rejectionReasonHostQueueTimeout, rejectionReasonUpstream} = set rejectionReasons"
  by (auto simp: rejectionReasons_def)

text \<open>A refusal in the running system names its gate, by one of the six reasons.\<close>

lemma refusal_listed:
  assumes "CreateRouterFromConfig url_parse cancelled registers now cfg = Inr t" "set names \<subseteq> dom (ht_providers t)"
    and "run_steps (chain_step api) (system_chain names t) es = Some s" "r < length (ch_reqs s)"
    and "refusal (ch_gates s) (ch_reqs s ! r) = Some reason"
  shows "reason \<in> set rejectionReasons"
proof -
  let ?s0 = "system_chain names t"
  obtain who where who: "cr_mode (ch_reqs s ! r) = Finished who False"
    using assms(5) by (auto simp: refusal_def split: chain_mode.splits if_splits)
  note ans = finished_answer [OF built_chain_start [OF assms(1,2)] assms(3,4) who]
  show ?thesis
  proof (cases who)
    case (Gate g i)
    then have g: "entered (ch_gates s) (g, i)" "reason = gate_reason (ch_gates s ! g) i" "reason \<noteq> []"
      using ans assms(5) who by (auto simp: answer_ok_def refusal_def reason_of_def split: if_splits)
    have len: "g < length (ch_gates ?s0)"
      using g(1) advanced_run [OF assms(3)] by (simp add: entered_def advanced_def)
    show ?thesis
    proof (cases "is_limiter (ch_gates ?s0 ! g)")
      case True
      then obtain ws l where l: "ch_gates ?s0 ! g = GLimiter ws l" by (cases "ch_gates ?s0 ! g") auto
      from limiter_reason [OF built_chain_start [OF assms(1,2)] built_wrapped [OF assms(1,2)] assms(3) len l g(1)]
      show ?thesis using l g(2) own_gate_reasons by (auto simp: built_wrappers_def)
    next
      case False
      show ?thesis using own_reason [OF assms(3) len False] g(2,3) own_gate_reasons by blast
    qed
  qed (use assms(5) who own_gate_reasons in \<open>auto simp: refusal_def split: if_splits\<close>)
qed

text \<open>The counter of a request moves one series at most, that of its refusal.\<close>

lemma account_dom:
  assumes "chain_start s" "run_steps (chain_step api) s es = Some s'" "ob_req x < length (ch_reqs s')"
  shows "dom (RejectedTotal (account parse gunzip s' x m)) = dom (RejectedTotal m) \<union>
    (case refusal (ch_gates s') (ch_reqs s' ! ob_req x) of None \<Rightarrow> {}
     | Some reason \<Rightarrow> {(rd_provider (ob_routed x), reason)})"
proof (cases "cr_mode (ch_reqs s' ! ob_req x)")
  case (Finished who p)
  have dom: "dom (vec_add l n v) = insert l (dom v)" for l :: "string \<times> string" and n v by (simp add: vec_add_def)
  show ?thesis
    using refusal_recorded [OF assms Finished]
    by (cases p) (simp_all add: account_def Finished each_response_counted_once [OF refl] dom)
qed (simp_all add: account_def refusal_def)

text \<open>
  C8. The rejection counter has all its series from the start: in the tree of a configuration, whatever requests
  are refused by whichever gates, the counter moves only series that \<open>PreInitRejection\<close> created when the
  tree was built, one for every provider and each of the six reasons. So an alert on any reason always has a
  series to read, and the number of series is bounded by the configuration.
\<close>

theorem rejection_series_exist:
  assumes "CreateRouterFromConfig url_parse cancelled registers now cfg = Inr t"
    and "names = remdups (providerKeys cancelled cfg)"
    and "run_steps (chain_step api) (system_chain names t) es = Some s"
    and "\<forall>x \<in> set xs. ob_req x < length (ch_reqs s) \<and>
      rd_provider (ob_routed x) = names ! cr_provider (ch_reqs s ! ob_req x)"
  shows "dom (RejectedTotal (ht_metrics t)) = set names \<times> set rejectionReasons \<and>
    dom (RejectedTotal (account_all parse gunzip s xs (ht_metrics t))) = dom (RejectedTotal (ht_metrics t))"
proof -
  have "dom (ht_providers t) = set names"
    by (rule CreateRouter_Inr [OF assms(1)]) (simp add: assms(2))
  then have boot: "dom (RejectedTotal (ht_metrics t)) = set names \<times> set rejectionReasons" and sub: "set names \<subseteq> dom (ht_providers t)"
    using built_boot(2) [OF assms(1)] by simp_all
  note start = built_chain_start [OF assms(1) sub]
  have one: "dom (RejectedTotal (account parse gunzip s x m)) = dom (RejectedTotal m)"
    if x: "x \<in> set xs" and m: "dom (RejectedTotal m) = set names \<times> set rejectionReasons" for x m
  proof -
    have r: "ob_req x < length (ch_reqs s)" using assms(4) x by blast
    have "length (ch_providers s) = length names"
      using arg_cong [OF chain_run_ways [OF assms(3)], of length] by (simp add: system_chain_def trees_chain_def)
    then have "rd_provider (ob_routed x) \<in> set names"
      using assms(4) x chain_reqD(1) [OF chain.reachable_inv [OF start assms(3)] r] nth_mem by simp
    then show ?thesis
      using account_dom [OF start assms(3) r, of parse gunzip m] refusal_listed [OF assms(1) sub assms(3) r] m
      by (auto split: option.splits)
  qed
  have "dom (RejectedTotal (fold (account parse gunzip s) ys m)) = dom (RejectedTotal m)"
    if "set ys \<subseteq> set xs" "dom (RejectedTotal m) = set names \<times> set rejectionReasons" for ys m
    using that by (induction ys arbitrary: m) (simp_all add: one)
  from this [OF subset_refl boot] show ?thesis using boot by (simp add: account_all_def)
qed

text \<open>Two requests of the second provider; the other host slot is taken, so the second one times out there.\<close>

definition ex_refusing :: "chain_event list" where
  "ex_refusing = ex_system_run @ ex_timeout 1 1 5 @ [ChBack 1 5, ChBack 1 5]"

definition ex_refusing_end :: "ex_tod chain" where
  "ex_refusing_end = the (run_steps (chain_step ex_api) (system_chain [''a'', ''b''] ex_tree) ex_refusing)"

definition ex_observed :: "ex_tod observed" where
  "ex_observed = \<lparr>ob_req = 1, ob_model = ''q'',
     ob_routed = (initial_routed ex_router (ex_body ''q''))\<lparr>rd_provider := ''b''\<rparr>, ob_end = 0, ob_latency = 5\<rparr>"

lemma ex_refusing_runs:
  "run_steps (chain_step ex_api) (system_chain [''a'', ''b''] ex_tree) ex_refusing = Some ex_refusing_end"
  "length (ch_reqs ex_refusing_end) = 2 \<and> cr_provider (ch_reqs ex_refusing_end ! 1) = 1 \<and>
   refusal (ch_gates ex_refusing_end) (ch_reqs ex_refusing_end ! 1) = Some ''host_queue_timeout''"
proof -
  have "case run_steps (chain_step ex_api) (system_chain [''a'', ''b''] ex_tree) ex_refusing of
      None \<Rightarrow> False | Some s \<Rightarrow> True" by code_simp
  then show "run_steps (chain_step ex_api) (system_chain [''a'', ''b''] ex_tree) ex_refusing = Some ex_refusing_end"
    by (auto simp: ex_refusing_end_def split: option.splits)
qed code_simp

theorem rejection_series_exist_witness:
  "dom (RejectedTotal (account_all (\<lambda>_. None) (\<lambda>_. None) ex_refusing_end [ex_observed] (ht_metrics ex_tree))) =
     {''a'', ''b''} \<times> set rejectionReasons \<and>
   refusal (ch_gates ex_refusing_end) (ch_reqs ex_refusing_end ! 1) = Some ''host_queue_timeout''"
proof -
  have "[''a'', ''b''] = remdups (providerKeys False ex_limited)" by code_simp
  from rejection_series_exist [OF ex_tree_built this ex_refusing_runs(1), of "[ex_observed]"]
  show ?thesis using ex_refusing_runs(2) by (simp add: ex_observed_def)
qed

end
