(* ===== verification/Server.thy ===== *)
theory Server
  imports Trace Factory EnvRefs
begin

text \<open>
  The HTTP surface (\<open>buildMux\<close> of \<open>factory.go\<close>, \<open>healthz.go\<close>, \<open>hello.go\<close>, \<open>root-liveness.go\<close>,
  \<open>not-found.go\<close>, \<open>enabletrace.go\<close>, \<open>disabletrace.go\<close>, \<open>setloglevel.go\<close>), the start of the server
  (\<open>CreateServer\<close>) and its reloads (\<open>reloader.go\<close>). \<open>http.ServeMux\<close> is the matcher below, for
  request paths without percent escapes: the most specific registered pattern that matches
  wins, paths that are not clean are redirected, and so is a path that lacks the final slash
  of a registered subtree. The handlers of \<open>bborbe/http\<close> and of the Prometheus client are
  named, not modelled.
\<close>

section \<open>The mux\<close>

datatype endpoint =
    Healthz | Readiness | MetricsScrape | SetLogLevel | EnableTrace | DisableTrace | Gc
  | V1 | RootLiveness | Hello | CatchAll

record mux_pattern =
  pat_method :: "string option"
  pat_path :: string
  pat_exact :: bool

definition exact :: "string \<Rightarrow> mux_pattern" where
  "exact p = \<lparr>pat_method = None, pat_path = p, pat_exact = True\<rparr>"

definition subtree :: "string \<Rightarrow> mux_pattern" where
  "subtree p = \<lparr>pat_method = None, pat_path = p, pat_exact = False\<rparr>"

definition mux_table :: "(mux_pattern \<times> endpoint) list" where
  "mux_table =
     [(exact ''/healthz'', Healthz), (exact ''/readiness'', Readiness), (exact ''/metrics'', MetricsScrape),
      (subtree ''/setloglevel/'', SetLogLevel), (exact ''/enabletrace'', EnableTrace),
      (exact ''/disabletrace'', DisableTrace), (exact ''/gc'', Gc), (subtree ''/v1/'', V1),
      ((exact ''/'')\<lparr>pat_method := Some ''HEAD''\<rparr>, RootLiveness), (exact ''/api/hello'', Hello),
      (subtree ''/'', CatchAll)]"

definition pat_matches :: "string \<Rightarrow> string \<Rightarrow> mux_pattern \<Rightarrow> bool" where
  "pat_matches verb path p \<longleftrightarrow>
     (case pat_method p of None \<Rightarrow> True | Some m \<Rightarrow> verb = m \<or> m = ''GET'' \<and> verb = ''HEAD'') \<and>
     (if pat_exact p then path = pat_path p else has_prefix path (pat_path p))"

text \<open>Every request the first pattern matches is matched by the second, and not conversely.\<close>

definition more_specific :: "mux_pattern \<Rightarrow> mux_pattern \<Rightarrow> bool" where
  "more_specific p q \<longleftrightarrow>
     p \<noteq> q \<and> (pat_method q = None \<or> pat_method q = pat_method p) \<and>
     (if pat_exact q then pat_exact p \<and> pat_path p = pat_path q else has_prefix (pat_path p) (pat_path q))"

definition mux_match :: "string \<Rightarrow> string \<Rightarrow> (mux_pattern \<times> endpoint) option" where
  "mux_match verb path =
     find (\<lambda>(p, _). pat_matches verb path p \<and>
         list_all (\<lambda>(q, _). pat_matches verb path q \<longrightarrow> \<not> more_specific q p) mux_table) mux_table"

text \<open>\<open>exactMatch\<close>: the match is not a subtree match with a rest.\<close>

definition exact_match :: "(mux_pattern \<times> endpoint) option \<Rightarrow> string \<Rightarrow> bool" where
  "exact_match n path =
     (case n of None \<Rightarrow> False | Some (p, _) \<Rightarrow> pat_exact p \<or> path = pat_path p)"

definition cleanPath :: "string \<Rightarrow> string" where
  "cleanPath p =
     (if p = [] then ''/''
      else
        (let q = (if hd p \<noteq> CHR ''/'' then CHR ''/'' # p else p); np = filepath_Clean q
         in if last q = CHR ''/'' \<and> np \<noteq> ''/'' then np @ ''/'' else np))"

datatype mux_answer = Redirect string | Handle endpoint | NoMatch | BadRequest

definition slash_redirect :: "string \<Rightarrow> string \<Rightarrow> bool" where
  "slash_redirect verb path \<longleftrightarrow>
     \<not> exact_match (mux_match verb path) path \<and> \<not> has_suffix path ''/'' \<and>
     exact_match (mux_match verb (path @ ''/'')) (path @ ''/'')"

definition mux_find :: "string \<Rightarrow> string \<Rightarrow> mux_answer" where
  "mux_find verb path =
     (let p = (if verb = ''CONNECT'' then path else cleanPath path)
      in if path = ''*'' then BadRequest
         else if slash_redirect verb p then Redirect (cleanPath path @ ''/'')
         else if p \<noteq> path then Redirect p
         else case mux_match verb p of None \<Rightarrow> NoMatch | Some (_, e) \<Rightarrow> Handle e)"

section \<open>The handlers\<close>

definition healthz :: response where
  "healthz = write_body ''OK'' (write_header 200 fresh_response)"

definition hello :: response where
  "hello = write_header 200 fresh_response"

definition rootLiveness :: response where
  "rootLiveness = write_header 200 fresh_response"

definition notFound :: response where
  "notFound = http_Error ''404 page not found'' 404 fresh_response"

text \<open>What the admin endpoints change; the revert of the level is \<open>bborbe/log\<close>'s.\<close>

record server_state =
  sv_trace :: trace_state
  sv_loglevel :: int
  sv_gcs :: nat

definition enableTrace :: "time \<Rightarrow> server_state \<Rightarrow> server_state \<times> response" where
  "enableTrace now s =
     (s\<lparr>sv_trace := ts_Enable now (sv_trace s)\<rparr>, write_body (''trace enabled'' @ [CHR 0x0A]) fresh_response)"

definition disableTrace :: "server_state \<Rightarrow> server_state \<times> response" where
  "disableTrace s =
     (s\<lparr>sv_trace := ts_Disable (sv_trace s)\<rparr>, write_body (''trace disabled'' @ [CHR 0x0A]) fresh_response)"

definition setLogLevel :: "bool \<Rightarrow> string \<Rightarrow> server_state \<Rightarrow> server_state \<times> int" where
  "setLogLevel set_ok path s =
     (case setloglevel set_ok path of
        LevelBad \<Rightarrow> (s, 400)
      | LevelNegative n \<Rightarrow> (s, 400)
      | LevelFailed \<Rightarrow> (s, 500)
      | LevelSet level \<Rightarrow> (s\<lparr>sv_loglevel := level\<rparr>, 200))"

text \<open>
  Outcomes: answered with a response, or with a status where the text comes from elsewhere; left to
  a handler of a library; or passed to the model router, traced or not.
\<close>

datatype served =
    Responded response
  | RespondedStatus int
  | LibraryHandler endpoint
  | ToRouter bool http_request

record mux_config =
  mx_trace :: bool
  mx_allowedKeys :: "string list"

definition v1_handler :: "(string \<Rightarrow> nat list option) \<Rightarrow> mux_config \<Rightarrow> server_state \<Rightarrow> http_request \<Rightarrow> served" where
  "v1_handler parse_ip mx s r =
     (case and_then (NewAuthMiddleware parse_ip (mx_allowedKeys mx)) sessionMiddleware r of
        Inl w \<Rightarrow> Responded w
      | Inr r' \<Rightarrow> ToRouter (trace_on (sv_trace s) (mx_trace mx)) r')"

definition guarded :: "(string \<Rightarrow> nat list option) \<Rightarrow> http_request \<Rightarrow> server_state \<Rightarrow>
    server_state \<times> served \<Rightarrow> server_state \<times> served" where
  "guarded parse_ip r s handled =
     (case adminLoopbackGuard (IsLoopbackRemoteAddr parse_ip) r of
        Inl w \<Rightarrow> (s, Responded w)
      | Inr _ \<Rightarrow> handled)"

definition buildMux :: "(string \<Rightarrow> nat list option) \<Rightarrow> bool \<Rightarrow> time \<Rightarrow> mux_config \<Rightarrow> string \<Rightarrow> string \<Rightarrow> http_request \<Rightarrow>
    server_state \<Rightarrow> server_state \<times> served" where
  "buildMux parse_ip set_ok now mx verb path r s =
     (case mux_find verb path of
        BadRequest \<Rightarrow> (s, RespondedStatus 400)
      | NoMatch \<Rightarrow> (s, RespondedStatus 404)
      | Redirect u \<Rightarrow> (s, RespondedStatus 301)
      | Handle e \<Rightarrow>
          (case e of
             Healthz \<Rightarrow> (s, Responded healthz)
           | Readiness \<Rightarrow> (s, LibraryHandler Readiness)
           | MetricsScrape \<Rightarrow> (s, LibraryHandler MetricsScrape)
           | SetLogLevel \<Rightarrow> guarded parse_ip r s (apsnd RespondedStatus (setLogLevel set_ok path s))
           | EnableTrace \<Rightarrow> guarded parse_ip r s (apsnd Responded (enableTrace now s))
           | DisableTrace \<Rightarrow> guarded parse_ip r s (apsnd Responded (disableTrace s))
           | Gc \<Rightarrow> guarded parse_ip r s (s\<lparr>sv_gcs := sv_gcs s + 1\<rparr>, LibraryHandler Gc)
           | V1 \<Rightarrow> (s, v1_handler parse_ip mx s r)
           | RootLiveness \<Rightarrow> (s, Responded rootLiveness)
           | Hello \<Rightarrow> (s, Responded hello)
           | CatchAll \<Rightarrow> (s, Responded notFound)))"


section \<open>Reloads\<close>

record 't snapshot =
  sn_handler :: "'t handler_tree option"
  sn_cfg :: "'t config option"

definition NewReloader :: "'t handler_tree \<Rightarrow> 't snapshot" where
  "NewReloader initial = \<lparr>sn_handler = Some initial, sn_cfg = None\<rparr>"

definition SeedConfig :: "'t config \<Rightarrow> 't snapshot \<Rightarrow> 't snapshot" where
  "SeedConfig cfg prev = \<lparr>sn_handler = sn_handler prev, sn_cfg = Some cfg\<rparr>"

text \<open>The handler a request runs in, also if the snapshot changes meanwhile; \<open>None\<close> writes nothing.\<close>

definition reloader_ServeHTTP :: "'t snapshot \<Rightarrow> 't handler_tree option" where
  "reloader_ServeHTTP sn = sn_handler sn"

definition ConfigSnapshot :: "'t snapshot \<Rightarrow> 't config option" where
  "ConfigSnapshot sn = sn_cfg sn"

text \<open>
  What one attempt finds: the state of the context, the home directory, the files, the
  environment, the clock, and whether loading or building panics.
\<close>

record surroundings =
  sur_cancelled :: bool
  sur_home :: "string option"
  sur_files :: "string \<rightharpoonup> bytes"
  sur_env :: "string \<rightharpoonup> string"
  sur_now :: time
  sur_panics :: bool

datatype server_error = AuthKeyInEnvironment | LoadFailed load_error | BuildFailed factory_error

datatype reload_result = Reloaded | ReloadFailed server_error | ReloadPanic

definition load_and_build :: "'t time_api \<Rightarrow> (bytes \<Rightarrow> 't config option) \<Rightarrow> (string \<Rightarrow> url option) \<Rightarrow> bool \<Rightarrow> string \<Rightarrow>
    surroundings \<Rightarrow> server_error + 't config \<times> 't handler_tree" where
  "load_and_build api unmarshal url_parse registers cfgPath w =
     (case Load api (sur_cancelled w) (sur_home w) (sur_files w) (sur_env w) unmarshal cfgPath of
        Inl e \<Rightarrow> Inl (LoadFailed e)
      | Inr (cfg, warned) \<Rightarrow>
          (case CreateRouterFromConfig url_parse (sur_cancelled w) registers (sur_now w) cfg of
             Inl e \<Rightarrow> Inl (BuildFailed e)
           | Inr h \<Rightarrow> Inr (cfg, h)))"

text \<open>Every reload registers on a fresh registry, so registration succeeds.\<close>

definition Reload :: "'t time_api \<Rightarrow> (bytes \<Rightarrow> 't config option) \<Rightarrow> (string \<Rightarrow> url option) \<Rightarrow> string \<Rightarrow>
    surroundings \<Rightarrow> 't snapshot \<Rightarrow> 't snapshot \<times> reload_result" where
  "Reload api unmarshal url_parse cfgPath w sn =
     (if sur_panics w then (sn, ReloadPanic)
      else case load_and_build api unmarshal url_parse True cfgPath w of
        Inl e \<Rightarrow> (sn, ReloadFailed e)
      | Inr (cfg, newHandler) \<Rightarrow> (\<lparr>sn_handler = Some newHandler, sn_cfg = Some cfg\<rparr>, Reloaded))"

definition reloadWithRecover :: "'t time_api \<Rightarrow> (bytes \<Rightarrow> 't config option) \<Rightarrow> (string \<Rightarrow> url option) \<Rightarrow> string \<Rightarrow>
    surroundings \<Rightarrow> 't snapshot \<Rightarrow> 't snapshot" where
  "reloadWithRecover api unmarshal url_parse cfgPath w sn = fst (Reload api unmarshal url_parse cfgPath w sn)"

definition CreateServer :: "'t time_api \<Rightarrow> (bytes \<Rightarrow> 't config option) \<Rightarrow> (string \<Rightarrow> url option) \<Rightarrow> bool \<Rightarrow> string \<Rightarrow>
    surroundings \<Rightarrow> server_error + 't snapshot" where
  "CreateServer api unmarshal url_parse registers configPath w =
     (if sur_env w ''ROUTER_AUTH_KEY'' \<notin> {None, Some []} then Inl AuthKeyInEnvironment
      else case load_and_build api unmarshal url_parse registers configPath w of
        Inl e \<Rightarrow> Inl e
      | Inr (cfg, router) \<Rightarrow> Inr (SeedConfig cfg (NewReloader router)))"

text \<open>The loop: one attempt per \<open>SIGHUP\<close> until the context is done.\<close>

definition RunSighupLoop :: "'t time_api \<Rightarrow> (bytes \<Rightarrow> 't config option) \<Rightarrow> (string \<Rightarrow> url option) \<Rightarrow> string \<Rightarrow>
    surroundings list \<Rightarrow> 't snapshot \<Rightarrow> 't snapshot" where
  "RunSighupLoop api unmarshal url_parse cfgPath ws sn =
     foldl (\<lambda>sn w. reloadWithRecover api unmarshal url_parse cfgPath w sn) sn ws"

section \<open>The route table\<close>

lemma find_SomeD: "find P xs = Some x \<Longrightarrow> x \<in> set xs \<and> P x"
  by (induction xs) (auto split: if_splits)

lemma mux_match_Some:
  assumes "mux_match verb path = Some (p, e)"
  shows "(p, e) \<in> set mux_table" "pat_matches verb path p"
  using find_SomeD [OF assms [unfolded mux_match_def]] by auto

lemma v1_prefix_only:
  assumes "has_prefix path ''/v1/''" "(p, e) \<in> set mux_table" "pat_matches verb path p"
  shows "e = V1 \<and> p = subtree ''/v1/'' \<or> e = CatchAll \<and> p = subtree ''/''"
proof -
  obtain rest where rest: "path = ''/v1/'' @ rest" using assms(1) by (metis append_take_drop_id has_prefix_def)
  have no: "\<not> pat_matches verb path (exact q)" if "\<not> has_prefix q ''/v1/''" for q
    using that assms(1) by (auto simp: pat_matches_def exact_def)
  have "\<not> pat_matches verb path (subtree ''/setloglevel/'')"
    "\<not> pat_matches verb path ((exact ''/'')\<lparr>pat_method := Some ''HEAD''\<rparr>)"
    by (simp_all add: rest pat_matches_def subtree_def exact_def has_prefix_def)
  moreover have "\<not> pat_matches verb path (exact q)"
    if "q \<in> {''/healthz'', ''/readiness'', ''/metrics'', ''/enabletrace'', ''/disabletrace'', ''/gc'', ''/api/hello''}" for q
    using that by (intro no) (auto simp: has_prefix_def)
  ultimately show ?thesis using assms(2,3) unfolding mux_table_def by auto
qed

lemma mux_match_v1:
  assumes pre: "has_prefix path ''/v1/''"
  shows "mux_match verb path = Some (subtree ''/v1/'', V1)"
proof -
  define P where "P = (\<lambda>(p, e :: endpoint). pat_matches verb path p \<and>
     list_all (\<lambda>(q, _). pat_matches verb path q \<longrightarrow> \<not> more_specific q p) mux_table)"
  have spec: "\<not> more_specific (subtree ''/'') (subtree ''/v1/'')" "\<not> more_specific (subtree ''/v1/'') (subtree ''/v1/'')"
    "more_specific (subtree ''/v1/'') (subtree ''/'')"
    by (simp_all add: more_specific_def subtree_def has_prefix_def)
  have m: "pat_matches verb path (subtree ''/v1/'')" using pre by (simp add: pat_matches_def subtree_def)
  have mem: "(subtree ''/v1/'', V1) \<in> set mux_table" by (simp add: mux_table_def)
  have "\<not> more_specific q (subtree ''/v1/'')" if "(q, e) \<in> set mux_table" "pat_matches verb path q" for q e
    using v1_prefix_only [OF pre that] spec(1,2) by metis
  then have v1: "P (subtree ''/v1/'', V1)" using m by (auto simp: P_def list_all_iff)
  have "\<not> P (subtree ''/'', CatchAll)" using m mem spec(3) by (auto simp: P_def list_all_iff)
  then have only: "x = (subtree ''/v1/'', V1)" if "x \<in> set mux_table" "P x" for x
    using that v1_prefix_only [OF pre, of "fst x" "snd x" verb] by (cases x) (auto simp: P_def)
  obtain x where x: "find P mux_table = Some x"
    using v1 mem by (cases "find P mux_table") (auto simp: find_None_iff)
  moreover have "x = (subtree ''/v1/'', V1)" using find_SomeD [OF x] only by blast
  ultimately show ?thesis by (simp add: mux_match_def P_def)
qed

lemma mux_find_v1:
  "mux_find verb path = Handle V1 \<longleftrightarrow> has_prefix path ''/v1/'' \<and> (verb = ''CONNECT'' \<or> cleanPath path = path)"
proof
  assume "mux_find verb path = Handle V1"
  then obtain p where "mux_match verb path = Some (p, V1)" "verb = ''CONNECT'' \<or> cleanPath path = path"
    by (auto simp: mux_find_def Let_def split: if_splits option.splits)
  moreover from mux_match_Some [OF this(1)] have "has_prefix path ''/v1/''"
    by (auto simp: mux_table_def pat_matches_def subtree_def)
  ultimately show "has_prefix path ''/v1/'' \<and> (verb = ''CONNECT'' \<or> cleanPath path = path)" by simp
next
  assume a: "has_prefix path ''/v1/'' \<and> (verb = ''CONNECT'' \<or> cleanPath path = path)"
  then obtain rest where rest: "path = ''/v1/'' @ rest" by (metis append_take_drop_id has_prefix_def)
  have "has_prefix (path @ ''/'') ''/v1/''" by (simp add: rest has_prefix_def)
  from mux_match_v1 [OF this, of verb] mux_match_v1 [of path verb] a
  have "\<not> slash_redirect verb path"
    by (auto simp: slash_redirect_def exact_match_def subtree_def rest)
  then show "mux_find verb path = Handle V1"
    using a mux_match_v1 [of path verb] by (auto simp: mux_find_def Let_def rest)
qed


section \<open>Properties\<close>

lemma auth_Inr_iff:
  "(\<exists>r'. NewAuthMiddleware parse_ip keys r = Inr r') \<longleftrightarrow>
     keys = [] \<or> IsLoopbackRemoteAddr parse_ip (hr_RemoteAddr r) \<or>
     hdr_Get (hr_Header r) ''X-Api-Key'' \<noteq> [] \<and> hdr_Get (hr_Header r) ''X-Api-Key'' \<in> set keys"
  by (auto simp: NewAuthMiddleware_def authMiddleware_def Let_def accepts_iff)

lemma session_total: "\<exists>r'. sessionMiddleware r = Inr r'"
  by (simp add: sessionMiddleware_def Let_def)

lemma guarded_cases:
  "guarded parse_ip r s handled =
     (if IsLoopbackRemoteAddr parse_ip (hr_RemoteAddr r) then handled
      else (s, Responded (http_Error ''admin endpoint loopback-only'' 403 fresh_response)))"
  by (simp add: guarded_def adminLoopbackGuard_def)

text \<open>
  C13. The model router is reached exactly under \<open>/v1/\<close>, by a path that is already clean
  (a CONNECT request also by others, since the mux does not clean its path), from a loopback address or
  with a key of the registry (or by anyone when no keys are configured); no other spelling of a path
  gets there.
\<close>

theorem router_only_behind_auth:
  "(\<exists>on r'. snd (buildMux parse_ip set_ok now mx verb path r s) = ToRouter on r') \<longleftrightarrow>
     has_prefix path ''/v1/'' \<and> (verb = ''CONNECT'' \<or> cleanPath path = path) \<and>
     (mx_allowedKeys mx = [] \<or> IsLoopbackRemoteAddr parse_ip (hr_RemoteAddr r) \<or>
      hdr_Get (hr_Header r) ''X-Api-Key'' \<noteq> [] \<and> hdr_Get (hr_Header r) ''X-Api-Key'' \<in> set (mx_allowedKeys mx))"
proof -
  have "(\<exists>on r'. v1_handler parse_ip mx s r = ToRouter on r') \<longleftrightarrow>
      (\<exists>r'. NewAuthMiddleware parse_ip (mx_allowedKeys mx) r = Inr r')"
  proof (cases "NewAuthMiddleware parse_ip (mx_allowedKeys mx) r")
    case (Inr m)
    then show ?thesis using session_total [of m] by (auto simp: v1_handler_def and_then_def)
  qed (simp add: v1_handler_def and_then_def)
  moreover have "(\<exists>on r'. snd (buildMux parse_ip set_ok now mx verb path r s) = ToRouter on r') \<longleftrightarrow>
      mux_find verb path = Handle V1 \<and> (\<exists>on r'. v1_handler parse_ip mx s r = ToRouter on r')"
    by (auto simp: buildMux_def guarded_cases split: mux_answer.splits endpoint.splits)
  ultimately show ?thesis unfolding mux_find_v1 auth_Inr_iff by blast
qed

text \<open>
  C34. Nobody but a caller on a loopback address changes the state the admin endpoints control:
  whatever a remote caller sends, the trace flag, the log level and the number of forced
  garbage collections stay as they were, and the four admin endpoints answer 403.
\<close>

theorem remote_callers_change_nothing:
  assumes "\<not> IsLoopbackRemoteAddr parse_ip (hr_RemoteAddr r)"
  shows "fst (buildMux parse_ip set_ok now mx verb path r s) = s \<and>
    (mux_find verb path \<in> Handle ` {SetLogLevel, EnableTrace, DisableTrace, Gc} \<longrightarrow>
       (\<exists>w. snd (buildMux parse_ip set_ok now mx verb path r s) = Responded w \<and> rs_status w = Some 403))"
proof
  show "fst (buildMux parse_ip set_ok now mx verb path r s) = s"
    using assms by (auto simp: buildMux_def guarded_cases split: mux_answer.splits endpoint.splits)
  have "rs_status (http_Error ''admin endpoint loopback-only'' 403 fresh_response) = Some 403"
    by (rule http_Error_status) (simp add: fresh_response_def)
  then show "mux_find verb path \<in> Handle ` {SetLogLevel, EnableTrace, DisableTrace, Gc} \<longrightarrow>
       (\<exists>w. snd (buildMux parse_ip set_ok now mx verb path r s) = Responded w \<and> rs_status w = Some 403)"
    using assms by (auto simp: buildMux_def guarded_cases)
qed

definition ex_server :: server_state where
  "ex_server = \<lparr>sv_trace = NewTraceState, sv_loglevel = 1, sv_gcs = 0\<rparr>"

theorem remote_callers_change_nothing_witness:
  "mux_find ''POST'' ''/enabletrace'' = Handle EnableTrace \<and>
   (\<exists>w. snd (buildMux (\<lambda>_. None) True 0 \<lparr>mx_trace = False, mx_allowedKeys = []\<rparr> ''POST'' ''/enabletrace'' ex_request ex_server)
      = Responded w \<and> rs_status w = Some 403)"
proof -
  have f: "mux_find ''POST'' ''/enabletrace'' = Handle EnableTrace" by code_simp
  have "\<not> IsLoopbackRemoteAddr (\<lambda>_. None) (hr_RemoteAddr ex_request)"
    by (simp add: IsLoopbackRemoteAddr_def split: option.splits)
  from remote_callers_change_nothing [OF this, of True 0 "\<lparr>mx_trace = False, mx_allowedKeys = []\<rparr>" "''POST''"
      "''/enabletrace''" ex_server] f show ?thesis by simp
qed

lemma load_and_build_Inr:
  assumes "load_and_build api unmarshal url_parse registers cfgPath w = Inr (cfg, h)"
  shows "wf_config api cfg \<and> (\<exists>now. CreateRouterFromConfig url_parse False registers now cfg = Inr h)"
proof -
  obtain c warned where v: "Validate api (sur_cancelled w) c = Inr (cfg, warned)"
    and b: "CreateRouterFromConfig url_parse (sur_cancelled w) registers (sur_now w) cfg = Inr h"
    using assms by (auto simp: load_and_build_def Load_def split: sum.splits option.splits)
  have "\<not> sur_cancelled w"
  proof
    assume "sur_cancelled w"
    then show False using v by (cases "cfg_Providers c") (auto simp: Validate_def split: if_splits)
  qed
  then show ?thesis using v b Validate_Inr by auto
qed

text \<open>The last attempt that loaded and built.\<close>

definition last_good :: "'t time_api \<Rightarrow> (bytes \<Rightarrow> 't config option) \<Rightarrow> (string \<Rightarrow> url option) \<Rightarrow> string \<Rightarrow>
    surroundings list \<Rightarrow> ('t config \<times> 't handler_tree) option" where
  "last_good api unmarshal url_parse cfgPath ws =
     (let xs = List.map_filter (\<lambda>w. if sur_panics w then None
                 else case load_and_build api unmarshal url_parse True cfgPath w of Inl e \<Rightarrow> None | Inr x \<Rightarrow> Some x) ws
      in if xs = [] then None else Some (last xs))"

lemma last_good_snoc:
  "last_good api unmarshal url_parse cfgPath (ws @ [w]) =
     (if sur_panics w then last_good api unmarshal url_parse cfgPath ws
      else case load_and_build api unmarshal url_parse True cfgPath w of
        Inl e \<Rightarrow> last_good api unmarshal url_parse cfgPath ws
      | Inr x \<Rightarrow> Some x)"
  by (simp add: last_good_def List.map_filter_def Let_def split: sum.splits)

text \<open>
  C12. Whatever the configuration file becomes: the served handler and the reported configuration
  are always those of the last attempt that loaded and built, or of the start if none did;
  attempts that fail or panic leave no trace. The two always belong together: the configuration
  is well formed and the handler was built from it.
\<close>

theorem reloads_keep_last_good:
  assumes "CreateServer api unmarshal url_parse True cfgPath w0 = Inr sn"
  shows "(case last_good api unmarshal url_parse cfgPath ws of
      None \<Rightarrow> RunSighupLoop api unmarshal url_parse cfgPath ws sn = sn
    | Some (cfg, h) \<Rightarrow>
        RunSighupLoop api unmarshal url_parse cfgPath ws sn = \<lparr>sn_handler = Some h, sn_cfg = Some cfg\<rparr>) \<and>
    (\<exists>cfg h now. reloader_ServeHTTP (RunSighupLoop api unmarshal url_parse cfgPath ws sn) = Some h \<and>
       ConfigSnapshot (RunSighupLoop api unmarshal url_parse cfgPath ws sn) = Some cfg \<and>
       wf_config api cfg \<and> CreateRouterFromConfig url_parse False True now cfg = Inr h)"
proof -
  have start: "\<exists>cfg h now. sn_handler sn = Some h \<and> sn_cfg sn = Some cfg \<and>
      wf_config api cfg \<and> CreateRouterFromConfig url_parse False True now cfg = Inr h"
    using assms load_and_build_Inr [of api unmarshal url_parse True cfgPath w0]
    by (auto simp: CreateServer_def SeedConfig_def NewReloader_def split: if_splits sum.splits)
  have "(case last_good api unmarshal url_parse cfgPath ws of
      None \<Rightarrow> RunSighupLoop api unmarshal url_parse cfgPath ws sn = sn
    | Some (cfg, h) \<Rightarrow>
        RunSighupLoop api unmarshal url_parse cfgPath ws sn = \<lparr>sn_handler = Some h, sn_cfg = Some cfg\<rparr> \<and>
        wf_config api cfg \<and> (\<exists>now. CreateRouterFromConfig url_parse False True now cfg = Inr h))"
  proof (induction ws rule: rev_induct)
    case Nil
    then show ?case by (simp add: last_good_def RunSighupLoop_def)
  next
    case (snoc w ws)
    have "RunSighupLoop api unmarshal url_parse cfgPath (ws @ [w]) sn =
        reloadWithRecover api unmarshal url_parse cfgPath w (RunSighupLoop api unmarshal url_parse cfgPath ws sn)"
      by (simp add: RunSighupLoop_def)
    then have step: "RunSighupLoop api unmarshal url_parse cfgPath (ws @ [w]) sn =
        fst (Reload api unmarshal url_parse cfgPath w (RunSighupLoop api unmarshal url_parse cfgPath ws sn))"
      by (simp add: reloadWithRecover_def)
    show ?case
    proof (cases "sur_panics w")
      case True
      then show ?thesis using snoc.IH unfolding step last_good_snoc Reload_def by (auto split: option.splits)
    next
      case False
      then show ?thesis
        using snoc.IH load_and_build_Inr [of api unmarshal url_parse True cfgPath w]
        unfolding step last_good_snoc Reload_def
        by (cases "load_and_build api unmarshal url_parse True cfgPath w") (auto split: option.splits)
    qed
  qed
  then show ?thesis
    using start by (auto simp: reloader_ServeHTTP_def ConfigSnapshot_def split: option.splits)
qed


definition ex_surroundings :: surroundings where
  "ex_surroundings = \<lparr>sur_cancelled = False, sur_home = None, sur_files = (\<lambda>_. Some []), sur_env = Map.empty,
     sur_now = 0, sur_panics = False\<rparr>"

theorem reloads_keep_last_good_witness:
  "\<exists>sn h. CreateServer ex_api (\<lambda>_. Some ex_config) ex_url True ''/c'' ex_surroundings = Inr sn \<and>
     reloader_ServeHTTP (RunSighupLoop ex_api (\<lambda>_. Some ex_config) ex_url ''/c''
       [ex_surroundings\<lparr>sur_panics := True\<rparr>, ex_surroundings\<lparr>sur_files := Map.empty\<rparr>] sn) = Some h"
proof -
  have "expandEnvRefs Map.empty [] = Inr []" by (simp add: expandEnvRefs_def expand_loop.simps)
  then have "Load ex_api False None (\<lambda>_. Some []) Map.empty (\<lambda>_. Some ex_config) ''/c'' = Inr (ex_validated, [])"
    by (simp add: Load_def expandTilde_def has_prefix_def ex_config_valid)
  then obtain sn where sn: "CreateServer ex_api (\<lambda>_. Some ex_config) ex_url True ''/c'' ex_surroundings = Inr sn"
    using ex_built by (auto simp: CreateServer_def load_and_build_def ex_surroundings_def)
  from reloads_keep_last_good [OF this] this show ?thesis by blast
qed

end
