(* ===== verification/Gauges.thy ===== *)
theory Gauges
  imports Factory
begin

text \<open>
  What is read back from the handler tree: the load and saturation closures of the model
  pools (\<open>factory.go\<close>) and the scrape-time collectors
  (\<open>provider-inflight-collector.go\<close>, \<open>provider-limit-collector.go\<close>,
  \<open>upstream-inflight-collector.go\<close>). A reading is taken in a \<open>world\<close>: the present state of
  every limiter. The limiters of a running tree are those the factory created, after some
  sequence of events each.
\<close>

section \<open>Readings\<close>

definition counter_value :: "(lim_ref \<Rightarrow> limiter) \<Rightarrow> counter \<Rightarrow> int" where
  "counter_value world c =
     (case c of
        InFlightOf ref \<Rightarrow> int (lim_InFlight (world ref))
      | QueuedOf ref \<Rightarrow> lim_Queued (world ref) 0)"

abbreviation readings :: "(lim_ref \<Rightarrow> limiter) \<Rightarrow> counter option list \<Rightarrow> int option list" where
  "readings world \<equiv> map (map_option (counter_value world))"

definition pool_load :: "(lim_ref \<Rightarrow> limiter) \<Rightarrow> 't provider_parts \<Rightarrow> int" where
  "pool_load world parts = sumInFlight (readings world (pp_inflights parts))"

definition pool_saturated :: "(lim_ref \<Rightarrow> limiter) \<Rightarrow> 't provider_parts \<Rightarrow> go_panic + bool" where
  "pool_saturated world parts = providerSaturated (pp_caps parts) (readings world (pp_inflights parts))"

section \<open>Collectors\<close>

fun sumCounters :: "int option list \<Rightarrow> int" where
  "sumCounters [] = 0"
| "sumCounters (fn # fns) = (case fn of None \<Rightarrow> sumCounters fns | Some n \<Rightarrow> n + sumCounters fns)"

definition sorted_keys :: "('k :: linorder \<rightharpoonup> 'v) \<Rightarrow> 'k list" where
  "sorted_keys m = sorted_list_of_set (dom m)"

text \<open>The series of one scrape: provider, dispatched, queued.\<close>

definition collect_provider_inflight :: "(lim_ref \<Rightarrow> limiter) \<Rightarrow> (string \<rightharpoonup> 't provider_tree) \<Rightarrow>
    (string \<times> int \<times> int) list" where
  "collect_provider_inflight world providers =
     map (\<lambda>name. let parts = pt_parts (the (providers name))
       in (name, sumCounters (readings world (pp_inflights parts)), sumCounters (readings world (pp_queueds parts))))
       (sorted_keys providers)"

definition collect_provider_limit :: "'t time_api \<Rightarrow> (string \<Rightarrow> nat \<Rightarrow> time \<times> time) \<Rightarrow>
    (string \<rightharpoonup> 't provider_tree) \<Rightarrow> (string \<times> int option) list" where
  "collect_provider_limit api clock providers =
     map (\<lambda>name. let parts = pt_parts (the (providers name))
       in (name, ProviderLimit api (clock name) (pp_members parts) (pp_caps parts))) (sorted_keys providers)"

definition collect_upstream_inflight :: "(string \<rightharpoonup> host_limiter) \<Rightarrow> (string \<times> int) list" where
  "collect_upstream_inflight hosts = map (\<lambda>host. (host, host_InFlight (the (hosts host)))) (sorted_keys hosts)"

definition collect_upstream_limit :: "(string \<rightharpoonup> host_limiter) \<Rightarrow> (string \<times> nat option) list" where
  "collect_upstream_limit hosts = map (\<lambda>host. (host, host_Limit (the (hosts host)))) (sorted_keys hosts)"

section \<open>Load and limit\<close>

lemma sumCounters_eq: "sumCounters ns = sumInFlight ns"
  by (induction ns) (auto split: option.splits)

definition in_cap :: "int \<Rightarrow> int option \<Rightarrow> bool" where
  "in_cap cap reading \<longleftrightarrow>
     (if 0 < cap then (\<exists>n. reading = Some n \<and> 0 \<le> n \<and> n \<le> cap) else reading = None)"

lemma in_cap_sum:
  "list_all2 in_cap caps ns \<Longrightarrow> 0 \<le> sumInFlight ns \<and> sumInFlight ns \<le> sum_list (filter ((<) 0) caps)"
  by (induction caps ns rule: list_all2_induct) (auto simp: in_cap_def split: if_splits)

lemma in_cap_saturated:
  "list_all2 in_cap caps ns \<Longrightarrow>
   saturated_scan caps ns = Inr ((\<forall>cap \<in> set caps. 0 < cap) \<and> sumInFlight ns = sum_list caps)"
proof (induction caps ns rule: list_all2_induct)
  case (Cons cap caps n ns)
  show ?case
  proof (cases "0 < cap")
    case True
    then obtain k where k: "n = Some k" "0 \<le> k" "k \<le> cap" using Cons.hyps(1) by (auto simp: in_cap_def)
    have "sumInFlight ns \<le> sum_list caps" if "\<forall>cap \<in> set caps. 0 < cap"
      using in_cap_sum [OF Cons.hyps(2)] that by (simp add: filter_True)
    then show ?thesis using Cons.IH True k by auto
  qed simp
qed simp

definition live_limiters :: "heap \<Rightarrow> (lim_ref \<Rightarrow> limiter) \<Rightarrow> bool" where
  "live_limiters hp world \<longleftrightarrow> (\<forall>k < length (hp_limiters hp).
     \<exists>ws es. run_steps (lim_step ws) (hp_limiters hp ! k) es = Some (world (MemberLim k)))"

lemma live_bound:
  assumes "live_limiters hp world" "k < length (hp_limiters hp)" "hp_limiters hp ! k = limiter_start cap"
  shows "lim_InFlight (world (MemberLim k)) \<le> cap"
proof -
  obtain ws es where "run_steps (lim_step ws) (limiter_start cap) es = Some (world (MemberLim k))"
    using assms unfolding live_limiters_def by metis
  from limiter.reachable_inv [OF refl this] show ?thesis by (simp add: lim_inv_def lim_InFlight_def)
qed

lemma live_in_cap:
  assumes "tree_ok url_parse now cfg hp name tree" "live_limiters hp world"
  shows "list_all2 in_cap (pp_caps (pt_parts tree)) (readings world (pp_inflights (pt_parts tree)))"
proof -
  let ?ups = "UpstreamList (provider_of cfg name)"
  obtain k where tree: "tree = provider_handler (provider_of cfg name) now (parts_of url_parse cfg name k)"
    and k: "k + length (new_limiters ?ups) \<le> length (hp_limiters hp)"
      "take (length (new_limiters ?ups)) (drop k (hp_limiters hp)) = new_limiters ?ups"
    using assms(1) by (auto simp: tree_ok_def Let_def)
  have "lim_InFlight (world (MemberLim (k + length (new_limiters (take i ?ups))))) \<le> nat (up_MaxConcurrentRequests (?ups ! i))"
    if "i < length ?ups" "0 < up_MaxConcurrentRequests (?ups ! i)" for i
    by (rule live_bound [OF assms(2)]) (use owned_limiter [OF that k] in auto)
  then show ?thesis
    unfolding tree provider_handler_parts parts_of_handlers list_all2_conv_all_nth
    by (fastforce simp: numbers_nth in_cap_def counter_value_def)
qed

lemma limit_always_open:
  assumes "length caps = length members" "members \<noteq> []" "\<forall>m \<in> set members. \<not> has_window m"
  shows "ProviderLimit api clock members caps =
    (if \<forall>cap \<in> set caps. 0 < cap then Some (sum_list caps) else None)"
proof -
  let ?f = "\<lambda>i. (Eligible api (clock i) (members ! i), if i < length caps then Some (caps ! i) else None)"
  have f: "map ?f [0 ..< length members] = map (\<lambda>cap. (True, Some cap)) caps"
    using assms by (intro nth_equalityI) (auto simp: Eligible_def has_window_def)
  have "list_ex (\<lambda>e. fst e \<and> uncapped (snd e)) (map (\<lambda>cap. (True, Some cap)) caps) \<longleftrightarrow> \<not> (\<forall>cap \<in> set caps. 0 < cap)"
    by (auto simp: list_ex_iff uncapped_def not_less)
  moreover have "filter fst (map (\<lambda>cap. (True, Some cap)) caps) = map (\<lambda>cap. (True, Some cap)) caps"
    by (simp add: filter_map comp_def)
  ultimately show ?thesis
    using assms(1,2) unfolding ProviderLimit_def f limit_scan_sum by (auto simp: comp_def)
qed

section \<open>Properties\<close>

text \<open>
  C21. The load a provider reports never exceeds the sum of its caps, and reading its saturation
  never fails: it is saturated exactly when every upstream has a cap and the load is the sum of
  the caps. For a provider none of whose upstreams has a window or weekdays, that is exactly
  when the exported number of dispatched requests equals the exported limit, and the dispatched
  requests never exceed a finite limit.
\<close>

theorem saturation_is_full:
  assumes "CreateRouterFromConfig url_parse cancelled registers now cfg = Inr t" "ht_providers t name = Some tree"
    and "live_limiters (ht_heap t) world"
  shows "pool_load world (pt_parts tree) \<le> sum_list (filter ((<) 0) (pp_caps (pt_parts tree))) \<and>
    pool_saturated world (pt_parts tree) = Inr ((\<forall>cap \<in> set (pp_caps (pt_parts tree)). 0 < cap) \<and>
      pool_load world (pt_parts tree) = sum_list (pp_caps (pt_parts tree))) \<and>
    ((\<forall>m \<in> set (pp_members (pt_parts tree)). \<not> has_window m) \<longrightarrow>
       pool_saturated world (pt_parts tree) = Inr
         (ProviderLimit api clock (pp_members (pt_parts tree)) (pp_caps (pt_parts tree)) =
            Some (pool_load world (pt_parts tree))))"
proof (rule CreateRouter_Inr [OF assms(1)])
  fix bd assume bd: "build_ok url_parse now cfg bd" "ht_providers t = bd_providers bd" "ht_heap t = bd_heap bd"
  have ok: "tree_ok url_parse now cfg (ht_heap t) name tree"
    using bd(1) assms(2) unfolding bd(2,3) build_ok_def by blast
  note in_cap = live_in_cap [OF ok assms(3)]
  have caps: "pp_caps (pt_parts tree) \<noteq> []" "length (pp_caps (pt_parts tree)) = length (pp_members (pt_parts tree))"
    "pp_members (pt_parts tree) \<noteq> []"
    using ok by (auto simp: tree_ok_def Let_def parts_of_handlers)
  have sat: "pool_saturated world (pt_parts tree) = Inr ((\<forall>cap \<in> set (pp_caps (pt_parts tree)). 0 < cap) \<and>
      pool_load world (pt_parts tree) = sum_list (pp_caps (pt_parts tree)))"
    using in_cap_saturated [OF in_cap] caps(1) by (simp add: pool_saturated_def providerSaturated_def pool_load_def)
  have "ProviderLimit api clock (pp_members (pt_parts tree)) (pp_caps (pt_parts tree)) =
        Some (pool_load world (pt_parts tree)) \<longleftrightarrow>
      (\<forall>cap \<in> set (pp_caps (pt_parts tree)). 0 < cap) \<and>
        pool_load world (pt_parts tree) = sum_list (pp_caps (pt_parts tree))"
    if "\<forall>m \<in> set (pp_members (pt_parts tree)). \<not> has_window m"
    by (subst limit_always_open [OF caps(2,3) that]) auto
  then show ?thesis using sat in_cap_sum [OF in_cap] by (auto simp: pool_load_def)
qed


definition idle_world :: "heap \<Rightarrow> lim_ref \<Rightarrow> limiter" where
  "idle_world hp ref = (case ref of MemberLim k \<Rightarrow> hp_limiters hp ! k | HostLim key \<Rightarrow> limiter_start 0)"

lemma idle_live: "live_limiters hp (idle_world hp)"
proof -
  have "run_steps (lim_step ws) (hp_limiters hp ! k) [] = Some (idle_world hp (MemberLim k))" for ws k
    by (simp add: idle_world_def)
  then show ?thesis unfolding live_limiters_def by blast
qed

theorem saturation_is_full_witness:
  "\<exists>t tree. CreateRouterFromConfig ex_url False True 0 ex_validated = Inr t \<and> ht_providers t ''b'' = Some tree \<and>
     (\<exists>sat. pool_saturated (idle_world (ht_heap t)) (pt_parts tree) = Inr sat)"
proof -
  obtain t where t: "CreateRouterFromConfig ex_url False True 0 ex_validated = Inr t" "''b'' \<in> dom (ht_providers t)"
    using ex_built by blast
  then obtain tree where tree: "ht_providers t ''b'' = Some tree" by blast
  from saturation_is_full [OF t(1) tree idle_live] t(1) tree show ?thesis by blast
qed

text \<open>
  The queue timeout resolved from the configuration is positive and the configured number of
  seconds, or 30 seconds for a number that is not positive, up to 9223372036 seconds; from
  there on the product wraps around, and 9223372037 seconds is a negative timeout.
\<close>

theorem queue_timeout_bounds:
  assumes "waitSeconds \<le> 9223372036"
  shows "resolveMaxConcurrentWait waitSeconds = (if waitSeconds \<le> 0 then 30 else waitSeconds) * second_ns \<and>
    0 < resolveMaxConcurrentWait waitSeconds \<and> resolveMaxConcurrentWait 9223372037 < 0"
proof -
  let ?w = "if waitSeconds \<le> 0 then 30 else waitSeconds"
  have "0 < ?w" "?w \<le> 9223372036" using assms by auto
  then have "wrap64 (?w * second_ns) = ?w * second_ns" by (intro wrap64_id) (auto simp: second_ns_def)
  then have r: "resolveMaxConcurrentWait waitSeconds = ?w * second_ns"
    unfolding resolveMaxConcurrentWait_def defaultMaxConcurrentWaitSeconds_def .
  moreover have "0 < ?w * second_ns" using \<open>0 < ?w\<close> by (rule mult_pos_pos) simp
  moreover have "resolveMaxConcurrentWait 9223372037 < 0"
    by (simp add: resolveMaxConcurrentWait_def wrap64_def second_ns_def)
  ultimately show ?thesis by metis
qed

theorem queue_timeout_bounds_witness: "resolveMaxConcurrentWait (-1) = 30 * second_ns"
  using queue_timeout_bounds [of "-1"] by simp

end
