(* ===== verification/Registry.thy ===== *)
theory Registry
  imports Gauges
begin

text \<open>
  The collectors of a handler tree and their registration (\<open>metrics.go\<close>, \<open>inflight.go\<close>, the collector
  files, \<open>registerUpstreamInFlight\<close>, \<open>registerProviderInFlight\<close> and \<open>NewReloadRegistry\<close> of
  \<open>factory.go\<close>). The Prometheus client is not part of the repository: a registerer is the argument
  \<open>register\<close>, a function on the state of a registry, and \<open>registerer\<close> is what its documentation
  says of it. Help texts are left out; bucket bounds are in milliseconds.
\<close>

section \<open>Collectors\<close>

record desc =
  ds_name :: string
  ds_labels :: "string list"

datatype metric_kind = CounterKind | GaugeKind | HistogramKind "int list"

record metric_vec =
  mv_kind :: metric_kind
  mv_desc :: desc

definition NewCounterVec :: "string \<Rightarrow> string list \<Rightarrow> metric_vec" where
  "NewCounterVec name labels = \<lparr>mv_kind = CounterKind, mv_desc = \<lparr>ds_name = name, ds_labels = labels\<rparr>\<rparr>"

definition NewGaugeVec :: "string \<Rightarrow> string list \<Rightarrow> metric_vec" where
  "NewGaugeVec name labels = \<lparr>mv_kind = GaugeKind, mv_desc = \<lparr>ds_name = name, ds_labels = labels\<rparr>\<rparr>"

definition NewHistogramVec :: "string \<Rightarrow> int list \<Rightarrow> string list \<Rightarrow> metric_vec" where
  "NewHistogramVec name buckets labels =
     \<lparr>mv_kind = HistogramKind buckets, mv_desc = \<lparr>ds_name = name, ds_labels = labels\<rparr>\<rparr>"

definition LatencyBucketsSeconds :: "int list" where
  "LatencyBucketsSeconds = [100, 250, 500, 1000, 2500, 5000, 10000, 30000, 60000]"

definition QueueWaitBucketsSeconds :: "int list" where
  "QueueWaitBucketsSeconds = [100, 500, 1000, 2500, 5000, 10000, 15000, 20000, 25000, 30000, 45000, 60000]"

text \<open>The collector fields of \<open>Metrics\<close>; \<open>None\<close> is a nil pointer. Of \<open>InFlight\<close>, the descriptors.\<close>

record metric_fields =
  mf_RequestsTotal :: "metric_vec option"
  mf_RequestDuration :: "metric_vec option"
  mf_AliasResolutions :: "metric_vec option"
  mf_TokensTotal :: "metric_vec option"
  mf_CacheTokensTotal :: "metric_vec option"
  mf_ThrottledTotal :: "metric_vec option"
  mf_ColdAdmissionDelayedTotal :: "metric_vec option"
  mf_ColdAdmissionRefusedTotal :: "metric_vec option"
  mf_ColdTokensInFlight :: "metric_vec option"
  mf_ColdTTFTSeconds :: "metric_vec option"
  mf_ColdPrefillBudgetTokens :: "metric_vec option"
  mf_BreakerStateTransitionsTotal :: "metric_vec option"
  mf_RejectedTotal :: "metric_vec option"
  mf_QueueWaitSeconds :: "metric_vec option"
  mf_InFlight :: "(desc \<times> desc) option"

definition newCoreCollectors :: metric_fields where
  "newCoreCollectors =
     \<lparr>mf_RequestsTotal =
        Some (NewCounterVec ''ccrouter_requests_total'' [''provider'', ''model'', ''status_class'']),
      mf_RequestDuration =
        Some (NewHistogramVec ''ccrouter_request_duration_seconds'' LatencyBucketsSeconds [''provider'', ''model'']),
      mf_AliasResolutions =
        Some (NewCounterVec ''ccrouter_alias_resolutions_total'' [''alias'', ''resolved'']),
      mf_TokensTotal = Some (NewCounterVec ''ccrouter_tokens_total'' [''provider'', ''model'', ''direction'']),
      mf_CacheTokensTotal =
        Some (NewCounterVec ''ccrouter_cache_tokens_total'' [''provider'', ''model'', ''direction'']),
      mf_ThrottledTotal = Some (NewCounterVec ''ccrouter_throttled_total'' [''provider'']),
      mf_ColdAdmissionDelayedTotal = None, mf_ColdAdmissionRefusedTotal = None, mf_ColdTokensInFlight = None,
      mf_ColdTTFTSeconds = None, mf_ColdPrefillBudgetTokens = None, mf_BreakerStateTransitionsTotal = None,
      mf_RejectedTotal = None, mf_QueueWaitSeconds = None, mf_InFlight = None\<rparr>"

definition addColdCollectors :: "metric_fields \<Rightarrow> metric_fields" where
  "addColdCollectors m = m\<lparr>
     mf_ColdAdmissionDelayedTotal := Some (NewCounterVec ''ccrouter_cold_admission_delayed_total'' [''provider'']),
     mf_ColdAdmissionRefusedTotal := Some (NewCounterVec ''ccrouter_cold_admission_refused_total'' [''provider'']),
     mf_ColdTokensInFlight := Some (NewGaugeVec ''ccrouter_cold_tokens_in_flight'' [''provider'']),
     mf_ColdTTFTSeconds :=
       Some (NewHistogramVec ''ccrouter_cold_ttft_seconds'' LatencyBucketsSeconds [''provider''])\<rparr>"

definition addSpec020Collectors :: "metric_fields \<Rightarrow> metric_fields" where
  "addSpec020Collectors m = m\<lparr>
     mf_ColdPrefillBudgetTokens := Some (NewGaugeVec ''ccrouter_cold_prefill_budget_tokens'' [''provider'']),
     mf_BreakerStateTransitionsTotal :=
       Some (NewCounterVec ''ccrouter_breaker_state_transitions_total'' [''provider'', ''state''])\<rparr>"

definition addRejectionCollectors :: "metric_fields \<Rightarrow> metric_fields" where
  "addRejectionCollectors m = m\<lparr>
     mf_RejectedTotal := Some (NewCounterVec ''ccrouter_rejected_total'' [''provider'', ''reason'']),
     mf_QueueWaitSeconds :=
       Some (NewHistogramVec ''ccrouter_queue_wait_seconds'' QueueWaitBucketsSeconds [''provider''])\<rparr>"

definition inFlightDescs :: "desc \<times> desc" where
  "inFlightDescs = (\<lparr>ds_name = ''ccrouter_inflight_requests'', ds_labels = [''provider'']\<rparr>,
     \<lparr>ds_name = ''ccrouter_inflight_requests_peak'', ds_labels = [''provider'']\<rparr>)"

definition new_metric_fields :: metric_fields where
  "new_metric_fields =
     (addRejectionCollectors (addSpec020Collectors (addColdCollectors newCoreCollectors)))
       \<lparr>mf_InFlight := Some inFlightDescs\<rparr>"

section \<open>Registration\<close>

text \<open>A collector is registered by the descriptors it describes itself with.\<close>

definition vec_Describe :: "metric_vec \<Rightarrow> desc list" where
  "vec_Describe v = [mv_desc v]"

definition inFlight_Describe :: "desc \<times> desc \<Rightarrow> desc list" where
  "inFlight_Describe d = [fst d, snd d]"

definition metric_collectors :: "metric_fields \<Rightarrow> desc list option list" where
  "metric_collectors m =
     map (map_option vec_Describe)
       [mf_RequestsTotal m, mf_RequestDuration m, mf_AliasResolutions m, mf_TokensTotal m, mf_CacheTokensTotal m,
        mf_ThrottledTotal m, mf_ColdAdmissionDelayedTotal m, mf_ColdAdmissionRefusedTotal m,
        mf_ColdTokensInFlight m, mf_ColdTTFTSeconds m, mf_ColdPrefillBudgetTokens m,
        mf_BreakerStateTransitionsTotal m, mf_RejectedTotal m, mf_QueueWaitSeconds m] @
     [map_option inFlight_Describe (mf_InFlight m)]"

datatype registration = Registered | Refused | NilCollector

text \<open>The collectors before a refused one stay registered; a nil pointer cannot describe itself.\<close>

fun register_all :: "('r \<Rightarrow> desc list \<Rightarrow> 'r option) \<Rightarrow> desc list option list \<Rightarrow> 'r \<Rightarrow> 'r \<times> registration" where
  "register_all register [] reg = (reg, Registered)"
| "register_all register (c # cs) reg =
     (case c of
        None \<Rightarrow> (reg, NilCollector)
      | Some ds \<Rightarrow>
          (case register reg ds of
             None \<Rightarrow> (reg, Refused)
           | Some reg' \<Rightarrow> register_all register cs reg'))"

definition metrics_Register :: "('r \<Rightarrow> desc list \<Rightarrow> 'r option) \<Rightarrow> metric_fields \<Rightarrow> 'r \<Rightarrow> 'r \<times> registration" where
  "metrics_Register register m reg = register_all register (metric_collectors m) reg"

section \<open>Scrape-time collectors\<close>

text \<open>A Go map is an association list in its iteration order; a missing key reads as the nil slice.\<close>

record provider_inflight_collector =
  pic_dispatchedDesc :: desc
  pic_queuedDesc :: desc
  pic_providers :: "string list"
  pic_dispatched :: "counter option list list"
  pic_queued :: "counter option list list"

definition slice_of :: "(string \<times> 'a list) list \<Rightarrow> string \<Rightarrow> 'a list" where
  "slice_of m k = (case map_of m k of None \<Rightarrow> [] | Some xs \<Rightarrow> xs)"

definition NewProviderInFlightCollector :: "(string \<times> counter option list) list \<Rightarrow>
    (string \<times> counter option list) list \<Rightarrow> provider_inflight_collector" where
  "NewProviderInFlightCollector dispatched queued =
     (let providers = sort (map fst dispatched)
      in \<lparr>pic_dispatchedDesc = \<lparr>ds_name = ''ccrouter_provider_dispatched'', ds_labels = [''provider'']\<rparr>,
          pic_queuedDesc = \<lparr>ds_name = ''ccrouter_provider_queued'', ds_labels = [''provider'']\<rparr>,
          pic_providers = providers,
          pic_dispatched = map (slice_of dispatched) providers,
          pic_queued = map (slice_of queued) providers\<rparr>)"

definition pic_Describe :: "provider_inflight_collector \<Rightarrow> desc list" where
  "pic_Describe c = [pic_dispatchedDesc c, pic_queuedDesc c]"

text \<open>A sample: the name of the series, its label value, the reading.\<close>

definition pic_Collect :: "(lim_ref \<Rightarrow> limiter) \<Rightarrow> provider_inflight_collector \<Rightarrow> (string \<times> string \<times> int) list" where
  "pic_Collect world c = concat (map (\<lambda>i. let p = pic_providers c ! i in
     [(ds_name (pic_dispatchedDesc c), p, sumCounters (readings world (pic_dispatched c ! i))),
      (ds_name (pic_queuedDesc c), p, sumCounters (readings world (pic_queued c ! i)))])
     [0 ..< length (pic_providers c)])"

text \<open>The limit functions, and the limiters of the hosts, by name.\<close>

record 'f named_collector =
  nc_desc :: desc
  nc_names :: "string list"
  nc_read :: "'f list"

definition keyed_collector :: "string \<Rightarrow> string \<Rightarrow> (string \<times> 'f) list \<Rightarrow> 'f named_collector" where
  "keyed_collector metric label m =
     (let names = sort (map fst m)
      in \<lparr>nc_desc = \<lparr>ds_name = metric, ds_labels = [label]\<rparr>, nc_names = names,
          nc_read = map (the \<circ> map_of m) names\<rparr>)"

definition NewProviderLimitCollector :: "(string \<times> 'f) list \<Rightarrow> 'f named_collector" where
  "NewProviderLimitCollector = keyed_collector ''ccrouter_provider_limit'' ''provider''"

definition NewUpstreamLimitCollector :: "(string \<times> host_limiter) list \<Rightarrow> host_limiter named_collector" where
  "NewUpstreamLimitCollector = keyed_collector ''ccrouter_upstream_limit'' ''host''"

definition NewUpstreamInFlightCollector :: "(string \<times> host_limiter) list \<Rightarrow> host_limiter named_collector" where
  "NewUpstreamInFlightCollector = keyed_collector ''ccrouter_upstream_inflight'' ''host''"

definition nc_Describe :: "'f named_collector \<Rightarrow> desc list" where
  "nc_Describe c = [nc_desc c]"

definition nc_Collect :: "('f \<Rightarrow> 'v) \<Rightarrow> 'f named_collector \<Rightarrow> (string \<times> string \<times> 'v) list" where
  "nc_Collect reading c =
     map (\<lambda>i. (ds_name (nc_desc c), nc_names c ! i, reading (nc_read c ! i))) [0 ..< length (nc_names c)]"

definition registerUpstreamInFlight :: "('r \<Rightarrow> desc list \<Rightarrow> 'r option) \<Rightarrow> (string \<times> host_limiter) list \<Rightarrow> 'r \<Rightarrow>
    'r \<times> registration" where
  "registerUpstreamInFlight register hosts reg = register_all register
     [Some (nc_Describe (NewUpstreamInFlightCollector hosts)), Some (nc_Describe (NewUpstreamLimitCollector hosts))] reg"

definition registerProviderInFlight :: "('r \<Rightarrow> desc list \<Rightarrow> 'r option) \<Rightarrow> (string \<times> counter option list) list \<Rightarrow>
    (string \<times> counter option list) list \<Rightarrow> (string \<times> 'f) list \<Rightarrow> 'r \<Rightarrow> 'r \<times> registration" where
  "registerProviderInFlight register dispatched queued limits reg = register_all register
     [Some (pic_Describe (NewProviderInFlightCollector dispatched queued)),
      Some (nc_Describe (NewProviderLimitCollector limits))] reg"

text \<open>The maps the factory fills while it builds the providers, for one iteration order of their keys.\<close>

record tree_maps =
  tm_dispatched :: "(string \<times> counter option list) list"
  tm_queued :: "(string \<times> counter option list) list"
  tm_limits :: "(string \<times> string) list"
  tm_hosts :: "(string \<times> host_limiter) list"

definition register_tree :: "('r \<Rightarrow> desc list \<Rightarrow> 'r option) \<Rightarrow> tree_maps \<Rightarrow> 'r \<Rightarrow> 'r \<times> registration" where
  "register_tree register tm reg =
     (case metrics_Register register new_metric_fields reg of
        (reg1, Registered) \<Rightarrow>
          (case registerUpstreamInFlight register (tm_hosts tm) reg1 of
             (reg2, Registered) \<Rightarrow> registerProviderInFlight register (tm_dispatched tm) (tm_queued tm) (tm_limits tm) reg2
           | refused \<Rightarrow> refused)
      | refused \<Rightarrow> refused)"

text \<open>The construction with the registerer it was given.\<close>

definition create_router_on :: "('r \<Rightarrow> desc list \<Rightarrow> 'r option) \<Rightarrow> tree_maps \<Rightarrow> (string \<Rightarrow> url option) \<Rightarrow> bool \<Rightarrow> time \<Rightarrow>
    't config \<Rightarrow> 'r \<Rightarrow> 'r \<times> (factory_error + 't handler_tree)" where
  "create_router_on register tm url_parse cancelled now cfg reg =
     (case CreateRouterFromConfig url_parse cancelled True now cfg of
        Inl e \<Rightarrow> (reg, Inl e)
      | Inr t \<Rightarrow>
          (case register_tree register tm reg of
             (reg', res) \<Rightarrow> (reg', CreateRouterFromConfig url_parse cancelled (res = Registered) now cfg)))"

definition NewReloadRegistry :: "('r \<Rightarrow> desc list \<Rightarrow> 'r option) \<Rightarrow> 'r \<Rightarrow> desc list \<Rightarrow> desc list \<Rightarrow> 'r option" where
  "NewReloadRegistry register new go process =
     (case register_all register [Some go, Some process] new of
        (reg, Registered) \<Rightarrow> Some reg
      | _ \<Rightarrow> None)"

section \<open>What a registerer does\<close>

definition name_start :: "char \<Rightarrow> bool" where
  "name_start c \<longleftrightarrow> c = CHR ''_'' \<or> (CHR ''a'' \<le> c \<and> c \<le> CHR ''z'') \<or> (CHR ''A'' \<le> c \<and> c \<le> CHR ''Z'')"

definition name_char :: "char \<Rightarrow> bool" where
  "name_char c \<longleftrightarrow> name_start c \<or> (CHR ''0'' \<le> c \<and> c \<le> CHR ''9'')"

definition valid_name :: "string \<Rightarrow> bool" where
  "valid_name s \<longleftrightarrow> (case s of [] \<Rightarrow> False | c # cs \<Rightarrow> name_start c \<and> list_all name_char cs)"

definition valid_descs :: "desc list \<Rightarrow> bool" where
  "valid_descs ds \<longleftrightarrow> distinct (map ds_name ds) \<and>
     list_all (\<lambda>d. valid_name (ds_name d) \<and> list_all valid_name (ds_labels d) \<and>
       list_all (\<lambda>l. \<not> has_prefix l ''__'' \<and> l \<noteq> ''le'') (ds_labels d) \<and> distinct (ds_labels d)) ds"

text \<open>
  A registry accepts well-formed descriptors under names it does not know yet, and then knows them; it
  refuses a descriptor whose name is taken. The label \<open>le\<close> is reserved for histograms.
\<close>

definition registerer :: "('r \<Rightarrow> desc list \<Rightarrow> 'r option) \<Rightarrow> ('r \<Rightarrow> string set) \<Rightarrow> bool" where
  "registerer register known \<longleftrightarrow> (\<forall>reg ds.
     (valid_descs ds \<and> known reg \<inter> set (map ds_name ds) = {} \<longrightarrow>
        (\<exists>reg'. register reg ds = Some reg' \<and> known reg' = known reg \<union> set (map ds_name ds))) \<and>
     (known reg \<inter> set (map ds_name ds) \<noteq> {} \<longrightarrow> register reg ds = None))"

section \<open>A tree registers once per registry\<close>

definition names_of :: "desc list list \<Rightarrow> string list" where
  "names_of cs = concat (map (map ds_name) cs)"

lemma names_of_simps [simp]:
  "names_of [] = []" "names_of (ds # cs) = map ds_name ds @ names_of cs"
  "names_of (cs @ cs') = names_of cs @ names_of cs'"
  by (simp_all add: names_of_def)

definition tree_descs :: "desc list list" where
  "tree_descs = [vec_Describe v. Some v \<leftarrow>
       [mf_RequestsTotal new_metric_fields, mf_RequestDuration new_metric_fields, mf_AliasResolutions new_metric_fields,
        mf_TokensTotal new_metric_fields, mf_CacheTokensTotal new_metric_fields, mf_ThrottledTotal new_metric_fields,
        mf_ColdAdmissionDelayedTotal new_metric_fields, mf_ColdAdmissionRefusedTotal new_metric_fields,
        mf_ColdTokensInFlight new_metric_fields, mf_ColdTTFTSeconds new_metric_fields,
        mf_ColdPrefillBudgetTokens new_metric_fields, mf_BreakerStateTransitionsTotal new_metric_fields,
        mf_RejectedTotal new_metric_fields, mf_QueueWaitSeconds new_metric_fields]] @
     [inFlight_Describe inFlightDescs,
      [\<lparr>ds_name = ''ccrouter_upstream_inflight'', ds_labels = [''host'']\<rparr>],
      [\<lparr>ds_name = ''ccrouter_upstream_limit'', ds_labels = [''host'']\<rparr>],
      [\<lparr>ds_name = ''ccrouter_provider_dispatched'', ds_labels = [''provider'']\<rparr>,
       \<lparr>ds_name = ''ccrouter_provider_queued'', ds_labels = [''provider'']\<rparr>],
      [\<lparr>ds_name = ''ccrouter_provider_limit'', ds_labels = [''provider'']\<rparr>]]"

lemma register_all_append:
  "register_all register (cs @ cs') reg =
     (case register_all register cs reg of
        (reg', Registered) \<Rightarrow> register_all register cs' reg'
      | refused \<Rightarrow> refused)"
  by (induction cs arbitrary: reg) (auto split: option.splits)

lemma register_tree_descs: "register_tree register tm reg = register_all register (map Some tree_descs) reg"
proof -
  have "map Some tree_descs = metric_collectors new_metric_fields @
      [Some (nc_Describe (NewUpstreamInFlightCollector (tm_hosts tm))),
       Some (nc_Describe (NewUpstreamLimitCollector (tm_hosts tm)))] @
      [Some (pic_Describe (NewProviderInFlightCollector (tm_dispatched tm) (tm_queued tm))),
       Some (nc_Describe (NewProviderLimitCollector (tm_limits tm)))]"
    by (simp add: tree_descs_def metric_collectors_def new_metric_fields_def newCoreCollectors_def addColdCollectors_def
      addSpec020Collectors_def addRejectionCollectors_def nc_Describe_def NewUpstreamInFlightCollector_def
      NewUpstreamLimitCollector_def NewProviderInFlightCollector_def NewProviderLimitCollector_def keyed_collector_def
      pic_Describe_def Let_def)
  then show ?thesis
    unfolding register_tree_def metrics_Register_def registerUpstreamInFlight_def registerProviderInFlight_def
    by (simp only: register_all_append split: prod.splits registration.splits)
qed

lemma registererD:
  assumes "registerer register known"
  shows "valid_descs ds \<Longrightarrow> known reg \<inter> set (map ds_name ds) = {} \<Longrightarrow>
      \<exists>reg'. register reg ds = Some reg' \<and> known reg' = known reg \<union> set (map ds_name ds)"
    and "known reg \<inter> set (map ds_name ds) \<noteq> {} \<Longrightarrow> register reg ds = None"
  using assms unfolding registerer_def by blast+

lemma register_all_ok:
  assumes "registerer register known" "list_all valid_descs cs" "distinct (names_of cs)"
    and "known reg \<inter> set (names_of cs) = {}"
  shows "\<exists>reg'. register_all register (map Some cs) reg = (reg', Registered) \<and> known reg' = known reg \<union> set (names_of cs)"
  using assms(2-4)
proof (induction cs arbitrary: reg)
  case (Cons ds cs)
  obtain reg1 where reg1: "register reg ds = Some reg1" "known reg1 = known reg \<union> set (map ds_name ds)"
    using registererD(1) [OF assms(1), of ds reg] Cons.prems by auto
  have "known reg1 \<inter> set (names_of cs) = {}" using reg1(2) Cons.prems(2,3) by auto
  from Cons.IH [OF _ _ this] Cons.prems(1,2) reg1 show ?case by auto
qed simp

lemma register_all_refused:
  assumes "registerer register known" "known reg \<inter> set (map ds_name ds) \<noteq> {}"
  shows "register_all register (Some ds # cs) reg = (reg, Refused)"
  using registererD(2) [OF assms] by simp

lemma tree_descs_valid: "list_all valid_descs tree_descs" "distinct (names_of tree_descs)"
  by code_simp+

lemma tree_descs_prefix: "list_all (\<lambda>n. has_prefix n ''ccrouter_'') (names_of tree_descs)"
  by code_simp

lemma tree_descs_length: "length (names_of tree_descs) = 21"
  by code_simp

lemma tree_descs_Cons: "\<exists>cs. tree_descs = [\<lparr>ds_name = ''ccrouter_requests_total'',
    ds_labels = [''provider'', ''model'', ''status_class'']\<rparr>] # cs"
  by (simp add: tree_descs_def new_metric_fields_def newCoreCollectors_def addColdCollectors_def
      addSpec020Collectors_def addRejectionCollectors_def vec_Describe_def NewCounterVec_def)

lemma CreateRouter_registers:
  "CreateRouterFromConfig url_parse cancelled True now cfg = Inr t \<Longrightarrow>
   CreateRouterFromConfig url_parse cancelled False now cfg = Inl RegisterFailed"
  by (auto simp: CreateRouterFromConfig_def split: sum.splits option.splits)

lemma bucket_ladders:
  "sorted_wrt (<) LatencyBucketsSeconds" "sorted_wrt (<) QueueWaitBucketsSeconds" "resolveMaxConcurrentWait 0 = 30000 * 1000000"
  "30000 \<in> set QueueWaitBucketsSeconds"
  by (simp_all add: LatencyBucketsSeconds_def QueueWaitBucketsSeconds_def resolveMaxConcurrentWait_def
    defaultMaxConcurrentWaitSeconds_def second_ns_def wrap64_def)

lemma create_router_on_fresh:
  assumes "registerer register known" "CreateRouterFromConfig url_parse cancelled True now cfg = Inr t"
    and "known reg \<inter> set (names_of tree_descs) = {}"
  shows "\<exists>reg'. create_router_on register tm url_parse cancelled now cfg reg = (reg', Inr t) \<and>
    known reg' = known reg \<union> set (names_of tree_descs)"
  using register_all_ok [OF assms(1) tree_descs_valid assms(3)] assms(2)
  by (auto simp: create_router_on_def register_tree_descs)

lemma create_router_on_taken:
  assumes "registerer register known" "CreateRouterFromConfig url_parse cancelled True now cfg = Inr t"
    and "set (names_of tree_descs) \<subseteq> known reg"
  shows "create_router_on register tm url_parse cancelled now cfg reg = (reg, Inl RegisterFailed)"
proof -
  obtain cs where cs: "tree_descs = [\<lparr>ds_name = ''ccrouter_requests_total'',
      ds_labels = [''provider'', ''model'', ''status_class'']\<rparr>] # cs" using tree_descs_Cons by blast
  have "register_all register (map Some tree_descs) reg = (reg, Refused)"
    using assms(3) register_all_refused [OF assms(1)] unfolding cs list.map(2) by auto
  then show ?thesis
    using assms(2) CreateRouter_registers [OF assms(2)] by (simp add: create_router_on_def register_tree_descs)
qed

lemma reload_registry_fresh:
  assumes "registerer register known" "valid_descs go" "valid_descs process"
    and "distinct (map ds_name (go @ process))" "known new = {}"
    and "\<forall>n \<in> set (map ds_name (go @ process)). \<not> has_prefix n ''ccrouter_''"
  obtains reg where "NewReloadRegistry register new go process = Some reg"
    "known reg = set (map ds_name (go @ process))" "known reg \<inter> set (names_of tree_descs) = {}"
proof -
  obtain reg where "register_all register (map Some [go, process]) new = (reg, Registered)"
    "known reg = set (map ds_name (go @ process))"
    using register_all_ok [OF assms(1), of "[go, process]" new] assms(2-5) by auto
  then show thesis
    using that [of reg] assms(6) tree_descs_prefix by (auto simp: NewReloadRegistry_def list_all_iff)
qed

text \<open>
  C22. A tree registers once per registry. The registry made for a reload knows the Go and process collectors
  only, so every tree that can be built registers its twenty-one series there and registration is no reason
  for a reload to fail; but a second tree on the same registry is refused and leaves it as it was, which is
  why a reload has to bring a registry of its own.
\<close>

theorem one_tree_per_registry:
  assumes "registerer register known" "CreateRouterFromConfig url_parse cancelled True now cfg = Inr t"
    and "valid_descs go" "valid_descs process" "distinct (map ds_name (go @ process))" "known new = {}"
    and "\<forall>n \<in> set (map ds_name (go @ process)). \<not> has_prefix n ''ccrouter_''"
  shows "\<exists>reg reg'. NewReloadRegistry register new go process = Some reg \<and>
      create_router_on register tm url_parse cancelled now cfg reg = (reg', Inr t) \<and>
      known reg' = set (map ds_name (go @ process)) \<union> set (names_of tree_descs) \<and>
      card (set (names_of tree_descs)) = 21 \<and>
      (\<forall>tm' now' cfg' t'. CreateRouterFromConfig url_parse cancelled True now' cfg' = Inr t' \<longrightarrow>
         create_router_on register tm' url_parse cancelled now' cfg' reg' = (reg', Inl RegisterFailed))"
proof -
  obtain reg where reg: "NewReloadRegistry register new go process = Some reg"
    "known reg = set (map ds_name (go @ process))" "known reg \<inter> set (names_of tree_descs) = {}"
    by (rule reload_registry_fresh [OF assms(1,3-7)])
  obtain reg' where reg': "create_router_on register tm url_parse cancelled now cfg reg = (reg', Inr t)"
    "known reg' = known reg \<union> set (names_of tree_descs)"
    using create_router_on_fresh [OF assms(1,2) reg(3)] by blast
  have "card (set (names_of tree_descs)) = 21"
    using distinct_card [OF tree_descs_valid(2)] by (simp add: tree_descs_length)
  then show ?thesis
    using reg reg' create_router_on_taken [OF assms(1), of url_parse cancelled _ _ _ reg'] by blast
qed

text \<open>A registry that remembers the names it was given.\<close>

definition ex_register :: "string list \<Rightarrow> desc list \<Rightarrow> string list option" where
  "ex_register reg ds =
     (if valid_descs ds \<and> list_all (\<lambda>d. ds_name d \<notin> set reg) ds then Some (reg @ map ds_name ds) else None)"

lemma ex_registerer: "registerer ex_register set"
  by (auto simp: registerer_def ex_register_def list_all_iff)

definition ex_go :: "desc list" where
  "ex_go = [\<lparr>ds_name = ''go_goroutines'', ds_labels = []\<rparr>]"

definition ex_process :: "desc list" where
  "ex_process = [\<lparr>ds_name = ''process_open_fds'', ds_labels = []\<rparr>]"

definition ex_maps :: tree_maps where
  "ex_maps = \<lparr>tm_dispatched = [], tm_queued = [], tm_limits = [], tm_hosts = []\<rparr>"

theorem one_tree_per_registry_witness:
  "\<exists>t reg reg'. NewReloadRegistry ex_register [] ex_go ex_process = Some reg \<and>
     create_router_on ex_register ex_maps ex_url False 0 ex_validated reg = (reg', Inr t) \<and>
     ''ccrouter_requests_total'' \<in> set reg' \<and>
     create_router_on ex_register ex_maps ex_url False 0 ex_validated reg' = (reg', Inl RegisterFailed)"
proof -
  obtain t where t: "CreateRouterFromConfig ex_url False True 0 ex_validated = Inr t" using ex_built by blast
  have go: "valid_descs ex_go" "valid_descs ex_process" "distinct (map ds_name (ex_go @ ex_process))"
    "\<forall>n \<in> set (map ds_name (ex_go @ ex_process)). \<not> has_prefix n ''ccrouter_''" by code_simp+
  have "''ccrouter_requests_total'' \<in> set (names_of tree_descs)" by code_simp

  moreover obtain reg reg' where "NewReloadRegistry ex_register [] ex_go ex_process = Some reg"
    "create_router_on ex_register ex_maps ex_url False 0 ex_validated reg = (reg', Inr t)"
    "set reg' = set (map ds_name (ex_go @ ex_process)) \<union> set (names_of tree_descs)"
    "create_router_on ex_register ex_maps ex_url False 0 ex_validated reg' = (reg', Inl RegisterFailed)"
    using one_tree_per_registry [OF ex_registerer t go(1-3) list.set(1) go(4), of ex_maps] t
    by blast
  ultimately show ?thesis by blast
qed

section \<open>A scrape\<close>

text \<open>The maps of the factory for a finished tree, in any order.\<close>

definition maps_of_tree :: "'t handler_tree \<Rightarrow> tree_maps \<Rightarrow> bool" where
  "maps_of_tree t tm \<longleftrightarrow>
     distinct (map fst (tm_dispatched tm)) \<and> distinct (map fst (tm_hosts tm)) \<and>
     map_of (tm_dispatched tm) = map_option (\<lambda>tree. pp_inflights (pt_parts tree)) \<circ> ht_providers t \<and>
     map_of (tm_queued tm) = map_option (\<lambda>tree. pp_queueds (pt_parts tree)) \<circ> ht_providers t \<and>
     map_of (tm_hosts tm) = map_option fst \<circ> hp_hosts (ht_heap t)"

text \<open>A built tree has finitely many providers and hosts, so it has such maps.\<close>

lemma add_member_finite:
  "finite (dom (hp_hosts (snd ph))) \<Longrightarrow> finite (dom (hp_hosts (snd (add_member name defaultToken limits up u ph))))"
  by (auto simp: add_member_def hostLimiterFor_def limit_member_def Let_def split: prod.splits option.splits)

lemma build_members_finite:
  "build_members url_parse cancelled name defaultToken limits ups ph = Inr ph' \<Longrightarrow>
   finite (dom (hp_hosts (snd ph))) \<Longrightarrow> finite (dom (hp_hosts (snd ph')))"
proof (induction ups arbitrary: ph)
  case (Cons up ups)
  then show ?case
    using Cons.IH [OF _ add_member_finite [OF Cons.prems(2)]] by (auto split: if_splits option.splits)
qed simp

lemma build_providers_finite:
  "build_providers url_parse cancelled now cfg names bd = Inr bd' \<Longrightarrow>
   finite (dom (hp_hosts (bd_heap bd))) \<Longrightarrow> finite (dom (hp_hosts (bd_heap bd')))"
proof (induction names arbitrary: bd)
  case (Cons name names)
  then show ?case
    using build_members_finite [of url_parse cancelled name "cfg_DefaultToken cfg" "cfg_UpstreamHostLimits cfg"
        "UpstreamList (provider_of cfg name)" "(no_parts, bd_heap bd)"]
    by (auto simp: Let_def buildUpstreamMembers_def split: if_splits sum.splits)
qed simp

lemma maps_of_tree_exist:
  assumes "CreateRouterFromConfig url_parse cancelled registers now cfg = Inr t"
  shows "\<exists>tm. maps_of_tree t tm"
proof -
  have providers: "finite (dom (ht_providers t))"
    by (rule CreateRouter_Inr [OF assms]) simp
  have hosts: "finite (dom (hp_hosts (ht_heap t)))"
    using assms by (auto simp: CreateRouterFromConfig_def split: sum.splits option.splits if_splits
      dest!: build_providers_finite)
  let ?keys = "\<lambda>m f. map (\<lambda>k. (k, f (the (m k)))) (sorted_list_of_set (dom m))"
  have keys: "map_of (?keys m f) = map_option f \<circ> m \<and> distinct (map fst (?keys m f))" if "finite (dom m)"
    for m :: "string \<rightharpoonup> 'x" and f :: "'x \<Rightarrow> 'y"
    using that by (auto simp: map_of_map_restrict restrict_map_def comp_def fun_eq_iff domIff split: option.splits)
  show ?thesis
    using keys [OF providers, of "\<lambda>tree. pp_inflights (pt_parts tree)"]
      keys [OF providers, of "\<lambda>tree. pp_queueds (pt_parts tree)"] keys [OF hosts, of fst]
    by (intro exI [of _ "\<lparr>tm_dispatched = ?keys (ht_providers t) (\<lambda>tree. pp_inflights (pt_parts tree)),
      tm_queued = ?keys (ht_providers t) (\<lambda>tree. pp_queueds (pt_parts tree)), tm_limits = [],
      tm_hosts = ?keys (hp_hosts (ht_heap t)) fst\<rparr>"]) (simp add: maps_of_tree_def)
qed

lemma sort_keys: "distinct (map fst m) \<Longrightarrow> sort (map fst m) = sorted_keys (map_of m)"
  by (simp add: sorted_keys_def dom_map_of_conv_image_fst sorted_list_of_set_sort_remdups distinct_remdups_id
    flip: set_map)

lemma sorted_keys_option: "sorted_keys (map_option f \<circ> m) = sorted_keys m"
  by (simp add: sorted_keys_def dom_map_option_comp)


lemma keyed_collect:
  assumes "distinct (map fst m)"
  shows "nc_Collect reading (keyed_collector metric label m) =
    map (\<lambda>k. (metric, k, reading (the (map_of m k)))) (sorted_keys (map_of m))"
  unfolding nc_Collect_def keyed_collector_def Let_def sort_keys [OF assms]
  by (auto intro!: nth_equalityI)

lemma pic_collect:
  assumes "distinct (map fst d)"
  shows "pic_Collect world (NewProviderInFlightCollector d q) = concat (map (\<lambda>p.
     [(''ccrouter_provider_dispatched'', p, sumCounters (readings world (slice_of d p))),
      (''ccrouter_provider_queued'', p, sumCounters (readings world (slice_of q p)))]) (sorted_keys (map_of d)))"
  unfolding pic_Collect_def NewProviderInFlightCollector_def Let_def sort_keys [OF assms]
  by (intro arg_cong [where f = concat] nth_equalityI) auto

text \<open>
  C23. A scrape tells the state of the tree's limiters, whatever the order in which Go ranges over its maps: one
  pair of series per provider and one pair per host, sorted by name.
\<close>

theorem scrape_reads_tree:
  assumes "maps_of_tree t tm"
  shows "pic_Collect world (NewProviderInFlightCollector (tm_dispatched tm) (tm_queued tm)) =
      concat (map (\<lambda>(p, dispatched, queued). [(''ccrouter_provider_dispatched'', p, dispatched),
        (''ccrouter_provider_queued'', p, queued)]) (collect_provider_inflight world (ht_providers t))) \<and>
    nc_Collect host_InFlight (NewUpstreamInFlightCollector (tm_hosts tm)) =
      map (Pair ''ccrouter_upstream_inflight'') (collect_upstream_inflight (map_option fst \<circ> hp_hosts (ht_heap t))) \<and>
    nc_Collect host_Limit (NewUpstreamLimitCollector (tm_hosts tm)) =
      map (Pair ''ccrouter_upstream_limit'') (collect_upstream_limit (map_option fst \<circ> hp_hosts (ht_heap t)))"
proof -
  have d: "slice_of (tm_dispatched tm) p = pp_inflights (pt_parts (the (ht_providers t p)))"
    "slice_of (tm_queued tm) p = pp_queueds (pt_parts (the (ht_providers t p)))"
    if "p \<in> dom (ht_providers t)" for p
    using assms that by (auto simp: maps_of_tree_def slice_of_def)
  have keys: "sorted_keys (map_of (tm_dispatched tm)) = sorted_keys (ht_providers t)"
    using assms by (simp add: maps_of_tree_def sorted_keys_option)
  have "set (sorted_keys (ht_providers t)) = dom (ht_providers t)"
    unfolding keys [symmetric] sorted_keys_def
    using assms finite_dom_map_of [of "tm_dispatched tm"] by (simp add: maps_of_tree_def dom_map_option_comp)
  with d have "map (\<lambda>p. [(''ccrouter_provider_dispatched'', p, sumCounters (readings world (slice_of (tm_dispatched tm) p))),
        (''ccrouter_provider_queued'', p, sumCounters (readings world (slice_of (tm_queued tm) p)))])
        (sorted_keys (ht_providers t)) =
      map (\<lambda>(p, dispatched, queued). [(''ccrouter_provider_dispatched'', p, dispatched),
        (''ccrouter_provider_queued'', p, queued)]) (collect_provider_inflight world (ht_providers t))"
    by (auto simp: collect_provider_inflight_def Let_def)
  moreover have "distinct (map fst (tm_dispatched tm))" using assms by (simp add: maps_of_tree_def)
  ultimately have "pic_Collect world (NewProviderInFlightCollector (tm_dispatched tm) (tm_queued tm)) =
      concat (map (\<lambda>(p, dispatched, queued). [(''ccrouter_provider_dispatched'', p, dispatched),
        (''ccrouter_provider_queued'', p, queued)]) (collect_provider_inflight world (ht_providers t)))"
    by (simp only: pic_collect keys)
  then show ?thesis
    using assms by (auto simp: maps_of_tree_def NewUpstreamInFlightCollector_def NewUpstreamLimitCollector_def
      keyed_collect collect_upstream_inflight_def collect_upstream_limit_def)
qed

theorem scrape_reads_tree_witness:
  "\<exists>t (tm :: tree_maps). CreateRouterFromConfig ex_url False True 0 ex_validated = Inr t \<and>
     length (pic_Collect (idle_world (ht_heap t)) (NewProviderInFlightCollector (tm_dispatched tm) (tm_queued tm))) = 4"
proof -
  obtain t where t: "CreateRouterFromConfig ex_url False True 0 ex_validated = Inr t" using ex_built by blast
  obtain tm where tm: "maps_of_tree t tm" using maps_of_tree_exist [OF t] by blast
  have "set (providerKeys False ex_validated) = {''a'', ''b''}" by code_simp
  then have "dom (ht_providers t) = {''a'', ''b''}" using CreateRouter_Inr [OF t] by metis
  then have "length (sorted_keys (ht_providers t)) = 2" by (simp add: sorted_keys_def)
  then have "length (collect_provider_inflight (idle_world (ht_heap t)) (ht_providers t)) = 2"
    by (simp add: collect_provider_inflight_def)
  then have "length (concat (map (\<lambda>(p, d, q). [(''ccrouter_provider_dispatched'', p, d),
      (''ccrouter_provider_queued'', p, q)])
      (collect_provider_inflight (idle_world (ht_heap t)) (ht_providers t)))) = 4"
    by (simp add: length_concat comp_def case_prod_unfold sum_list_triv)
  then have "length (pic_Collect (idle_world (ht_heap t))
      (NewProviderInFlightCollector (tm_dispatched tm) (tm_queued tm))) = 4"
    by (simp only: conjunct1 [OF scrape_reads_tree [OF tm, of "idle_world (ht_heap t)"]])
  with t show ?thesis by blast
qed

end
