(* ===== verification/Process.thy ===== *)
theory Process
  imports Server Registry
begin

text \<open>
  The process around the router: the start from the command line (\<open>cli.go\<close>, \<open>main.go\<close>), the options of
  \<open>CreateRouterFromConfig\<close>, and the time limits of the server and of the transport to the upstreams
  (\<open>streamingServerTimeouts\<close> of \<open>factory.go\<close>, \<open>DefaultProxyTransport\<close> of \<open>anthropic-proxy.go\<close>).
  Parsing of arguments and the HTTP server itself are libraries: the parsed arguments are a record, and
  what the running server ends with is the argument \<open>serve\<close>.
\<close>

section \<open>Command line\<close>

record app =
  app_Listen :: string
  app_ConfigPath :: string

datatype 'e app_result = StartFailed server_error | Ran 'e

definition App_Run :: "'t time_api \<Rightarrow> (bytes \<Rightarrow> 't config option) \<Rightarrow> (string \<Rightarrow> url option) \<Rightarrow> bool \<Rightarrow>
    (string \<Rightarrow> bool) \<Rightarrow> (string \<Rightarrow> 't snapshot \<Rightarrow> 'e) \<Rightarrow> surroundings \<Rightarrow> app \<Rightarrow> 'e app_result" where
  "App_Run api unmarshal url_parse registers is_dir serve w a =
     (case CreateServer api unmarshal url_parse registers (resolveConfigPath (sur_home w) is_dir (app_ConfigPath a)) w of
        Inl e \<Rightarrow> StartFailed e
      | Inr sn \<Rightarrow> Ran (serve (app_Listen a) sn))"

section \<open>Options of the router\<close>

record ('r, 'c, 'w) router_options =
  ro_metricsRegisterer :: 'r
  ro_currentDateTime :: 'c
  ro_waiterDuration :: 'w

type_synonym ('r, 'c, 'w) router_option = "('r, 'c, 'w) router_options \<Rightarrow> ('r, 'c, 'w) router_options"

definition WithMetricsRegisterer :: "'r \<Rightarrow> ('r, 'c, 'w) router_option" where
  "WithMetricsRegisterer reg o' = o'\<lparr>ro_metricsRegisterer := reg\<rparr>"

definition WithCurrentDateTime :: "'c \<Rightarrow> ('r, 'c, 'w) router_option" where
  "WithCurrentDateTime clock o' = o'\<lparr>ro_currentDateTime := clock\<rparr>"

definition WithWaiterDuration :: "'w \<Rightarrow> ('r, 'c, 'w) router_option" where
  "WithWaiterDuration waiter o' = o'\<lparr>ro_waiterDuration := waiter\<rparr>"

text \<open>The options are applied in order, as long as the context is not done.\<close>

fun apply_options :: "bool \<Rightarrow> ('r, 'c, 'w) router_option list \<Rightarrow> ('r, 'c, 'w) router_options \<Rightarrow>
    factory_error + ('r, 'c, 'w) router_options" where
  "apply_options cancelled [] o' = Inr o'"
| "apply_options cancelled (opt # opts) o' =
     (if cancelled then Inl Cancelled else apply_options cancelled opts (opt o'))"

section \<open>Time limits\<close>

record server_timeouts =
  so_ReadTimeout :: duration
  so_WriteTimeout :: duration

definition streamingServerTimeouts :: "server_timeouts \<Rightarrow> server_timeouts" where
  "streamingServerTimeouts so = so\<lparr>so_ReadTimeout := 5 * minute_ns, so_WriteTimeout := 10 * minute_ns\<rparr>"

record proxy_transport =
  px_DialTimeout :: duration
  px_KeepAlive :: duration
  px_MaxIdleConns :: int
  px_MaxIdleConnsPerHost :: int
  px_IdleConnTimeout :: duration
  px_TLSHandshakeTimeout :: duration
  px_ExpectContinueTimeout :: duration
  px_ResponseHeaderTimeout :: duration

definition DefaultProxyTransport :: proxy_transport where
  "DefaultProxyTransport =
     \<lparr>px_DialTimeout = 10 * second_ns, px_KeepAlive = 30 * second_ns, px_MaxIdleConns = 100,
      px_MaxIdleConnsPerHost = 10, px_IdleConnTimeout = 90 * second_ns, px_TLSHandshakeTimeout = 10 * second_ns,
      px_ExpectContinueTimeout = second_ns, px_ResponseHeaderTimeout = 5 * minute_ns\<rparr>"

text \<open>The longest an upstream may keep a request waiting for its headers, when no connection is open yet.\<close>

definition first_byte_limit :: "proxy_transport \<Rightarrow> duration" where
  "first_byte_limit px = px_DialTimeout px + px_TLSHandshakeTimeout px + px_ExpectContinueTimeout px +
     px_ResponseHeaderTimeout px"

text \<open>The longest waits of the gates in a configuration that leaves the waits at their defaults.\<close>

definition default_gate_waits :: duration where
  "default_gate_waits = resolveMaxConcurrentWait 0 + resolveMaxConcurrentWait 0 + coldGateMaxWait +
     wrap64 (defaultThrottleMaxDelaySeconds * second_ns)"

lemma default_waits:
  "first_byte_limit DefaultProxyTransport = 321 * second_ns" "default_gate_waits = 120 * second_ns"
  by (simp_all add: first_byte_limit_def DefaultProxyTransport_def default_gate_waits_def
    resolveMaxConcurrentWait_def defaultMaxConcurrentWaitSeconds_def coldGateMaxWait_def
    defaultThrottleMaxDelaySeconds_def second_ns_def minute_ns_def wrap64_def)

section \<open>Properties\<close>

lemma apply_options_foldl: "apply_options False opts o' = Inr (foldl (\<lambda>o1 opt. opt o1) o' opts)"
  by (induction opts arbitrary: o') auto

text \<open>
  A router's own answer gets out: a request that spends the default waits of all gates in turn and then
  meets an upstream that never sends a header gets its 502 before the server's write limit ends the
  connection, with more than two minutes to spare; and any configured wait of the two limiters may
  take the place of the default as long as the two together are at most 188 seconds.
\<close>

theorem refusals_beat_the_write_limit:
  assumes "0 \<le> memberWait" "0 \<le> hostWait" "memberWait + hostWait \<le> 188"
  shows "resolveMaxConcurrentWait memberWait + resolveMaxConcurrentWait hostWait + coldGateMaxWait +
      wrap64 (defaultThrottleMaxDelaySeconds * second_ns) + first_byte_limit DefaultProxyTransport
      < so_WriteTimeout (streamingServerTimeouts so) \<and>
    default_gate_waits + first_byte_limit DefaultProxyTransport + 2 * minute_ns
      < so_WriteTimeout (streamingServerTimeouts so)"
proof -
  have wait: "resolveMaxConcurrentWait n = (if n = 0 then 30 else n) * second_ns" if "0 \<le> n" "n \<le> 188" for n
  proof -
    have "0 \<le> (if n = 0 then 30 else n) * second_ns \<and> (if n = 0 then 30 else n) * second_ns < 2 ^ 63"
      using that by (auto simp: second_ns_def)
    then show ?thesis
      using that by (auto simp: resolveMaxConcurrentWait_def defaultMaxConcurrentWaitSeconds_def intro: wrap64_id)
  qed
  show ?thesis
    using assms wait [of memberWait] wait [of hostWait] default_waits
    by (auto simp: streamingServerTimeouts_def coldGateMaxWait_def defaultThrottleMaxDelaySeconds_def
      minute_ns_def second_ns_def wrap64_def)
qed

theorem refusals_beat_the_write_limit_witness:
  "resolveMaxConcurrentWait 100 + resolveMaxConcurrentWait 0 + coldGateMaxWait +
      wrap64 (defaultThrottleMaxDelaySeconds * second_ns) + first_byte_limit DefaultProxyTransport
      < so_WriteTimeout (streamingServerTimeouts \<lparr>so_ReadTimeout = 0, so_WriteTimeout = 0\<rparr>)"
  using refusals_beat_the_write_limit [of 100 0] by simp

text \<open>
  The program serves only what it has validated: if the server runs at all, it runs on the address of the
  command line with a handler built from a well-formed configuration, and the retired key variable was not
  set; otherwise the error of the start is the result and nothing listens.
\<close>

theorem app_serves_validated:
  assumes "App_Run api unmarshal url_parse registers is_dir serve w a = res"
  shows "(\<exists>e. res = StartFailed e) \<or>
    (\<exists>cfg h now. res = Ran (serve (app_Listen a) \<lparr>sn_handler = Some h, sn_cfg = Some cfg\<rparr>) \<and>
       wf_config api cfg \<and> CreateRouterFromConfig url_parse False registers now cfg = Inr h \<and>
       sur_env w ''ROUTER_AUTH_KEY'' \<in> {None, Some []})"
proof (cases "CreateServer api unmarshal url_parse registers
    (resolveConfigPath (sur_home w) is_dir (app_ConfigPath a)) w")
  case (Inr sn)
  then show ?thesis
    using assms load_and_build_Inr [of api unmarshal url_parse registers
        "resolveConfigPath (sur_home w) is_dir (app_ConfigPath a)" w]
    by (auto simp: App_Run_def CreateServer_def SeedConfig_def NewReloader_def split: if_splits sum.splits)
qed (use assms in \<open>auto simp: App_Run_def\<close>)

theorem app_serves_validated_witness:
  "\<exists>cfg h. App_Run ex_api (\<lambda>_. Some ex_config) ex_url True (\<lambda>_. False) (\<lambda>listen sn. (listen, sn_handler sn, sn_cfg sn))
     ex_surroundings \<lparr>app_Listen = ''127.0.0.1:8788'', app_ConfigPath = ''/c''\<rparr> =
     Ran (''127.0.0.1:8788'', Some h, Some cfg)"
proof -
  have "expandEnvRefs Map.empty [] = Inr []" by (simp add: expandEnvRefs_def expand_loop.simps)
  then have "Load ex_api False None (\<lambda>_. Some []) Map.empty (\<lambda>_. Some ex_config) ''/c'' = Inr (ex_validated, [])"
    by (simp add: Load_def expandTilde_def has_prefix_def ex_config_valid)
  then obtain x where "App_Run ex_api (\<lambda>_. Some ex_config) ex_url True (\<lambda>_. False)
      (\<lambda>listen sn. (listen, sn_handler sn, sn_cfg sn)) ex_surroundings
      \<lparr>app_Listen = ''127.0.0.1:8788'', app_ConfigPath = ''/c''\<rparr> = Ran x"
    using ex_built by (auto simp: App_Run_def CreateServer_def load_and_build_def ex_surroundings_def resolveConfigPath_def)
  with app_serves_validated [OF this] show ?thesis by auto
qed

end
