(* ===== verification/Nesting.thy ===== *)
theory Nesting
  imports Chain
begin

text \<open>
  The nested handlers against their specification, a plain call stack: what a middleware chain promises,
  whatever its gates do inside. The abstract state of a request, its journey, is read off the gates'
  own states: the gates whose wrapped handler is running for it. The specification enters them in
  the order of the wiring, lets a request choose a member only behind all gates of its provider, and
  leaves them in the opposite order, or, handed back by a member, returns to the pool.
\<close>

section \<open>The specification\<close>

datatype direction = Descending | Ascending | Over

record journey =
  jo_direction :: direction
  jo_inside :: "nat list"
  jo_member :: "nat option"

text \<open>The gates around the pool, and those around each member.\<close>

type_synonym wiring = "nat list \<times> nat list list"

fun nest_way :: "wiring \<Rightarrow> nat option \<Rightarrow> nat list" where
  "nest_way (outer, inner) None = outer"
| "nest_way (outer, inner) (Some m) = outer @ inner ! m"

inductive nest_step :: "wiring \<Rightarrow> journey \<Rightarrow> journey \<Rightarrow> bool" for w where
  Pass: "nest_way w m = ins @ g # rest \<Longrightarrow>
    nest_step w \<lparr>jo_direction = Descending, jo_inside = ins, jo_member = m\<rparr>
      \<lparr>jo_direction = Descending, jo_inside = ins @ [g], jo_member = m\<rparr>"
| Choose: "m < length (snd w) \<Longrightarrow>
    nest_step w \<lparr>jo_direction = Descending, jo_inside = fst w, jo_member = None\<rparr>
      \<lparr>jo_direction = Descending, jo_inside = fst w, jo_member = Some m\<rparr>"
| Turn: "nest_step w \<lparr>jo_direction = Descending, jo_inside = ins, jo_member = m\<rparr>
      \<lparr>jo_direction = Ascending, jo_inside = ins, jo_member = m\<rparr>"
| Leave: "nest_step w \<lparr>jo_direction = Ascending, jo_inside = ins @ [g], jo_member = m\<rparr>
      \<lparr>jo_direction = Ascending, jo_inside = ins, jo_member = m\<rparr>"
| Again: "nest_step w \<lparr>jo_direction = Ascending, jo_inside = fst w, jo_member = m\<rparr>
      \<lparr>jo_direction = Descending, jo_inside = fst w, jo_member = None\<rparr>"
| Finish: "nest_step w \<lparr>jo_direction = Ascending, jo_inside = [], jo_member = m\<rparr>
      \<lparr>jo_direction = Over, jo_inside = [], jo_member = m\<rparr>"

definition nest_start :: journey where
  "nest_start = \<lparr>jo_direction = Descending, jo_inside = [], jo_member = None\<rparr>"

section \<open>The abstraction\<close>

definition wiring_of :: "'t chain_provider \<Rightarrow> wiring" where
  "wiring_of pv = (map fst (cp_outer pv), map (map fst) (cp_inner pv))"

definition inside_gates :: "gate list \<Rightarrow> (nat \<times> nat) list \<Rightarrow> nat list" where
  "inside_gates gs stack = map fst (filter (\<lambda>x. stage_of gs x = Beyond) (rev stack))"

fun mode_direction :: "chain_mode \<Rightarrow> direction" where
  "mode_direction Inward = Descending"
| "mode_direction (Outward who p) = Ascending"
| "mode_direction (Finished who p) = Over"

definition journey_of :: "gate list \<Rightarrow> chain_req \<Rightarrow> journey" where
  "journey_of gs q =
     \<lparr>jo_direction = mode_direction (cr_mode q), jo_inside = inside_gates gs (cr_stack q), jo_member = cr_member q\<rparr>"

abbreviation wiring_at :: "'t chain \<Rightarrow> nat \<Rightarrow> wiring" where
  "wiring_at s r \<equiv> wiring_of (ch_providers s ! cr_provider (ch_reqs s ! r))"

abbreviation journey_at :: "'t chain \<Rightarrow> nat \<Rightarrow> journey" where
  "journey_at s r \<equiv> journey_of (ch_gates s) (ch_reqs s ! r)"

lemma inside_all:
  "\<forall>x \<in> set stack. stage_of gs x = Beyond \<Longrightarrow> inside_gates gs stack = map fst (rev stack)"
  by (simp add: inside_gates_def filter_True)

lemma inside_top:
  "\<forall>x \<in> set rest. stage_of gs x = Beyond \<Longrightarrow>
   inside_gates gs (x # rest) = map fst (rev rest) @ (if stage_of gs x = Beyond then [fst x] else [])"
  by (simp add: inside_gates_def filter_True)

lemma inside_cong:
  "\<forall>x \<in> set stack. stage_of gs' x = stage_of gs x \<Longrightarrow> inside_gates gs' stack = inside_gates gs stack"
  unfolding inside_gates_def by (intro arg_cong [where f = "map fst"] filter_cong) auto

lemma nest_way_of:
  assumes "\<And>j. m = Some j \<Longrightarrow> j < length (cp_inner pv)"
  shows "nest_way (wiring_of pv) m = way pv m"
  using assms by (cases m) (simp_all add: wiring_of_def way_def)

section \<open>The simulation\<close>

text \<open>One request moves: the heap changes at its own entries only, and its journey by one step at most.\<close>

definition moves :: "'t chain \<Rightarrow> nat \<Rightarrow> 't chain \<Rightarrow> bool" where
  "moves s r s' \<longleftrightarrow> (\<exists>q X. ch_reqs s' = (ch_reqs s)[r := q] \<and> cr_provider q = cr_provider (ch_reqs s ! r) \<and>
     heap_frame X (ch_gates s) (ch_gates s') \<and> X \<subseteq> set (cr_stack (ch_reqs s ! r)) \<and>
     map wiring_of (ch_providers s') = map wiring_of (ch_providers s) \<and>
     (nest_step (wiring_at s r))\<^sup>=\<^sup>= (journey_at s r) (journey_of (ch_gates s') q))"

lemma movesI:
  assumes "ch_reqs s' = (ch_reqs s)[r := q]" "cr_provider q = cr_provider (ch_reqs s ! r)"
    "heap_frame X (ch_gates s) (ch_gates s')" "X \<subseteq> set (cr_stack (ch_reqs s ! r))"
    "ch_providers s' = ch_providers s"
    "journey_of (ch_gates s') q = journey_at s r \<or> nest_step (wiring_at s r) (journey_at s r) (journey_of (ch_gates s') q)"
  shows "moves s r s'"
  unfolding moves_def using assms by (intro exI [of _ q] exI [of _ X]) auto

lemma moves_other:
  assumes "chain_ok s" "moves s r s'" "r < length (ch_reqs s)" "j < length (ch_reqs s)" "j \<noteq> r"
  shows "journey_at s' j = journey_at s j"
proof -
  obtain q X where m: "ch_reqs s' = (ch_reqs s)[r := q]" "heap_frame X (ch_gates s) (ch_gates s')"
    "X \<subseteq> set (cr_stack (ch_reqs s ! r))" using assms(2) by (auto simp: moves_def)
  have "set (cr_stack (ch_reqs s ! j)) \<inter> X = {}" using assms(1,3-5) m(3) by (fastforce simp: chain_ok_def)
  moreover have "\<forall>x \<in> set (cr_stack (ch_reqs s ! j)). entered (ch_gates s) x"
    using chain_reqD(3) [OF assms(1,4)] by (simp add: req_ok_def)
  ultimately have "\<forall>x \<in> set (cr_stack (ch_reqs s ! j)). stage_of (ch_gates s') x = stage_of (ch_gates s) x"
    using heap_frame_same(1) [OF m(2)] by blast
  then show ?thesis using m(1) assms(5) by (simp add: journey_of_def inside_cong)
qed

text \<open>After an event at the innermost gate: the request waits, passes it, or turns back.\<close>

lemma settle_moves:
  assumes q: "cr_stack q = (g, i) # rest" "cr_mode q = Inward" "cr_provider q = cr_provider (ch_reqs s ! r)"
      "\<And>j. cr_member q = Some j \<Longrightarrow> j < length (cp_inner pv)" "pv = ch_providers s ! cr_provider q"
      "map fst (rev (cr_stack q)) @ map fst (cr_todo q) = way pv (cr_member q)"
    and heap: "heap_frame X (ch_gates s) gs" "X \<union> set rest \<subseteq> set (cr_stack (ch_reqs s ! r))"
      "\<forall>x \<in> set rest. entered gs x \<and> stage_of gs x = Beyond" "entered gs (g, i)" "(g, i) \<notin> set rest"
    and old: "journey_at s r = \<lparr>jo_direction = Descending, jo_inside = map fst (rev rest), jo_member = cr_member q\<rparr>"
  shows "moves s r (settle r now q gs s)"
proof (cases "stage_of gs (g, i) \<in> {AtGate, Beyond}")
  case True
  then have st: "settle r now q gs s = set_creq r q (s\<lparr>ch_gates := gs\<rparr>)"
    using q(1) by (simp add: settle_def stage_of_def)
  have in_gs: "inside_gates gs (cr_stack q) = map fst (rev rest) @ (if stage_of gs (g, i) = Beyond then [g] else [])"
    using inside_top [of rest gs "(g, i)"] heap(3) q(1) by simp
  have "nest_way (wiring_of pv) (cr_member q) = map fst (rev rest) @ g # map fst (cr_todo q)"
    using nest_way_of [OF q(4)] q(1,6) by simp
  from Pass [OF this] have "journey_of gs q = journey_at s r \<or> nest_step (wiring_at s r) (journey_at s r) (journey_of gs q)"
    using True q(2,3,5) old in_gs by (auto simp: journey_of_def)
  then show ?thesis
    using q(3) heap(1,2) unfolding st by (intro movesI [where q = q and X = X]) (simp_all add: set_creq_def)
next
  case False
  obtain w slot where v: "gate_view (gs ! g) i = (w, slot)" by fastforce
  let ?gs = "pass_calls now (replay w) rest gs"
  let ?q = "q\<lparr>cr_mode := Outward (Gate g i) False, cr_bounced := gate_handed_back (gs ! g) i,
    cr_calls := replay w, cr_slot := slot\<rparr>"
  have st: "settle r now q gs s = set_creq r ?q (s\<lparr>ch_gates := ?gs\<rparr>)"
    using q(1) False v by (simp add: settle_def stage_of_def Let_def)
  have pass: "heap_frame (set rest) gs ?gs" "\<forall>x \<in> set rest. stage_of ?gs x = Beyond"
    using pass_calls_heap [of rest gs now "replay w"] heap(3) by blast+
  have "stage_of ?gs (g, i) = stage_of gs (g, i)" using heap_frame_same(1) [OF pass(1) heap(4,5)] .
  then have "inside_gates ?gs (cr_stack q) = map fst (rev rest)"
    using inside_top [OF pass(2), of "(g, i)"] q(1) False by simp
  then have "nest_step (wiring_at s r) (journey_at s r) (journey_of ?gs ?q)"
    using Turn [of "wiring_at s r" "map fst (rev rest)" "cr_member q"] old by (simp add: journey_of_def)
  moreover have "heap_frame (X \<union> set rest) (ch_gates s) ?gs"
    by (rule heap_frame_trans [OF heap_frame_mono [OF heap(1)] heap_frame_mono [OF pass(1)]]) auto
  ultimately show ?thesis
    using q(3) heap(2) unfolding st by (intro movesI [where q = ?q and X = "X \<union> set rest"]) (simp_all add: set_creq_def)
qed

lemma ready_journey:
  assumes "chain_ok s" "r < length (ch_reqs s)" "ready (ch_gates s) (ch_reqs s ! r)"
  shows "journey_at s r = \<lparr>jo_direction = Descending, jo_inside = map fst (rev (cr_stack (ch_reqs s ! r))),
    jo_member = cr_member (ch_reqs s ! r)\<rparr>"
  using ready_stack [OF assms] by (auto simp: journey_of_def inside_all)

lemma enter_moves:
  assumes ok: "chain_ok s" and step: "chain_enter r gone now s = Some s'"
  shows "r < length (ch_reqs s) \<and> moves s r s'"
proof -
  let ?q = "ch_reqs s ! r" and ?gs = "ch_gates s"
  from step have r: "r < length (ch_reqs s)" "ready ?gs ?q" "cr_todo ?q \<noteq> []"
    by (auto simp: chain_enter_def Let_def split: if_splits list.splits)
  then obtain g k rest where todo: "cr_todo ?q = (g, k) # rest" by (cases "cr_todo ?q") auto
  let ?new = "?q\<lparr>cr_todo := rest, cr_stack := (g, gate_size (?gs ! g)) # cr_stack ?q\<rparr>"
  obtain gs' where gs': "s' = settle r now ?new gs' s" "heap_frame {} ?gs gs'" "entered gs' (g, gate_size (?gs ! g))"
    using chain_enter_settles [OF ok r(1,2) todo, of gone now] step by (metis option.inject)
  note q = ready_stack [OF ok r(1,2)]
  have "\<not> entered ?gs (g, gate_size (?gs ! g))" by (simp add: entered_def)
  then have new: "(g, gate_size (?gs ! g)) \<notin> set (cr_stack ?q)" using q(1) by blast
  have "\<forall>x \<in> set (cr_stack ?q). entered gs' x \<and> stage_of gs' x = Beyond"
    using q(1) heap_frame_entered(1) [OF gs'(2)] heap_frame_same(1) [OF gs'(2)] by simp
  then have "moves s r s'"
    unfolding gs'(1)
    by (intro settle_moves [where g = g and i = "gate_size (?gs ! g)" and rest = "cr_stack ?q" and X = "{}"
          and pv = "ch_providers s ! cr_provider ?q"])
       (use q todo new gs'(2,3) chain_reqD(4) [OF ok r(1)] ready_journey [OF ok r(1,2)] in
         \<open>simp_all add: inward_ok_def\<close>)
  with r(1) show ?thesis by simp
qed

lemma own_moves:
  assumes ok: "chain_ok s" and step: "chain_own r e now s = Some s'"
  shows "r < length (ch_reqs s) \<and> moves s r s'"
proof -
  let ?q = "ch_reqs s ! r" and ?gs = "ch_gates s"
  let ?pv = "ch_providers s ! cr_provider ?q"
  from step obtain g i rest gs' where r: "r < length (ch_reqs s)" "cr_stack ?q = (g, i) # rest"
    "own_event e = Some i" "move_gate g e ?gs = Some gs'"
    "s' = (if cr_mode ?q = Inward then settle r now ?q gs' s else s\<lparr>ch_gates := gs'\<rparr>)"
    by (auto simp: chain_own_def Let_def split: if_splits list.splits option.splits)
  note q = chain_reqD(3) [OF ok r(1)]
  have ent: "entered ?gs (g, i)" "\<forall>x \<in> set rest. entered ?gs x \<and> stage_of ?gs x = Beyond" "(g, i) \<notin> set rest"
    using q r(2) by (auto simp: req_ok_def)
  note heap = own_heap [OF ent(1) r(3,4)]
  have rest: "\<forall>x \<in> set rest. entered gs' x \<and> stage_of gs' x = Beyond"
    using ent(2,3) heap_frame_entered(1) [OF heap(1)] heap_frame_same(1) [OF heap(1)] by (metis singletonD)
  have top: "stage_of ?gs (g, i) \<noteq> Beyond" using heap(2) by (auto split: if_splits)
  then have old: "inside_gates ?gs (cr_stack ?q) = map fst (rev rest)"
    using inside_top [of rest ?gs "(g, i)"] ent(2) r(2) by simp
  have "moves s r s'"
  proof (cases "cr_mode ?q = Inward")
    case True
    then have "moves s r (settle r now ?q gs' s)"
      by (intro settle_moves [where g = g and i = i and rest = rest and X = "{(g, i)}" and pv = ?pv])
         (use r(2) True q heap rest ent old chain_reqD(4) [OF ok r(1)] heap_frame_entered(1) [OF heap(1)] in
           \<open>auto simp: req_ok_def inward_ok_def journey_of_def\<close>)
    then show ?thesis using r(5) True by simp
  next
    case False
    have "stage_of ?gs (g, i) \<noteq> AtGate"
      using False q r(2) by (auto simp: req_ok_def outward_ok_def split: chain_mode.splits)
    then have "stage_of gs' (g, i) \<noteq> Beyond" using heap(2) by auto
    then have "inside_gates gs' (cr_stack ?q) = map fst (rev rest)"
      using inside_top [of rest gs' "(g, i)"] rest r(2) by simp
    then show ?thesis
      using r False heap(1) old
      by (intro movesI [where q = ?q and X = "{(g, i)}"]) (simp_all add: journey_of_def)
  qed
  with r(1) show ?thesis by simp
qed

lemma select_moves:
  assumes ok: "chain_ok s" and step: "chain_select api r w s = Some s'"
  shows "r < length (ch_reqs s) \<and> moves s r s'"
proof -
  let ?q = "ch_reqs s ! r" and ?gs = "ch_gates s"
  let ?p = "cr_provider ?q" and ?pv = "ch_providers s ! cr_provider ?q"
  obtain pool res where sel: "selectMember api (cp_pool ?pv) w (cr_session ?q) = (pool, res)" by fastforce
  from step have r: "r < length (ch_reqs s)" "at_pool ?gs ?q"
    by (auto simp: chain_select_def Let_def split: if_splits)
  then have rdy: "ready ?gs ?q" and here: "cr_todo ?q = []" "cr_member ?q = None" by (simp_all add: at_pool_def)
  have "map fst (rev (cr_stack ?q)) = map fst (cp_outer ?pv)"
    using ready_stack(2) [OF ok r(1) rdy] here by (simp add: inward_ok_def way_def)
  then have j: "journey_at s r = \<lparr>jo_direction = Descending, jo_inside = fst (wiring_of ?pv), jo_member = None\<rparr>"
    using ready_journey [OF ok r(1) rdy] here by (simp add: wiring_of_def)
  have p: "?p < length (ch_providers s)" using chain_reqD(1) [OF ok r(1)] .
  have ps: "map wiring_of ((ch_providers s)[?p := ?pv\<lparr>cp_pool := pool\<rparr>]) = map wiring_of (ch_providers s)"
    using p by (simp add: map_update wiring_of_def [of "?pv\<lparr>cp_pool := pool\<rparr>"] flip: wiring_of_def)
       (metis list_update_id map_update)
  have "\<exists>q. s' = set_creq r q (s\<lparr>ch_providers := (ch_providers s)[?p := ?pv\<lparr>cp_pool := pool\<rparr>]\<rparr>) \<and>
      cr_provider q = ?p \<and> cr_stack q = cr_stack ?q \<and>
      (cr_mode q = Outward Pool True \<and> cr_member q = None \<or>
       (\<exists>m < length (cp_inner ?pv). cr_mode q = Inward \<and> cr_member q = Some m))"
    using step r sel here rdy by (auto simp: chain_select_def Let_def ready_def split: sum.splits if_splits)
  then obtain q where q: "s' = set_creq r q (s\<lparr>ch_providers := (ch_providers s)[?p := ?pv\<lparr>cp_pool := pool\<rparr>]\<rparr>)"
    "cr_provider q = ?p" "cr_stack q = cr_stack ?q"
    "cr_mode q = Outward Pool True \<and> cr_member q = None \<or>
     (\<exists>m < length (cp_inner ?pv). cr_mode q = Inward \<and> cr_member q = Some m)" by blast
  have "nest_step (wiring_of ?pv) (journey_at s r) (journey_of ?gs q)"
    using q(3,4) j Turn [of "wiring_of ?pv" "fst (wiring_of ?pv)" None] Choose [of _ "wiring_of ?pv"]
    by (auto simp: journey_of_def wiring_of_def)
  then have "moves s r s'"
    unfolding moves_def using q(1,2) ps
    by (intro exI [of _ q] exI [of _ "{}"]) (simp add: set_creq_def)
  with r(1) show ?thesis by simp
qed

lemma leave_moves:
  assumes ok: "chain_ok s" and step: "chain_leave here who p r s = Some s'" and here: "here \<in> {at_pool, at_upstream}"
  shows "r < length (ch_reqs s) \<and> moves s r s'"
proof -
  let ?q = "ch_reqs s ! r"
  let ?q' = "?q\<lparr>cr_mode := Outward who p\<rparr>"
  from step have r: "r < length (ch_reqs s)" "here (ch_gates s) ?q" "s' = set_creq r ?q' s"
    by (auto simp: chain_leave_def Let_def split: if_splits)
  from r(2) here have "cr_mode ?q = Inward" by (auto simp: at_pool_def at_upstream_def ready_def)
  then have "nest_step (wiring_at s r) (journey_at s r) (journey_of (ch_gates s) ?q')"
    using Turn [of "wiring_at s r"] by (simp add: journey_of_def)
  then have "moves s r s'" unfolding r(3) by (intro movesI [where q = ?q' and X = "{}"]) (simp_all add: set_creq_def)
  with r(1) show ?thesis by simp
qed

lemma write_moves:
  assumes ok: "chain_ok s" and step: "chain_write r c now s = Some s'"
  shows "r < length (ch_reqs s) \<and> moves s r s' \<and> at_upstream (ch_gates s) (ch_reqs s ! r)"
proof -
  let ?q = "ch_reqs s ! r"
  let ?q' = "?q\<lparr>cr_calls := cr_calls ?q @ [c]\<rparr>"
  let ?gs = "pass_calls now [c] (cr_stack ?q) (ch_gates s)"
  from step have r: "r < length (ch_reqs s)" "at_upstream (ch_gates s) ?q" "s' = set_creq r ?q' (s\<lparr>ch_gates := ?gs\<rparr>)"
    by (auto simp: chain_write_def Let_def split: if_splits)
  from r(2) have rdy: "ready (ch_gates s) ?q" by (simp add: at_upstream_def)
  note q = ready_stack [OF ok r(1) rdy]
  note pass = pass_calls_heap [OF q(1), of now "[c]"]
  have "journey_of ?gs ?q' = journey_at s r"
    using q(1) pass by (simp add: journey_of_def inside_all)
  then have "moves s r s'"
    unfolding r(3) using pass by (intro movesI [where q = ?q' and X = "set (cr_stack ?q)"]) (simp_all add: set_creq_def)
  with r(1,2) show ?thesis by simp
qed

lemma back_moves:
  assumes ok: "chain_ok s" and step: "chain_back r now s = Some s'"
  shows "r < length (ch_reqs s) \<and> moves s r s'"
proof -
  let ?q = "ch_reqs s ! r" and ?gs = "ch_gates s"
  let ?pv = "ch_providers s ! cr_provider ?q"
  from step obtain who p where r: "r < length (ch_reqs s)" and mode: "cr_mode ?q = Outward who p"
    by (auto simp: chain_back_def Let_def split: if_splits chain_mode.splits)
  have q: "distinct (cr_stack ?q)" "\<forall>x \<in> set (cr_stack ?q). entered ?gs x"
      "\<forall>x \<in> set (tl (cr_stack ?q)). stage_of ?gs x = Beyond" "outward_ok ?gs ?pv ?q who"
    using chain_reqD(3) [OF ok r] mode by (auto simp: req_ok_def)
  have upd: "moves s r (set_creq r q' s)"
    if "cr_provider q' = cr_provider ?q"
      "journey_of ?gs q' = journey_at s r \<or> nest_step (wiring_at s r) (journey_at s r) (journey_of ?gs q')" for q'
    using that by (intro movesI [where q = q' and X = "{}"]) (simp_all add: set_creq_def)
  let ?returns = "cr_bounced ?q \<and> length (cr_stack ?q) = length (cp_outer ?pv)"
  have "moves s r s'"
  proof (cases ?returns)
    case True
    let ?q' = "?q\<lparr>cr_mode := Inward, cr_bounced := False, cr_member := None, cr_todo := []\<rparr>"
    have all: "\<forall>x \<in> set (cr_stack ?q). stage_of ?gs x = Beyond"
      using q(3,4) True by (cases "cr_stack ?q") (auto simp: outward_ok_def)
    have "map fst (rev (cr_stack ?q)) = map fst (cp_outer ?pv)"
      using q(4) True by (auto simp: outward_ok_def way_def append_eq_append_conv)
    then have "inside_gates ?gs (cr_stack ?q) = fst (wiring_of ?pv)" using inside_all [OF all] by (simp add: wiring_of_def)
    then have "nest_step (wiring_at s r) (journey_at s r) (journey_of ?gs ?q')"
      using Again [of "wiring_of ?pv" "cr_member ?q"] mode by (simp add: journey_of_def)
    with upd [of ?q'] show ?thesis using step r mode True by (simp add: chain_back_def Let_def)
  next
    case False
    show ?thesis
    proof (cases "cr_stack ?q")
      case Nil
      then have "nest_step (wiring_at s r) (journey_at s r) (journey_of ?gs (?q\<lparr>cr_mode := Finished who p\<rparr>))"
        using Finish [of "wiring_at s r" "cr_member ?q"] mode by (simp add: journey_of_def inside_gates_def)
      with upd [of "?q\<lparr>cr_mode := Finished who p\<rparr>"] show ?thesis
        using step r mode False Nil by (auto simp: chain_back_def Let_def split: if_splits)
    next
      case (Cons x rest)
      then obtain g i where x: "cr_stack ?q = (g, i) # rest" by (cases x) simp
      have tl: "\<forall>x \<in> set rest. stage_of ?gs x = Beyond" using q(3) x by simp
      consider "stage_of ?gs (g, i) = Beyond" | "stage_of ?gs (g, i) = Away"
        using step r mode False x by (auto simp: chain_back_def Let_def stage_of_def split: if_splits)
      then show ?thesis
      proof cases
        case 1
        let ?e = "if p then panic_event (?gs ! g) i else return_event (?gs ! g) i (cr_calls ?q) now"
        have "entered ?gs (g, i)" "?e = return_event (?gs ! g) i (cr_calls ?q) now \<or> ?e = panic_event (?gs ! g) i"
          using q(2) x by simp_all
        then obtain gs' where gs': "move_gate g ?e ?gs = Some gs'" "heap_frame {(g, i)} ?gs gs'"
          "stage_of gs' (g, i) \<in> {Leaving, Away}"
          using back_heap 1 by blast
        then have s': "s' = s\<lparr>ch_gates := gs'\<rparr>"
          using step r mode False x 1 by (auto simp: chain_back_def Let_def stage_of_def)
        have "\<forall>y \<in> set rest. stage_of gs' y = Beyond"
        proof
          fix y assume "y \<in> set rest"
          then have "entered ?gs y" "y \<notin> {(g, i)}" "stage_of ?gs y = Beyond" using q(1,2) x tl by auto
          then show "stage_of gs' y = Beyond" using heap_frame_same(1) [OF gs'(2)] by simp
        qed
        then have "inside_gates gs' (cr_stack ?q) = map fst (rev rest)"
          using inside_top [of rest gs' "(g, i)"] gs'(3) x by auto
        moreover have "inside_gates ?gs (cr_stack ?q) = map fst (rev rest) @ [g]"
          using inside_top [OF tl, of "(g, i)"] 1 x by simp
        ultimately have "nest_step (wiring_at s r) (journey_at s r) (journey_of gs' ?q)"
          using Leave [of "wiring_at s r" "map fst (rev rest)" g "cr_member ?q"] mode by (simp add: journey_of_def)
        then show ?thesis
          unfolding s' using gs'(2) x by (intro movesI [where q = ?q and X = "{(g, i)}"]) simp_all
      next
        case 2
        have "inside_gates ?gs rest = inside_gates ?gs (cr_stack ?q)"
          using inside_top [OF tl, of "(g, i)"] inside_all [OF tl] 2 x by simp
        then have "moves s r (set_creq r (?q\<lparr>cr_stack := rest\<rparr>) s)"
          by (intro upd) (simp_all add: journey_of_def)
        then show ?thesis
          using step r mode False x 2 by (auto simp: chain_back_def Let_def stage_of_def)
      qed
    qed
  qed
  with r show ?thesis by simp
qed

lemma upstream_journey:
  assumes "chain_ok s" "r < length (ch_reqs s)" "at_upstream (ch_gates s) (ch_reqs s ! r)"
  obtains m where "m < length (snd (wiring_at s r))" "journey_at s r =
    \<lparr>jo_direction = Descending, jo_inside = nest_way (wiring_at s r) (Some m), jo_member = Some m\<rparr>"
proof -
  let ?q = "ch_reqs s ! r"
  let ?pv = "ch_providers s ! cr_provider ?q"
  from assms(3) obtain m where m: "ready (ch_gates s) ?q" "cr_todo ?q = []" "cr_member ?q = Some m"
    by (auto simp: at_upstream_def)
  have l: "m < length (cp_inner ?pv)" using chain_reqD(4) [OF assms(1,2) m(3)] .
  have "map fst (rev (cr_stack ?q)) = nest_way (wiring_of ?pv) (Some m)"
    using ready_stack(2) [OF assms(1,2) m(1)] m(2,3) nest_way_of [of "Some m" ?pv] l by (simp add: inward_ok_def)
  with ready_journey [OF assms(1,2) m(1)] m(3) l that [of m] show thesis by (simp add: wiring_of_def)
qed

text \<open>Who moves in a step.\<close>

lemma acts_for_one: "acts_for r e \<Longrightarrow> acts_for j e \<Longrightarrow> j = r"
  by (cases e) auto

lemma chain_step_moves:
  assumes "chain_ok s" "chain_step api s e = Some s'" "\<forall>p sid n. e \<noteq> ChArrive p sid n"
  obtains r where "acts_for r e" "r < length (ch_reqs s)" "moves s r s'"
    "\<And>c now. e = ChWrite r c now \<Longrightarrow> at_upstream (ch_gates s) (ch_reqs s ! r)"
proof (cases e)
  case (ChEnter r gone now)
  then show thesis using that [of r] assms(2) enter_moves [OF assms(1)] by (auto simp: chain_step_def)
next
  case (ChOwn r f now)
  then show thesis using that [of r] assms(2) own_moves [OF assms(1)] by (auto simp: chain_step_def)
next
  case (ChSelect r w)
  then show thesis using that [of r] assms(2) select_moves [OF assms(1)] by (auto simp: chain_step_def)
next
  case (ChGone r)
  then show thesis using that [of r] assms(2) leave_moves [OF assms(1)] by (auto simp: chain_step_def)
next
  case (ChWrite r c now)
  then show thesis using that [of r] assms(2) write_moves [OF assms(1)] by (auto simp: chain_step_def)
next
  case (ChReturn r)
  then show thesis using that [of r] assms(2) leave_moves [OF assms(1)] by (auto simp: chain_step_def)
next
  case (ChPanic r)
  then show thesis using that [of r] assms(2) leave_moves [OF assms(1)] by (auto simp: chain_step_def)
next
  case (ChBack r now)
  then show thesis using that [of r] assms(2) back_moves [OF assms(1)] by (auto simp: chain_step_def)
qed (use assms(3) in blast)

lemma moves_wiring:
  assumes "chain_ok s" "moves s r s'" "r < length (ch_reqs s)" "j < length (ch_reqs s)"
  shows "wiring_at s' j = wiring_at s j"
proof -
  obtain q where m: "ch_reqs s' = (ch_reqs s)[r := q]" "cr_provider q = cr_provider (ch_reqs s ! r)"
    "map wiring_of (ch_providers s') = map wiring_of (ch_providers s)" using assms(2) by (auto simp: moves_def)
  have "cr_provider (ch_reqs s' ! j) = cr_provider (ch_reqs s ! j)" using m(1,2) assms(3) by (cases "j = r") simp_all
  moreover have "cr_provider (ch_reqs s ! j) < length (ch_providers s)" using chain_reqD(1) [OF assms(1,4)] .
  moreover have "length (ch_providers s') = length (ch_providers s)" using m(3) by (metis length_map)
  ultimately show ?thesis using m(3) by (metis nth_map)
qed

lemma chain_step_refines:
  assumes ok: "chain_ok s" and step: "chain_step api s e = Some s'"
  shows "\<And>r. r < length (ch_reqs s) \<Longrightarrow> wiring_at s' r = wiring_at s r \<and>
      (if acts_for r e then (nest_step (wiring_at s r))\<^sup>=\<^sup>= (journey_at s r) (journey_at s' r)
       else journey_at s' r = journey_at s r)"
    and "\<And>r. length (ch_reqs s) \<le> r \<Longrightarrow> r < length (ch_reqs s') \<Longrightarrow> journey_at s' r = nest_start"
    and "\<And>r c now. e = ChWrite r c now \<Longrightarrow> \<exists>m < length (snd (wiring_at s r)). journey_at s r =
       \<lparr>jo_direction = Descending, jo_inside = nest_way (wiring_at s r) (Some m), jo_member = Some m\<rparr>"
proof -
  have "(\<forall>r < length (ch_reqs s). wiring_at s' r = wiring_at s r \<and>
      (if acts_for r e then (nest_step (wiring_at s r))\<^sup>=\<^sup>= (journey_at s r) (journey_at s' r)
       else journey_at s' r = journey_at s r)) \<and>
    (\<forall>r. length (ch_reqs s) \<le> r \<longrightarrow> r < length (ch_reqs s') \<longrightarrow> journey_at s' r = nest_start) \<and>
    (\<forall>r c now. e = ChWrite r c now \<longrightarrow> (\<exists>m < length (snd (wiring_at s r)). journey_at s r =
       \<lparr>jo_direction = Descending, jo_inside = nest_way (wiring_at s r) (Some m), jo_member = Some m\<rparr>))"
  proof (cases "\<exists>p sid n. e = ChArrive p sid n")
    case True
    then show ?thesis
      using step
      by (auto simp: chain_step_def chain_arrive_def nth_append journey_of_def inside_gates_def nest_start_def split: if_splits)
  next
    case False
    then obtain r where r: "acts_for r e" "r < length (ch_reqs s)" "moves s r s'"
      "\<And>c now. e = ChWrite r c now \<Longrightarrow> at_upstream (ch_gates s) (ch_reqs s ! r)"
      using chain_step_moves [OF ok step] by blast
    have mv: "(nest_step (wiring_at s r))\<^sup>=\<^sup>= (journey_at s r) (journey_at s' r)"
      and len: "length (ch_reqs s') = length (ch_reqs s)"
      using r(2,3) by (auto simp: moves_def)
    have A: "wiring_at s' j = wiring_at s j \<and>
      (if acts_for j e then (nest_step (wiring_at s j))\<^sup>=\<^sup>= (journey_at s j) (journey_at s' j)
       else journey_at s' j = journey_at s j)" if "j < length (ch_reqs s)" for j
    proof (cases "j = r")
      case True
      show ?thesis unfolding True if_P [OF r(1)] using moves_wiring [OF ok r(3,2,2)] mv by blast
    next
      case False
      then have idle: "\<not> acts_for j e" using acts_for_one [OF r(1)] by blast
      show ?thesis
        unfolding if_not_P [OF idle] using moves_wiring [OF ok r(3,2) that] moves_other [OF ok r(3,2) that False] by blast
    qed
    have B: "\<exists>m < length (snd (wiring_at s j)). journey_at s j =
       \<lparr>jo_direction = Descending, jo_inside = nest_way (wiring_at s j) (Some m), jo_member = Some m\<rparr>"
      if w: "e = ChWrite j c now" for j c now
    proof -
      have "j = r" using acts_for_one [OF r(1), of j] w by simp
      with upstream_journey [OF ok r(2) r(4)] w show ?thesis by blast
    qed
    have "\<forall>j. length (ch_reqs s) \<le> j \<longrightarrow> j < length (ch_reqs s') \<longrightarrow> journey_at s' j = nest_start" using len by auto
    with A B show ?thesis by blast
  qed
  then show "\<And>r. r < length (ch_reqs s) \<Longrightarrow> wiring_at s' r = wiring_at s r \<and>
      (if acts_for r e then (nest_step (wiring_at s r))\<^sup>=\<^sup>= (journey_at s r) (journey_at s' r)
       else journey_at s' r = journey_at s r)"
    and "\<And>r. length (ch_reqs s) \<le> r \<Longrightarrow> r < length (ch_reqs s') \<Longrightarrow> journey_at s' r = nest_start"
    and "\<And>r c now. e = ChWrite r c now \<Longrightarrow> \<exists>m < length (snd (wiring_at s r)). journey_at s r =
       \<lparr>jo_direction = Descending, jo_inside = nest_way (wiring_at s r) (Some m), jo_member = Some m\<rparr>"
    by blast+
qed

text \<open>So the journey of every request of a reachable state is a run of the specification.\<close>

lemma journeys_run:
  assumes "chain_start s0" "run_steps (chain_step api) s0 es = Some s" "r < length (ch_reqs s)"
  shows "(nest_step (wiring_at s r))\<^sup>*\<^sup>* nest_start (journey_at s r)"
  using assms(2,3)
proof (induction es arbitrary: s rule: rev_induct)
  case Nil
  then show ?case using assms(1) by (simp add: chain_start_def)
next
  case (snoc e es)
  then obtain t where t: "run_steps (chain_step api) s0 es = Some t" "chain_step api t e = Some s"
    by (auto simp: run_steps_append split: option.splits)
  note ref = chain_step_refines [OF chain.reachable_inv [OF assms(1) t(1)] t(2)]
  show ?case
  proof (cases "r < length (ch_reqs t)")
    case True
    with snoc.IH [OF t(1) True] ref(1) [OF True] show ?thesis
      by (cases "acts_for r e") (auto intro: rtranclp.rtrancl_into_rtrancl)
  next
    case False
    with ref(2) snoc.prems(2) show ?thesis by simp
  qed
qed

section \<open>Properties\<close>

text \<open>
  C5. The nested handlers refine a call stack. In every interleaving of requests, the journey of each
  request, read off the states of the gates themselves, is a run of the specification: a step of the
  machine is one step of the acting request in it, or none, and no step of any other request. A gate is
  passed only as the next one of the wiring, a member is chosen only inside all gates of the provider,
  gates are left innermost first, a request is handed back only to the pool, and it is over only outside
  every gate. The upstream is called only inside all gates of the provider and of the chosen member.
\<close>

theorem nested_gates_refine:
  assumes "chain_start s0" "run_steps (chain_step api) s0 es = Some s" "chain_step api s e = Some s'"
  shows "(\<forall>r < length (ch_reqs s). (nest_step (wiring_at s r))\<^sup>*\<^sup>* nest_start (journey_at s r) \<and>
      wiring_at s' r = wiring_at s r \<and>
      (if acts_for r e then (nest_step (wiring_at s r))\<^sup>=\<^sup>= (journey_at s r) (journey_at s' r)
       else journey_at s' r = journey_at s r)) \<and>
    (\<forall>r c now. e = ChWrite r c now \<longrightarrow> (\<exists>m < length (snd (wiring_at s r)). journey_at s r =
       \<lparr>jo_direction = Descending, jo_inside = nest_way (wiring_at s r) (Some m), jo_member = Some m\<rparr>))"
  using journeys_run [OF assms(1,2)] chain_step_refines [OF chain.reachable_inv [OF assms(1,2)] assms(3)] by blast

theorem nested_gates_refine_witness:
  "\<exists>s s'. run_steps (chain_step ex_api) ex_chain (butlast (ex_to_upstream 0)) = Some s \<and>
     chain_step ex_api s (ChEnter 0 False 0) = Some s' \<and>
     journey_at s 0 = \<lparr>jo_direction = Descending, jo_inside = [0], jo_member = Some 0\<rparr> \<and>
     journey_at s' 0 = \<lparr>jo_direction = Descending, jo_inside = [0, 1], jo_member = Some 0\<rparr> \<and>
     nest_step ([0], [[1]]) (journey_at s 0) (journey_at s' 0)"
proof -
  have "case run_steps (chain_step ex_api) ex_chain (butlast (ex_to_upstream 0)) of None \<Rightarrow> False
    | Some s \<Rightarrow> (case chain_step ex_api s (ChEnter 0 False 0) of None \<Rightarrow> False
      | Some s' \<Rightarrow> 0 < length (ch_reqs s) \<and> wiring_at s 0 = ([0], [[1]]) \<and>
          journey_at s 0 = \<lparr>jo_direction = Descending, jo_inside = [0], jo_member = Some 0\<rparr> \<and>
          journey_at s' 0 = \<lparr>jo_direction = Descending, jo_inside = [0, 1], jo_member = Some 0\<rparr>)"
    by code_simp
  then obtain s s' where s: "run_steps (chain_step ex_api) ex_chain (butlast (ex_to_upstream 0)) = Some s"
    "chain_step ex_api s (ChEnter 0 False 0) = Some s'" "0 < length (ch_reqs s)" "wiring_at s 0 = ([0], [[1]])"
    "journey_at s 0 = \<lparr>jo_direction = Descending, jo_inside = [0], jo_member = Some 0\<rparr>"
    "journey_at s' 0 = \<lparr>jo_direction = Descending, jo_inside = [0, 1], jo_member = Some 0\<rparr>"
    by (auto split: option.splits)
  have "(nest_step ([0], [[1]]))\<^sup>=\<^sup>= (journey_at s 0) (journey_at s' 0)"
    using nested_gates_refine [OF ex_chain_start s(1,2), THEN conjunct1, rule_format, OF s(3)] s(4) by simp
  then have "nest_step ([0], [[1]]) (journey_at s 0) (journey_at s' 0)" using s(5,6) by simp
  with s show ?thesis by blast
qed

end
