(* ===== verification/Spec2Isabelle.thy ===== *)
theory Spec2Isabelle
  imports Transport ColdWake Reasons Process Nesting
begin

text \<open>
  claude-code-router: an HTTP proxy between Claude Code and several LLM providers. It reads
  the model name of a request, chooses a provider, and forwards the request through a chain
  of gates to one of the provider's upstreams.

  \<^bold>\<open>The program and its theories.\<close> A request takes this way through the code, and the theories
  follow it.

  \<^item> \<open>Server\<close>: \<open>buildMux\<close> of \<open>factory.go\<close> with the small handlers (\<open>healthz.go\<close>, \<open>hello.go\<close>,
    \<open>root-liveness.go\<close>, \<open>not-found.go\<close>, \<open>enabletrace.go\<close>, \<open>disabletrace.go\<close>, \<open>setloglevel.go\<close>),
    the matching of \<open>http.ServeMux\<close>, \<open>CreateServer\<close>, and \<open>reloader.go\<close>, whose snapshot of handler
    and configuration is swapped on every signal.
  \<^item> \<open>Access\<close>: \<open>auth-middleware.go\<close>, \<open>session-middleware.go\<close>, \<open>loopback.go\<close>,
    \<open>admin_loopback_guard.go\<close>, the context values, \<open>auth-swap-transport.go\<close> and the header part of
    \<open>redact.go\<close>. The locale \<open>header_filter\<close> is the contract of a middleware that hides headers;
    \<open>two_filters\<close> composes two, and is interpreted on the chain in front of the router.
  \<^item> \<open>Trace\<close>: \<open>trace_state.go\<close>, the trace flag with its timers as a state machine; \<open>trace.go\<close>;
    \<open>body-sample.go\<close> and the body part of \<open>redact.go\<close>.
  \<^item> \<open>Router\<close>: \<open>model-router.go\<close> in stages (read, pool, alias, suffix, key, glob, lift), then the
    accounting after the dispatch. \<open>Body\<close> has the request bodies as JSON documents
    (\<open>extractModel\<close>, \<open>rewriteModelField\<close>, \<open>system-lift.go\<close>), \<open>Glob\<close> has \<open>path.Match\<close>, \<open>Usage\<close> has
    \<open>usage-recorder.go\<close>, \<open>Metrics\<close> has \<open>metrics.go\<close> and \<open>inflight.go\<close>.
  \<^item> \<open>ModelPool\<close> (\<open>model-pool.go\<close>) and \<open>UpstreamPool\<close> (\<open>upstream-pool-handler.go\<close>,
    \<open>upstream-index.go\<close>, \<open>reselect.go\<close>) choose a member. Both pin sessions on the weighted ring of
    \<open>Ring\<close>: the locale \<open>session_ring\<close> states what pinning needs of a pool, and each pool
    interprets it.
  \<^item> The gates around a pool: \<open>ColdGate\<close> (\<open>cold-start-gate.go\<close>) with \<open>Backpressure\<close>
    (\<open>ttft-backpressure.go\<close>), \<open>Throttle\<close> (\<open>throttle-gate.go\<close>), \<open>Breaker\<close> (\<open>circuit-breaker.go\<close>), and
    the limiters around a member, \<open>Limiter\<close> (\<open>concurrency-limiter.go\<close>, \<open>host-limiter.go\<close>). Each
    is a state machine over the requests inside it: an event is one atomic action of one request's
    goroutine, so every interleaving is a list of events. The locale \<open>step_invariant\<close> of \<open>Response\<close>
    carries an invariant along such lists; every gate interprets it. \<open>Response\<close> also has the
    response writer, \<open>status-recorder.go\<close> and \<open>rejection-reason.go\<close>. \<open>ColdWake\<close> adds to the cold gate
    who wakes its waiters: the broadcast channel, the refill timers and the deadlines.
  \<^item> \<open>Gates\<close> states what a handler that wraps another handler promises, as the locale \<open>http_gate\<close>
    (it answers or hands on, what it leaves in the response, that it does not get stuck), and
    interprets it for all four gates and for their sum. \<open>Chain\<close> nests them around the pools as the code
    does and runs any number of requests through all of them, event by event; \<open>Nesting\<close> specifies the
    nesting as a call stack, apart from any gate, and shows that the chain refines it; \<open>System\<close> builds
    such a chain from the handler tree of \<open>Factory\<close>.
  \<^item> \<open>Transport\<close>: the way out, \<open>logging-roundtripper.go\<close> inside the token swap, and the answer of
    \<open>anthropic-proxy.go\<close> to an upstream error.
  \<^item> \<open>Config\<close> and \<open>EnvRefs\<close> (\<open>config.go\<close>, the path resolution of \<open>cli.go\<close>) load and validate a
    configuration; \<open>Factory\<close> (\<open>factory.go\<close>) builds the handler tree from it, with the shared
    limiters in a heap of numbered objects; \<open>Gauges\<close> reads the tree back (the closures of the
    model pools and the three collector files); \<open>Registry\<close> has the metric vectors with their names,
    labels and buckets, the collectors and their registration with Prometheus; \<open>Process\<close> has the
    start of the process (\<open>main.go\<close>, \<open>App.Run\<close>), the options of the factory and the timeouts it
    hands to \<open>net/http\<close>.
  \<^item> \<open>Journal\<close>: what a request leaves behind, the sampled \<open>[req]\<close> line of \<open>model-router.go\<close> and the
    files of \<open>trace.go\<close> with their names. \<open>Accounting\<close> joins the two ends: what the router reads off a
    request that has passed the chain, and its counters after any number of requests; \<open>Reasons\<close> has the
    reasons a tree built from a configuration can refuse with.
  \<^item> \<open>Prelude\<close> has Go's 64-bit integers, byte strings and the shared lemmas.

  \<^bold>\<open>State and errors.\<close> Structs are records, closed sets of cases are datatypes, errors are the left
  side of a sum, and a panic is a value of \<open>go_panic\<close>. Integers are \<open>int\<close> with \<open>wrap64\<close> written where
  the code can overflow, and 64-bit words in the ring and the round robin. Maps that are iterated are
  association lists. What a piece of code reads from the world while it runs (clock readings, loads,
  whether a context is done) is an argument, a different one for every reading, so that a property holds
  for every world.

  \<^bold>\<open>What is proved.\<close>

  \<^item> Routing is ordered, pool before alias before key before glob before default, and total up to the
    resolution of model pools: a readable body is dispatched and carries the model it was routed by,
    unless the loads of its pool move while it is resolved or a pool has the empty name; otherwise the
    router answers itself only when it cannot read the body; every response is counted once.
  \<^item> From a configuration to the upstream: an accepted configuration whose URLs parse builds, and its
    router sends every request of every sequence, with the same exceptions, to a configured provider and
    a well-formed pool; a URL that does not parse is named by the error; every member has its own
    limiter inside the one budget of its host; reloads serve the last configuration that built.
  \<^item> Selection: pinning is the weighted reference ring, requests without session go to a least
    loaded member, and served members were eligible; member 0 serves when no member is eligible.
  \<^item> The gates: caps, budgets, delays and probe counts hold in every interleaving; refusals have the
    right answer and reason; slots come back, throttling and reduced budgets end; no waiter of the cold
    gate is forgotten.
  \<^item> The whole chain: every interleaving of requests through the nested gates refines a call stack of the
    wiring, one for each request; the host budgets and upstream
    caps of the configuration bound the calls at the upstreams; every finished request was answered by
    exactly one of upstream, gate or pool; a request can always be finished; and the rejection counters
    hold exactly the refusals of each gate and the 429s of the upstreams, in series that exist from the start.
  \<^item> Access: the router is reached only through the key check, callers from elsewhere change no
    admin state, credentials are not passed on or logged, and tracing ends.
  \<^item> Data: environment references, bodies, usage and metrics: round trips, exact counts and
    equivalence with the plain definitions.
  \<^item> Observation: a tree registers all its collectors on a fresh registry and none twice, a scrape reads
    the limiters of the tree, and traces of simultaneous requests never overwrite each other.

  Some theorems show where the code departs from its comments: they are named after what happens
  (\<open>moving_loads_panic\<close>, \<open>gates_hide_closed_windows\<close>, \<open>silent_probe_closes\<close>, \<open>crlf_stream_has_no_usage\<close>
  and others).

  \<^bold>\<open>Bounds.\<close> No definition uses fuel: loops are structural recursion or recursion on a measure (the
  rest of the text in \<open>expand_loop\<close>, \<open>RedactBearerTokensInBody\<close> and the matcher of \<open>Glob\<close>). A loop of
  the code that waits for events is the list of those events. Pools are assumed to have fewer than
  \<open>2 ^ 64\<close> members and weights that sum to less than \<open>2 ^ 63\<close>; \<open>huge_weights_panic\<close> shows why. The request
  counter of the traces is a 64-bit word, so names are distinct for fewer than \<open>2 ^ 64\<close> traced requests.

  \<^bold>\<open>Parameters.\<close> The YAML decoder, the time-of-day library, \<open>encoding/json\<close>'s parser and printer, the
  gzip reader, \<open>net.ParseIP\<close>, \<open>url.Parse\<close>, the file system, the environment, the Prometheus registry
  (\<open>registerer\<close> of \<open>Registry\<close> states its documented behaviour), the log sampler, the local clock, the HTTP
  server that \<open>App.Run\<close> starts and the transport are arguments.

  \<^bold>\<open>Not modelled.\<close> The parsing of the command line by the service library; the text of the log lines other
  than \<open>[req]\<close> and of the help strings of metrics; the reverse proxy, the readiness, garbage
  collection and Prometheus handlers, which are libraries; the decoding of YAML nodes into the
  configuration (a library driven by struct tags); the automatic revert of the log level; flushing and
  hijacking through \<open>Unwrap\<close>; the mocks, which are generated. A request context that ends is an event that
  may happen at any time, so the handling of cancelled connections by \<open>net/http\<close> is not modelled
  further. The composed chain takes the response of an upstream as the sequence of writes it makes and
  leaves the bytes on the wire to \<open>net/http\<close>.

  \<^bold>\<open>Simplifications.\<close> In the cold-start gate, an event of a returning request (\<open>cg_returns\<close>) takes the status
  observation and the deferred release together, and the event of the first delta (\<open>cg_on_delta\<close>) the
  release, the recorded time and its observation; in the code these are successive critical sections.
  The tokens in flight are an unbounded integer, which bodies of at most 32 MiB do not tell from an
  \<open>int\<close>. A 1xx status counts as the final one (\<open>write_header\<close>). The context of one construction is
  cancelled or not from start to end. The mux is modelled for paths without percent escapes.
\<close>

end
